(* ===== verification/Prelude.thy ===== *)
theory Prelude
  imports "HOL-Library.Word" "HOL-Library.Monad_Syntax" "HOL-Library.Multiset"
begin

unbundle bit_operations_syntax

text \<open>
  Shared vocabulary of the development: the machine types of the arm64 build, the two bits
  the red-black trees hide in a pointer, the collections of rewrite rules the component
  theories extend, and the generic lemmas on lists and maps that several of them use.
\<close>

section \<open>Machine types\<close>

type_synonym ptr = "64 word"
type_synonym u8 = "8 word"
type_synonym u32 = "32 word"
type_synonym u64 = "64 word"

text \<open>The null pointer is the zero word.\<close>

abbreviation NULL :: ptr where
  "NULL \<equiv> 0"

section \<open>Collections\<close>

text \<open>
  \<open>rb_exec\<close> holds the equations that run one primitive of the tree code on a heap that
  stores a tree, \<open>tree_norm\<close> the equations that move a focus through the tree.
\<close>

named_theorems rb_exec
named_theorems tree_norm

section \<open>The low bits of an aligned pointer\<close>

text \<open>
  A node is at least four-byte aligned, so bits 0 and 1 of its address are free; the tree
  code keeps the colour in bit 0.
\<close>

definition aligned :: "ptr \<Rightarrow> bool" where
  "aligned p \<longleftrightarrow> p AND 3 = 0"

lemma bit_three: "bit (3::int) n \<longleftrightarrow> n = 0 \<or> n = Suc 0"
proof -
  have m: "(3::int) = mask 2" by (simp add: mask_eq_exp_minus_1)
  show ?thesis unfolding m by (auto simp: bit_mask_iff)
qed

lemma aligned_bits: "aligned p \<longleftrightarrow> (\<forall>n. bit p n \<longrightarrow> n \<noteq> 0 \<and> n \<noteq> Suc 0)"
proof
  assume "aligned p"
  then have *: "bit (p AND 3) n = bit 0 n" for n by (simp add: aligned_def)
  show "\<forall>n. bit p n \<longrightarrow> n \<noteq> 0 \<and> n \<noteq> Suc 0"
  proof (intro allI impI)
    fix n assume b: "bit p n"
    then have "n < 64" using bit_imp_le_length [of p n] by simp
    with b * [of n] show "n \<noteq> 0 \<and> n \<noteq> Suc 0"
      by (simp add: bit_and_iff bit_three)
  qed
next
  assume "\<forall>n. bit p n \<longrightarrow> n \<noteq> 0 \<and> n \<noteq> Suc 0"
  then show "aligned p"
    unfolding aligned_def by (intro bit_word_eqI) (auto simp: bit_and_iff bit_three)
qed

lemma aligned_NULL [simp]: "aligned NULL"
  by (simp add: aligned_def)

section \<open>Maps\<close>

lemma map_add_notin [simp]: "x \<notin> dom n \<Longrightarrow> (m ++ n) x = m x"
  by (simp add: map_add_dom_app_simps)

lemma map_add_in: "x \<in> dom n \<Longrightarrow> (m ++ n) x = n x"
  by (simp add: map_add_dom_app_simps)

section \<open>The type \<open>int\<close> of C\<close>

text \<open>A signed addition that leaves the range is undefined behaviour, the value \<open>None\<close>.\<close>

definition INT_MAX :: int where
  "INT_MAX = 2147483647"

definition INT_MIN :: int where
  "INT_MIN = - 2147483648"

definition int_add :: "int \<Rightarrow> int \<Rightarrow> int option" where
  "int_add x y = (if INT_MIN \<le> x + y \<and> x + y \<le> INT_MAX then Some (x + y) else None)"

lemma int_add_Some [simp]: "INT_MIN \<le> x + y \<Longrightarrow> x + y \<le> INT_MAX \<Longrightarrow> int_add x y = Some (x + y)"
  by (simp add: int_add_def)

end
