(* ===== verification/Rb_Node.thy ===== *)
theory Rb_Node
  imports Prelude
begin

unbundle bit_operations_syntax

text \<open>
  Nodes of \<open>rbtree.h\<close>, the heap they live in, and the macros at the head of \<open>rbtree.c\<close>.
  A read or write through a pointer that is null or not allocated is undefined behaviour in
  C; here it is the value \<open>None\<close>, so a theorem that an operation returns \<open>Some\<close> says in
  particular that it only touches allocated nodes.
\<close>

section \<open>Nodes and the heap\<close>

record rb_node =
  rb_parent_color :: u64
  rb_right :: ptr
  rb_left :: ptr

text \<open>
  The state of a tree operation: the nodes that are allocated, by address, and the field
  \<open>rb_node\<close> of the \<open>struct rb_root\<close> the operation is given.
\<close>

record rb_state =
  mem :: "ptr \<rightharpoonup> rb_node"
  root_node :: ptr

definition deref :: "ptr \<Rightarrow> rb_state \<Rightarrow> rb_node option" where
  "deref p s = (if p = NULL then None else mem s p)"

definition modify :: "ptr \<Rightarrow> (rb_node \<Rightarrow> rb_node) \<Rightarrow> rb_state \<Rightarrow> rb_state option" where
  "modify p f s = do { n \<leftarrow> deref p s; Some (s\<lparr>mem := (mem s)(p \<mapsto> f n)\<rparr>) }"

definition get_left :: "ptr \<Rightarrow> rb_state \<Rightarrow> ptr option" where
  "get_left p s = do { n \<leftarrow> deref p s; Some (rb_left n) }"

definition get_right :: "ptr \<Rightarrow> rb_state \<Rightarrow> ptr option" where
  "get_right p s = do { n \<leftarrow> deref p s; Some (rb_right n) }"

definition set_left :: "ptr \<Rightarrow> ptr \<Rightarrow> rb_state \<Rightarrow> rb_state option" where
  "set_left p v = modify p (\<lambda>n. n\<lparr>rb_left := v\<rparr>)"

definition set_right :: "ptr \<Rightarrow> ptr \<Rightarrow> rb_state \<Rightarrow> rb_state option" where
  "set_right p v = modify p (\<lambda>n. n\<lparr>rb_right := v\<rparr>)"

definition set_root :: "ptr \<Rightarrow> rb_state \<Rightarrow> rb_state option" where
  "set_root v s = Some (s\<lparr>root_node := v\<rparr>)"

section \<open>The macros of \<open>rbtree.c\<close>\<close>

definition RB_RED :: u64 where
  "RB_RED = 0"

definition RB_BLACK :: u64 where
  "RB_BLACK = 1"

definition rb_parent :: "ptr \<Rightarrow> rb_state \<Rightarrow> ptr option" where
  "rb_parent r s = do { n \<leftarrow> deref r s; Some (rb_parent_color n AND NOT 3) }"

definition rb_color :: "ptr \<Rightarrow> rb_state \<Rightarrow> u64 option" where
  "rb_color r s = do { n \<leftarrow> deref r s; Some (rb_parent_color n AND 1) }"

definition rb_is_red :: "ptr \<Rightarrow> rb_state \<Rightarrow> bool option" where
  "rb_is_red r s = do { c \<leftarrow> rb_color r s; Some (c = 0) }"

definition rb_is_black :: "ptr \<Rightarrow> rb_state \<Rightarrow> bool option" where
  "rb_is_black r s = do { c \<leftarrow> rb_color r s; Some (c \<noteq> 0) }"

definition rb_set_red :: "ptr \<Rightarrow> rb_state \<Rightarrow> rb_state option" where
  "rb_set_red r = modify r (\<lambda>n. n\<lparr>rb_parent_color := rb_parent_color n AND NOT 1\<rparr>)"

definition rb_set_black :: "ptr \<Rightarrow> rb_state \<Rightarrow> rb_state option" where
  "rb_set_black r = modify r (\<lambda>n. n\<lparr>rb_parent_color := rb_parent_color n OR 1\<rparr>)"

definition rb_set_parent :: "ptr \<Rightarrow> ptr \<Rightarrow> rb_state \<Rightarrow> rb_state option" where
  "rb_set_parent rb p =
     modify rb (\<lambda>n. n\<lparr>rb_parent_color := (rb_parent_color n AND 3) OR p\<rparr>)"

definition rb_set_color :: "ptr \<Rightarrow> u64 \<Rightarrow> rb_state \<Rightarrow> rb_state option" where
  "rb_set_color rb color =
     modify rb (\<lambda>n. n\<lparr>rb_parent_color := (rb_parent_color n AND NOT 1) OR color\<rparr>)"

definition RB_EMPTY_ROOT :: "rb_state \<Rightarrow> bool" where
  "RB_EMPTY_ROOT s \<longleftrightarrow> root_node s = NULL"

definition RB_EMPTY_NODE :: "ptr \<Rightarrow> rb_state \<Rightarrow> bool option" where
  "RB_EMPTY_NODE node s = do { p \<leftarrow> rb_parent node s; Some (p = node) }"

definition RB_CLEAR_NODE :: "ptr \<Rightarrow> rb_state \<Rightarrow> rb_state option" where
  "RB_CLEAR_NODE node = rb_set_parent node node"

text \<open>The guards \<open>p && rb_is_red(p)\<close> and \<open>!p || rb_is_black(p)\<close>, evaluated left to right.\<close>

definition nonnull_red :: "ptr \<Rightarrow> rb_state \<Rightarrow> bool option" where
  "nonnull_red p s = (if p = NULL then Some False else rb_is_red p s)"

definition null_or_black :: "ptr \<Rightarrow> rb_state \<Rightarrow> bool option" where
  "null_or_black p s = (if p = NULL then Some True else rb_is_black p s)"

end
