(* ===== verification/Rb_Tree.thy ===== *)
theory Rb_Tree
  imports Rb_Node
begin

unbundle bit_operations_syntax

text \<open>
  Trees as mathematical objects and the heap that stores one. A \<open>ptree\<close> is a binary tree of
  node addresses with colours; \<open>st h T\<close> is the state in which \<open>T\<close> is stored on top of the
  other allocations \<open>h\<close>. The operations of \<open>rbtree.c\<close> are then described by equations
  between such states, which also say that every address outside the tree is untouched.
\<close>

section \<open>Trees of addresses\<close>

datatype color = Red | Black

datatype ptree = Leaf | Node color ptree ptr ptree

fun ptr_of :: "ptree \<Rightarrow> ptr" where
  "ptr_of Leaf = NULL"
| "ptr_of (Node c l a r) = a"

fun addrs :: "ptree \<Rightarrow> ptr list" where
  "addrs Leaf = []"
| "addrs (Node c l a r) = addrs l @ a # addrs r"

fun color_of :: "ptree \<Rightarrow> color" where
  "color_of Leaf = Black"
| "color_of (Node c l a r) = c"

text \<open>A usable node address: not null, and with the two low bits free.\<close>

definition okp :: "ptr \<Rightarrow> bool" where
  "okp a \<longleftrightarrow> a \<noteq> NULL \<and> aligned a"

definition wf_addrs :: "ptr list \<Rightarrow> bool" where
  "wf_addrs as \<longleftrightarrow> distinct as \<and> (\<forall>a \<in> set as. okp a)"

definition wf :: "ptree \<Rightarrow> bool" where
  "wf T \<longleftrightarrow> wf_addrs (addrs T)"

lemma wf_Leaf [simp]: "wf Leaf"
  by (simp add: wf_def wf_addrs_def)

lemma wf_same_addrs: "wf T \<Longrightarrow> addrs T' = addrs T \<Longrightarrow> wf T'"
  by (simp add: wf_def)

lemma ptr_of_neq [simp]:
  "a \<notin> set (addrs t) \<Longrightarrow> a \<noteq> NULL \<Longrightarrow> a \<noteq> ptr_of t"
  "a \<notin> set (addrs t) \<Longrightarrow> a \<noteq> NULL \<Longrightarrow> ptr_of t \<noteq> a"
  by (cases t; auto)+

section \<open>The packed word\<close>

definition colbit :: "color \<Rightarrow> u64" where
  "colbit c = (case c of Red \<Rightarrow> RB_RED | Black \<Rightarrow> RB_BLACK)"

definition pack :: "ptr \<Rightarrow> color \<Rightarrow> u64" where
  "pack p c = p OR colbit c"

lemma bit_colbit: "bit (colbit c) n \<longleftrightarrow> c = Black \<and> n = 0"
  by (cases c) (auto simp: colbit_def RB_RED_def RB_BLACK_def bit_simps)

lemmas pack_bits = pack_def bit_simps bit_three bit_colbit aligned_bits

lemma pack_parent [simp]: "aligned p \<Longrightarrow> pack p c AND NOT 3 = p"
  by (intro bit_word_eqI) (auto simp: pack_bits)

lemma pack_color [simp]: "aligned p \<Longrightarrow> pack p c AND 1 = colbit c"
  by (intro bit_word_eqI) (auto simp: pack_bits)

lemma pack_set_parent: "aligned p \<Longrightarrow> (pack p c AND 3) OR q = pack q c"
  by (intro bit_word_eqI) (auto simp: pack_bits)

lemma pack_and_three [simp]: "aligned p \<Longrightarrow> pack p c AND 3 = colbit c"
  by (intro bit_word_eqI) (auto simp: pack_bits)

lemma pack_set_red [simp]: "aligned p \<Longrightarrow> pack p c AND NOT 1 = pack p Red"
  by (intro bit_word_eqI) (auto simp: pack_bits)

lemma pack_set_black [simp]: "aligned p \<Longrightarrow> pack p c OR 1 = pack p Black"
  by (intro bit_word_eqI) (auto simp: pack_bits)

lemma pack_set_color [simp]: "aligned p \<Longrightarrow> (pack p c AND NOT 1) OR colbit d = pack p d"
  by (intro bit_word_eqI) (auto simp: pack_bits)

lemma pack_Red: "pack p Red = p"
  by (simp add: pack_def colbit_def RB_RED_def)

text \<open>The simplifier writes the masks \<open>NOT 1\<close> and \<open>NOT 3\<close> as negative numerals.\<close>

lemma pack_masks [simp]:
  assumes "aligned p"
  shows "pack p c AND - 4 = p" "pack p c AND - 2 = pack p Red"
  using pack_parent [OF assms, of c] pack_set_red [OF assms, of c] by simp_all

lemma pack_fold [simp]: "p OR colbit c = pack p c" "colbit c OR p = pack p c"
  by (simp_all add: pack_def or.commute)

lemma pack_repack [simp]: "pack (pack p Red) k = pack p k"
  by (simp add: pack_Red)

lemma colbit_eq_0 [simp]: "colbit c = 0 \<longleftrightarrow> c = Red"
  by (cases c) (simp_all add: colbit_def RB_RED_def RB_BLACK_def)

section \<open>The heap that stores a tree\<close>

definition node_rec :: "ptr \<Rightarrow> color \<Rightarrow> ptr \<Rightarrow> ptr \<Rightarrow> rb_node" where
  "node_rec p c l r = \<lparr>rb_parent_color = pack p c, rb_right = r, rb_left = l\<rparr>"

fun nodes_of :: "ptr \<Rightarrow> ptree \<Rightarrow> (ptr \<rightharpoonup> rb_node)" where
  "nodes_of p Leaf = Map.empty"
| "nodes_of p (Node c l a r) = (nodes_of a l ++ nodes_of a r)(a \<mapsto> node_rec p c (ptr_of l) (ptr_of r))"

definition st :: "(ptr \<rightharpoonup> rb_node) \<Rightarrow> ptree \<Rightarrow> rb_state" where
  "st h T = \<lparr>mem = h ++ nodes_of NULL T, root_node = ptr_of T\<rparr>"

lemma dom_nodes_of [simp]: "dom (nodes_of p t) = set (addrs t)"
  by (induction p t rule: nodes_of.induct) (simp_all del: fun_upd_apply add: Un_commute)

section \<open>Contexts: a tree with a hole\<close>

text \<open>
  A path from a node up to the root, innermost frame first: in \<open>LF\<close> the hole is the left
  child of the frame's node, in \<open>RF\<close> the right child.
\<close>

datatype frame = LF color ptr ptree | RF color ptree ptr

type_synonym ctx = "frame list"

fun fill :: "frame \<Rightarrow> ptree \<Rightarrow> ptree" where
  "fill (LF c a r) t = Node c t a r"
| "fill (RF c l a) t = Node c l a t"

fun plug :: "ctx \<Rightarrow> ptree \<Rightarrow> ptree" where
  "plug [] t = t"
| "plug (f # C) t = plug C (fill f t)"

fun frame_ptr :: "frame \<Rightarrow> ptr" where
  "frame_ptr (LF c a r) = a"
| "frame_ptr (RF c l a) = a"

fun frame_color :: "frame \<Rightarrow> color" where
  "frame_color (LF c a r) = c"
| "frame_color (RF c l a) = c"

fun par_of :: "ctx \<Rightarrow> ptr" where
  "par_of [] = NULL"
| "par_of (f # C) = frame_ptr f"

fun addrs_before :: "ctx \<Rightarrow> ptr list" where
  "addrs_before [] = []"
| "addrs_before (LF c a r # C) = addrs_before C"
| "addrs_before (RF c l a # C) = addrs_before C @ addrs l @ [a]"

fun addrs_after :: "ctx \<Rightarrow> ptr list" where
  "addrs_after [] = []"
| "addrs_after (LF c a r # C) = a # addrs r @ addrs_after C"
| "addrs_after (RF c l a # C) = addrs_after C"

lemma addrs_plug [simp]: "addrs (plug C t) = addrs_before C @ addrs t @ addrs_after C"
proof (induction C arbitrary: t)
  case (Cons f C)
  then show ?case by (cases f) auto
qed simp

lemma plug_append: "plug (C @ D) t = plug D (plug C t)"
  by (induction C arbitrary: t) auto

lemma ptr_of_plug: "ptr_of t = ptr_of t' \<Longrightarrow> ptr_of (plug C t) = ptr_of (plug C t')"
proof (induction C arbitrary: t t')
  case (Cons f C)
  then show ?case by (cases f) auto
qed simp

lemma ptr_of_plug_Cons: "ptr_of (plug (f # C) t) = ptr_of (plug (f # C) t')"
  by (cases f) (auto intro: ptr_of_plug)

lemma aligned_par_of: "wf (plug C t) \<Longrightarrow> aligned (par_of C)"
  by (cases "(C, t)" rule: plug.cases; cases "hd C")
    (auto simp: wf_def wf_addrs_def okp_def)

text \<open>The heap of a context depends on the tree in its hole only through its address.\<close>

fun nodes_ctx :: "ctx \<Rightarrow> ptr \<Rightarrow> (ptr \<rightharpoonup> rb_node)" where
  "nodes_ctx [] q = Map.empty"
| "nodes_ctx (LF c a r # C) q =
     (nodes_ctx C a ++ nodes_of a r)(a \<mapsto> node_rec (par_of C) c q (ptr_of r))"
| "nodes_ctx (RF c l a # C) q =
     (nodes_ctx C a ++ nodes_of a l)(a \<mapsto> node_rec (par_of C) c (ptr_of l) q)"

lemma dom_nodes_ctx [simp]:
  "dom (nodes_ctx C q) = set (addrs_before C) \<union> set (addrs_after C)"
  by (induction C q rule: nodes_ctx.induct) (simp_all del: fun_upd_apply, blast+)

lemma nodes_plug:
  "distinct (addrs (plug C t)) \<Longrightarrow>
   nodes_of NULL (plug C t) = nodes_ctx C (ptr_of t) ++ nodes_of (par_of C) t"
proof (induction C arbitrary: t)
  case (Cons f C)
  from Cons.prems have IH: "nodes_of NULL (plug (f # C) t)
      = nodes_ctx C (frame_ptr f) ++ nodes_of (par_of C) (fill f t)"
    using Cons.IH [of "fill f t"] by (cases f) (simp_all del: fun_upd_apply nodes_of.simps)
  show ?case
  proof (cases f)
    case (LF c a r)
    with Cons.prems have disj: "dom (nodes_of a t) \<inter> dom (nodes_of a r) = {}"
      and notin: "a \<notin> set (addrs t)"
      by auto
    note swap = map_add_comm [OF disj]
    from IH notin show ?thesis
      by (simp del: fun_upd_apply map_add_assoc add: LF swap map_add_upd_left)
        (simp del: fun_upd_apply)
  next
    case (RF c l a)
    with Cons.prems IH show ?thesis
      by (simp del: fun_upd_apply add: map_add_upd_left)
  qed
qed simp

section \<open>Reading a node\<close>

text \<open>The record stored at an address of the tree, found by walking the tree.\<close>

definition nd :: "ptr \<Rightarrow> ptree \<Rightarrow> ptr \<Rightarrow> rb_node" where
  "nd p t b = the (nodes_of p t b)"

lemma nd_root [simp]: "nd p (Node c l a r) a = node_rec p c (ptr_of l) (ptr_of r)"
  by (simp add: nd_def)

lemma nd_left [simp]:
  "b \<in> set (addrs l) \<Longrightarrow> b \<noteq> a \<Longrightarrow> b \<notin> set (addrs r) \<Longrightarrow> nd p (Node c l a r) b = nd a l b"
  by (simp add: nd_def)

lemma nd_right [simp]:
  "b \<in> set (addrs r) \<Longrightarrow> b \<noteq> a \<Longrightarrow> nd p (Node c l a r) b = nd a r b"
  by (simp add: nd_def map_add_in)

lemma nd_plug:
  "wf (plug C t) \<Longrightarrow> b \<in> set (addrs t) \<Longrightarrow> nd NULL (plug C t) b = nd (par_of C) t b"
  by (simp add: nd_def wf_def wf_addrs_def nodes_plug map_add_in del: addrs_plug)

lemma okp_in: "wf T \<Longrightarrow> b \<in> set (addrs T) \<Longrightarrow> okp b"
  by (simp add: wf_def wf_addrs_def)

lemma nodes_of_in: "b \<in> set (addrs t) \<Longrightarrow> nodes_of p t b = Some (nd p t b)"
  unfolding nd_def using dom_nodes_of [of p t] by (metis domIff option.collapse)

lemma deref_st:
  "wf T \<Longrightarrow> b \<in> set (addrs T) \<Longrightarrow> deref b (st h T) = Some (nd NULL T b)"
  using okp_in [of T b]
  by (simp add: deref_def st_def okp_def map_add_in nodes_of_in)

lemma node_rec_sel [simp]:
  "rb_parent_color (node_rec p c l r) = pack p c"
  "rb_left (node_rec p c l r) = l"
  "rb_right (node_rec p c l r) = r"
  by (simp_all add: node_rec_def)

lemma node_rec_upd [simp]:
  "(node_rec p c l r)\<lparr>rb_left := l'\<rparr> = node_rec p c l' r"
  "(node_rec p c l r)\<lparr>rb_right := r'\<rparr> = node_rec p c l r'"
  "(node_rec p c l r)\<lparr>rb_parent_color := pack q d\<rparr> = node_rec q d l r"
  by (simp_all add: node_rec_def)

lemma node_rec_orphan [simp]:
  "(node_rec p c l r)\<lparr>rb_parent_color := colbit d\<rparr> = node_rec NULL d l r"
  by (simp add: node_rec_def pack_def del: pack_fold)

lemma get_left_st [rb_exec]:
  "wf T \<Longrightarrow> b \<in> set (addrs T) \<Longrightarrow> get_left b (st h T) = Some (rb_left (nd NULL T b))"
  by (simp add: get_left_def deref_st)

lemma get_right_st [rb_exec]:
  "wf T \<Longrightarrow> b \<in> set (addrs T) \<Longrightarrow> get_right b (st h T) = Some (rb_right (nd NULL T b))"
  by (simp add: get_right_def deref_st)

lemma rb_parent_st [rb_exec]:
  "wf T \<Longrightarrow> b \<in> set (addrs T) \<Longrightarrow>
   rb_parent b (st h T) = Some (rb_parent_color (nd NULL T b) AND NOT 3)"
  by (simp add: rb_parent_def deref_st)

lemma rb_color_st [rb_exec]:
  "wf T \<Longrightarrow> b \<in> set (addrs T) \<Longrightarrow>
   rb_color b (st h T) = Some (rb_parent_color (nd NULL T b) AND 1)"
  by (simp add: rb_color_def deref_st)

lemma rb_is_red_st [rb_exec]:
  "wf T \<Longrightarrow> b \<in> set (addrs T) \<Longrightarrow>
   rb_is_red b (st h T) = Some (rb_parent_color (nd NULL T b) AND 1 = 0)"
  by (simp add: rb_is_red_def rb_color_st)

lemma rb_is_black_st [rb_exec]:
  "wf T \<Longrightarrow> b \<in> set (addrs T) \<Longrightarrow>
   rb_is_black b (st h T) = Some (rb_parent_color (nd NULL T b) AND 1 \<noteq> 0)"
  by (simp add: rb_is_black_def rb_color_st)

lemma root_node_st [simp]: "root_node (st h T) = ptr_of T"
  by (simp add: st_def)

section \<open>Recolouring a node\<close>

fun paint_at :: "color \<Rightarrow> ptr \<Rightarrow> ptree \<Rightarrow> ptree" where
  "paint_at k b Leaf = Leaf"
| "paint_at k b (Node c l a r) =
     (if a = b then Node k l a r else Node c (paint_at k b l) a (paint_at k b r))"

lemma ptr_of_paint_at [simp]: "ptr_of (paint_at k b t) = ptr_of t"
  by (cases t) auto

lemma addrs_paint_at [simp]: "addrs (paint_at k b t) = addrs t"
  by (induction t) auto

lemma wf_paint_at [simp]: "wf (paint_at k b t) = wf t"
  by (simp add: wf_def)

lemma paint_at_notin [simp]: "b \<notin> set (addrs t) \<Longrightarrow> paint_at k b t = t"
  by (induction t) auto

lemma paint_at_plug:
  "wf (plug C t) \<Longrightarrow> b \<in> set (addrs t) \<Longrightarrow> paint_at k b (plug C t) = plug C (paint_at k b t)"
proof (induction C arbitrary: t)
  case (Cons f C)
  have "paint_at k b (fill f t) = fill f (paint_at k b t)"
    using Cons.prems by (cases f) (auto simp: wf_def wf_addrs_def intro!: paint_at_notin)
  moreover have "b \<in> set (addrs (fill f t))"
    using Cons.prems(2) by (cases f) auto
  ultimately show ?case
    using Cons.IH [of "fill f t"] Cons.prems(1) by simp
qed simp

fun paint :: "color \<Rightarrow> ptree \<Rightarrow> ptree" where
  "paint k Leaf = Leaf"
| "paint k (Node c l a r) = Node k l a r"

lemma addrs_paint [simp]: "addrs (paint k t) = addrs t"
  by (cases t) auto

lemma ptr_of_paint [simp]: "ptr_of (paint k t) = ptr_of t"
  by (cases t) auto

lemma paint_at_root [simp]: "t \<noteq> Leaf \<Longrightarrow> paint_at k (ptr_of t) t = paint k t"
  by (cases t) auto

lemma nodes_paint_at:
  assumes "wf_addrs (addrs t)" "b \<in> set (addrs t)" "aligned p"
    and f: "\<And>p c l r. aligned p \<Longrightarrow> f (node_rec p c l r) = node_rec p k l r"
  shows "(nodes_of p t)(b \<mapsto> f (nd p t b)) = nodes_of p (paint_at k b t)"
  using assms(1-3)
proof (induction t arbitrary: p)
  case (Node c l a r)
  then have al: "aligned a" and wl: "wf_addrs (addrs l)" and wr: "wf_addrs (addrs r)"
    by (auto simp: wf_addrs_def okp_def)
  consider "b = a" | "b \<noteq> a" "b \<in> set (addrs l)" | "b \<noteq> a" "b \<in> set (addrs r)"
    using Node.prems by auto
  then show ?case
  proof cases
    case 1
    with Node.prems show ?thesis by (simp del: fun_upd_apply add: f)
  next
    case 2
    with Node.prems have "b \<notin> dom (nodes_of a r)" by (auto simp: wf_addrs_def)
    with 2 Node.IH(1) [OF wl _ al]
    have "(nodes_of a l ++ nodes_of a r)(b \<mapsto> f (nd a l b)) = nodes_of a (paint_at k b l) ++ nodes_of a r"
      by (metis map_add_upd_left)
    with 2 Node.prems \<open>b \<notin> dom (nodes_of a r)\<close> show ?thesis
      by (simp del: fun_upd_apply add: fun_upd_twist [of a b])
  next
    case 3
    with Node.prems have "b \<notin> set (addrs l)" by (auto simp: wf_addrs_def)
    moreover have "(nodes_of a l ++ nodes_of a r)(b \<mapsto> f (nd a r b)) = nodes_of a l ++ nodes_of a (paint_at k b r)"
      using 3 Node.IH(2) [OF wr _ al] by (metis map_add_upd)
    ultimately show ?thesis
      using 3 by (simp del: fun_upd_apply add: fun_upd_twist [of a b])
  qed
qed simp

lemma modify_paint:
  assumes W: "wf T" and b: "b \<in> set (addrs T)"
    and f: "\<And>p c l r. aligned p \<Longrightarrow> f (node_rec p c l r) = node_rec p k l r"
  shows "modify b f (st h T) = Some (st h (paint_at k b T))"
proof -
  have "(nodes_of NULL T)(b \<mapsto> f (nd NULL T b)) = nodes_of NULL (paint_at k b T)"
    using W b f by (intro nodes_paint_at) (auto simp: wf_def)
  then have "(h ++ nodes_of NULL T)(b \<mapsto> f (nd NULL T b)) = h ++ nodes_of NULL (paint_at k b T)"
    by (metis map_add_upd)
  then show ?thesis
    using deref_st [OF W b, of h] by (simp add: modify_def st_def)
qed

lemma rb_set_red_st [rb_exec]:
  "wf T \<Longrightarrow> b \<in> set (addrs T) \<Longrightarrow> rb_set_red b (st h T) = Some (st h (paint_at Red b T))"
  unfolding rb_set_red_def by (rule modify_paint) simp_all

lemma rb_set_black_st [rb_exec]:
  "wf T \<Longrightarrow> b \<in> set (addrs T) \<Longrightarrow> rb_set_black b (st h T) = Some (st h (paint_at Black b T))"
  unfolding rb_set_black_def by (rule modify_paint) simp_all

lemma rb_set_color_st [rb_exec]:
  "wf T \<Longrightarrow> b \<in> set (addrs T) \<Longrightarrow>
   rb_set_color b (colbit k) (st h T) = Some (st h (paint_at k b T))"
  unfolding rb_set_color_def by (rule modify_paint) simp_all

lemma ptr_of_in: "t \<noteq> Leaf \<Longrightarrow> ptr_of t \<in> set (addrs t)"
  by (cases t) auto

lemma rb_set_black_root:
  "wf T \<Longrightarrow> T \<noteq> Leaf \<Longrightarrow> rb_set_black (ptr_of T) (st h T) = Some (st h (paint Black T))"
  by (simp add: rb_set_black_st ptr_of_in)

text \<open>A proper subtree, empty or not, is not stored at the address in the root pointer.\<close>

lemma plug_Cons_not_Leaf [simp]: "plug (f # C) t \<noteq> Leaf"
proof (induction C arbitrary: f t)
  case Nil
  then show ?case by (cases f) auto
qed simp

lemma root_not_below:
  assumes W: "wf (plug (f # C) t)"
  shows "ptr_of t \<noteq> ptr_of (plug (f # C) t)"
proof -
  let ?r = "ptr_of (plug (f # C) t)"
  have "?r = ptr_of (plug (f # C) Leaf)" by (rule ptr_of_plug_Cons)
  also have "\<dots> \<in> set (addrs (plug (f # C) Leaf))"
    by (rule ptr_of_in) (rule plug_Cons_not_Leaf)
  finally have "?r \<in> set (addrs_before (f # C)) \<union> set (addrs_after (f # C))"
    by (simp del: plug.simps)
  with W have "?r \<notin> set (addrs t)" "?r \<noteq> NULL"
    by (auto simp: wf_def wf_addrs_def okp_def simp del: plug.simps)
  then show ?thesis by (rule ptr_of_neq(2))
qed

text \<open>Everything needed to run one round of a repair loop on a stored tree.\<close>

lemmas loop_exec = rb_exec nd_plug paint_at_plug nonnull_red_def null_or_black_def
  okp_def wf_def wf_addrs_def

section \<open>Relinking\<close>

text \<open>
  Functions that relink nodes pass through states that store no tree; they are run on the
  heap itself, with the tree under the focus written out.
\<close>

lemmas raw_exec = deref_def modify_def get_left_def get_right_def set_left_def set_right_def
  set_root_def rb_parent_def rb_set_parent_def

lemma st_plug:
  assumes "wf (plug C t)"
  shows "st h (plug C t) = \<lparr>mem = h ++ (nodes_ctx C (ptr_of t) ++ nodes_of (par_of C) t),
    root_node = ptr_of (plug C t)\<rparr>"
  using assms by (simp add: st_def nodes_plug wf_def wf_addrs_def del: addrs_plug)

lemmas relink_exec = raw_exec wf_def wf_addrs_def okp_def map_add_upd_left fun_upd_same fun_upd_other

end
