(* ===== verification/Rb_Rotate.thy ===== *)
theory Rb_Rotate
  imports Rb_Tree
begin

text \<open>
  The two rotations of \<open>rbtree.c\<close>. Each relinks up to four nodes; on a heap that stores a
  tree the result is the heap that stores the rotated tree, at any depth.
\<close>

definition rb_rotate_left :: "ptr \<Rightarrow> rb_state \<Rightarrow> rb_state option" where
  "rb_rotate_left node s = do {
     right \<leftarrow> get_right node s;
     parent \<leftarrow> rb_parent node s;
     rl \<leftarrow> get_left right s;
     s \<leftarrow> set_right node rl s;
     s \<leftarrow> (if rl \<noteq> NULL
          then do { rl' \<leftarrow> get_left right s; rb_set_parent rl' node s }
          else Some s);
     s \<leftarrow> set_left right node s;
     s \<leftarrow> rb_set_parent right parent s;
     s \<leftarrow> (if parent \<noteq> NULL
          then do {
            pl \<leftarrow> get_left parent s;
            if node = pl then set_left parent right s else set_right parent right s }
          else set_root right s);
     rb_set_parent node right s }"

definition rb_rotate_right :: "ptr \<Rightarrow> rb_state \<Rightarrow> rb_state option" where
  "rb_rotate_right node s = do {
     left \<leftarrow> get_left node s;
     parent \<leftarrow> rb_parent node s;
     lr \<leftarrow> get_right left s;
     s \<leftarrow> set_left node lr s;
     s \<leftarrow> (if lr \<noteq> NULL
          then do { lr' \<leftarrow> get_right left s; rb_set_parent lr' node s }
          else Some s);
     s \<leftarrow> set_right left node s;
     s \<leftarrow> rb_set_parent left parent s;
     s \<leftarrow> (if parent \<noteq> NULL
          then do {
            pr \<leftarrow> get_right parent s;
            if node = pr then set_right parent left s else set_left parent left s }
          else set_root left s);
     rb_set_parent node left s }"

text \<open>
  Both proofs run the function symbolically, in each shape of the surroundings: the node is
  the root or a left or right child, and the subtree that changes parents is empty or not.
\<close>

lemma rb_rotate_left_st:
  assumes W: "wf (plug C (Node c x a (Node d y b z)))"
  shows "rb_rotate_left a (st h (plug C (Node c x a (Node d y b z))))
    = Some (st h (plug C (Node d (Node c x a y) b z)))"
proof -
  have W': "wf (plug C (Node d (Node c x a y) b z))"
    using W by (simp add: wf_def)
  show ?thesis
  proof (cases C)
    case Nil
    show ?thesis
      unfolding st_plug [OF W] st_plug [OF W'] using W unfolding Nil
      by (cases y; clarsimp simp: rb_rotate_left_def relink_exec simp del: fun_upd_apply; simp add: fun_upd_twist del: fun_upd_apply)
  next
    case (Cons f C')
    have R: "ptr_of (plug C (Node d (Node c x a y) b z)) = ptr_of (plug C (Node c x a (Node d y b z)))"
      unfolding Cons by (rule ptr_of_plug_Cons)
    show ?thesis
      unfolding st_plug [OF W] st_plug [OF W'] R using W unfolding Cons
      by (cases f; cases y; clarsimp simp: rb_rotate_left_def relink_exec simp del: fun_upd_apply;
          simp add: fun_upd_twist del: fun_upd_apply)
  qed
qed

lemma rb_rotate_right_st:
  assumes W: "wf (plug C (Node c (Node d x b y) a z))"
  shows "rb_rotate_right a (st h (plug C (Node c (Node d x b y) a z)))
    = Some (st h (plug C (Node d x b (Node c y a z))))"
proof -
  have W': "wf (plug C (Node d x b (Node c y a z)))"
    using W by (simp add: wf_def)
  show ?thesis
  proof (cases C)
    case Nil
    show ?thesis
      unfolding st_plug [OF W] st_plug [OF W'] using W unfolding Nil
      by (cases y; clarsimp simp: rb_rotate_right_def relink_exec simp del: fun_upd_apply; simp add: fun_upd_twist del: fun_upd_apply)
  next
    case (Cons f C')
    have R: "ptr_of (plug C (Node d x b (Node c y a z))) = ptr_of (plug C (Node c (Node d x b y) a z))"
      unfolding Cons by (rule ptr_of_plug_Cons)
    show ?thesis
      unfolding st_plug [OF W] st_plug [OF W'] R using W unfolding Cons
      by (cases f; cases y; clarsimp simp: rb_rotate_right_def relink_exec simp del: fun_upd_apply;
          simp add: fun_upd_twist del: fun_upd_apply)
  qed
qed

text \<open>The same rotations one level below the node the focus is on.\<close>

lemmas rb_rotate_left_child_st =
  rb_rotate_left_st [of "LF k p v # C" for k p v C, simplified]
  rb_rotate_left_st [of "RF k v p # C" for k p v C, simplified]

lemmas rb_rotate_right_child_st =
  rb_rotate_right_st [of "LF k p v # C" for k p v C, simplified]
  rb_rotate_right_st [of "RF k v p # C" for k p v C, simplified]

end
