(* ===== verification/Rb_Balance.thy ===== *)
theory Rb_Balance
  imports Rb_Tree
begin

text \<open>
  The red-black invariants, on whole trees and on a tree with a hole. The repair loops of
  \<open>rbtree.c\<close> climb from a node to the root; between two rounds the tree is a subtree in a
  context, and \<open>rbt_plug\<close> says what each of the two must satisfy.
\<close>

fun bheight :: "ptree \<Rightarrow> nat" where
  "bheight Leaf = 0"
| "bheight (Node c l a r) = (if c = Black then Suc (bheight l) else bheight l)"

fun invc :: "ptree \<Rightarrow> bool" where
  "invc Leaf \<longleftrightarrow> True"
| "invc (Node c l a r) \<longleftrightarrow>
     (c = Red \<longrightarrow> color_of l = Black \<and> color_of r = Black) \<and> invc l \<and> invc r"

fun invh :: "ptree \<Rightarrow> bool" where
  "invh Leaf \<longleftrightarrow> True"
| "invh (Node c l a r) \<longleftrightarrow> bheight l = bheight r \<and> invh l \<and> invh r"

definition rbt :: "ptree \<Rightarrow> bool" where
  "rbt T \<longleftrightarrow> invc T \<and> invh T \<and> color_of T = Black"

lemma not_Black [simp]: "c \<noteq> Black \<longleftrightarrow> c = Red"
  by (cases c) auto

lemma not_Red [simp]: "c \<noteq> Red \<longleftrightarrow> c = Black"
  by (cases c) auto

lemma Red_tree: "color_of t = Red \<Longrightarrow> \<exists>l a r. t = Node Red l a r"
  by (cases t) auto

lemma Black_tree:
  "color_of t = Black \<Longrightarrow> 0 < bheight t \<Longrightarrow> \<exists>l a r. t = Node Black l a r"
  by (cases t) auto

lemma invc_paint_Black [simp]: "invc t \<Longrightarrow> invc (paint Black t)"
  by (cases t) auto

lemma invh_paint [simp]: "invh (paint k t) = invh t"
  by (cases t) auto

lemma color_paint [simp]: "t \<noteq> Leaf \<Longrightarrow> color_of (paint k t) = k"
  by (cases t) auto

lemma color_paint_Black [simp]: "color_of (paint Black t) = Black"
  by (cases t) auto

lemma rbt_paint_Black: "invc t \<Longrightarrow> invh t \<Longrightarrow> rbt (paint Black t)"
  by (simp add: rbt_def)

section \<open>Contexts\<close>

text \<open>The colour above the hole; the hole at the root must not be filled with red either.\<close>

fun col_ctx :: "ctx \<Rightarrow> color" where
  "col_ctx [] = Red"
| "col_ctx (f # C) = frame_color f"

fun sibling :: "frame \<Rightarrow> ptree" where
  "sibling (LF c a r) = r"
| "sibling (RF c l a) = l"

fun ctx_inv :: "ctx \<Rightarrow> nat \<Rightarrow> bool" where
  "ctx_inv [] n \<longleftrightarrow> True"
| "ctx_inv (f # C) n \<longleftrightarrow>
     invc (sibling f) \<and> invh (sibling f) \<and> bheight (sibling f) = n \<and>
     (frame_color f = Red \<longrightarrow> color_of (sibling f) = Black \<and> col_ctx C = Black) \<and>
     ctx_inv C (if frame_color f = Black then Suc n else n)"

lemma rbt_plug:
  "rbt (plug C t) \<longleftrightarrow>
   invc t \<and> invh t \<and> ctx_inv C (bheight t) \<and> (color_of t = Red \<longrightarrow> col_ctx C = Black)"
proof (induction C arbitrary: t)
  case Nil
  then show ?case by (cases "color_of t") (auto simp: rbt_def)
next
  case (Cons f C)
  note IH = Cons.IH [of "fill f t"]
  show ?case
  proof (cases f)
    case (LF c a r)
    with IH show ?thesis
      by (cases c; cases "color_of t"; simp add: conj_ac eq_commute [of "bheight r" "bheight t"])
  next
    case (RF c l a)
    with IH show ?thesis
      by (cases c; cases "color_of t"; cases "bheight l = bheight t"; simp add: conj_ac)
  qed
qed

end
