(* ===== verification/Rb_Insert.thy ===== *)
theory Rb_Insert
  imports Rb_Rotate Rb_Balance
begin

text \<open>
  \<open>rb_link_node\<close> and \<open>rb_insert_color\<close>: hanging a red node below a leaf position and
  restoring the red-black invariants on the way up.
\<close>

section \<open>Linking a new node\<close>

text \<open>
  The parameter \<open>struct rb_node **rb_link\<close> is the address of a pointer field: the root's, or
  the left or right field of a node.
\<close>

datatype link = RootLink | LeftLink ptr | RightLink ptr

fun read_link :: "link \<Rightarrow> rb_state \<Rightarrow> ptr option" where
  "read_link RootLink s = Some (root_node s)"
| "read_link (LeftLink p) s = get_left p s"
| "read_link (RightLink p) s = get_right p s"

fun write_link :: "link \<Rightarrow> ptr \<Rightarrow> rb_state \<Rightarrow> rb_state option" where
  "write_link RootLink v s = set_root v s"
| "write_link (LeftLink p) v s = set_left p v s"
| "write_link (RightLink p) v s = set_right p v s"

definition rb_link_node :: "ptr \<Rightarrow> ptr \<Rightarrow> link \<Rightarrow> rb_state \<Rightarrow> rb_state option" where
  "rb_link_node node parent rb_link s = do {
     s \<leftarrow> modify node (\<lambda>n. n\<lparr>rb_parent_color := parent\<rparr>) s;
     s \<leftarrow> modify node (\<lambda>n. n\<lparr>rb_left := NULL, rb_right := NULL\<rparr>) s;
     write_link rb_link node s }"

section \<open>The repair loop\<close>

partial_function (option) rb_insert_loop :: "ptr \<Rightarrow> rb_state \<Rightarrow> rb_state option" where
  "rb_insert_loop node s = do {
     parent \<leftarrow> rb_parent node s;
     red \<leftarrow> nonnull_red parent s;
     if \<not> red then Some s
     else do {
       gparent \<leftarrow> rb_parent parent s;
       gleft \<leftarrow> get_left gparent s;
       if parent = gleft then do {
         uncle \<leftarrow> get_right gparent s;
         ured \<leftarrow> nonnull_red uncle s;
         if ured then do {
           s \<leftarrow> rb_set_black uncle s;
           s \<leftarrow> rb_set_black parent s;
           s \<leftarrow> rb_set_red gparent s;
           rb_insert_loop gparent s }
         else do {
           pright \<leftarrow> get_right parent s;
           (parent, node, s) \<leftarrow>
             (if pright = node
              then do { s \<leftarrow> rb_rotate_left parent s; Some (node, parent, s) }
              else Some (parent, node, s));
           s \<leftarrow> rb_set_black parent s;
           s \<leftarrow> rb_set_red gparent s;
           s \<leftarrow> rb_rotate_right gparent s;
           rb_insert_loop node s } }
       else do {
         uncle \<leftarrow> get_left gparent s;
         ured \<leftarrow> nonnull_red uncle s;
         if ured then do {
           s \<leftarrow> rb_set_black uncle s;
           s \<leftarrow> rb_set_black parent s;
           s \<leftarrow> rb_set_red gparent s;
           rb_insert_loop gparent s }
         else do {
           pleft \<leftarrow> get_left parent s;
           (parent, node, s) \<leftarrow>
             (if pleft = node
              then do { s \<leftarrow> rb_rotate_right parent s; Some (node, parent, s) }
              else Some (parent, node, s));
           s \<leftarrow> rb_set_black parent s;
           s \<leftarrow> rb_set_red gparent s;
           s \<leftarrow> rb_rotate_left gparent s;
           rb_insert_loop node s } } } }"

definition rb_insert_color :: "ptr \<Rightarrow> rb_state \<Rightarrow> rb_state option" where
  "rb_insert_color node s = do {
     s \<leftarrow> rb_insert_loop node s;
     rb_set_black (root_node s) s }"

section \<open>One round of the loop\<close>

text \<open>The loop stops at the root and below a black parent.\<close>

lemma rb_insert_loop_root:
  assumes W: "wf (Node c l a r)"
  shows "rb_insert_loop a (st h (Node c l a r)) = Some (st h (Node c l a r))"
  using W by (subst rb_insert_loop.simps) (simp add: loop_exec)

lemma rb_insert_loop_left_stop:
  assumes W: "wf (plug C (Node Black (Node c l a r) p s))"
  shows "rb_insert_loop a (st h (plug C (Node Black (Node c l a r) p s)))
    = Some (st h (plug C (Node Black (Node c l a r) p s)))"
  using W aligned_par_of [OF W]
  by (subst rb_insert_loop.simps) (clarsimp simp: loop_exec)

lemma rb_insert_loop_right_stop:
  assumes W: "wf (plug C (Node Black s p (Node c l a r)))"
  shows "rb_insert_loop a (st h (plug C (Node Black s p (Node c l a r))))
    = Some (st h (plug C (Node Black s p (Node c l a r))))"
  using W aligned_par_of [OF W]
  by (subst rb_insert_loop.simps) (clarsimp simp: loop_exec)

text \<open>A red uncle: the grandparent turns red and the loop goes on from it.\<close>

lemma rb_insert_loop_red_uncle_right:
  assumes W: "wf (plug (f # LF Black g u # C) (Node Red l a r))"
    and f: "frame_color f = Red" and u: "color_of u = Red"
  shows "rb_insert_loop a (st h (plug (f # LF Black g u # C) (Node Red l a r)))
    = rb_insert_loop g (st h (plug C (Node Red (paint Black (fill f (Node Red l a r))) g (paint Black u))))"
proof -
  obtain ul ua ur where U: "u = Node Red ul ua ur" using u Red_tree by blast
  have A: "aligned (par_of C)"
    using aligned_par_of [of C "Node Black (fill f (Node Red l a r)) g u"] W by simp
  show ?thesis using W A f unfolding U
    by (subst rb_insert_loop.simps) (cases f; clarsimp simp: loop_exec)
qed

lemma rb_insert_loop_red_uncle_left:
  assumes W: "wf (plug (f # RF Black u g # C) (Node Red l a r))"
    and f: "frame_color f = Red" and u: "color_of u = Red"
  shows "rb_insert_loop a (st h (plug (f # RF Black u g # C) (Node Red l a r)))
    = rb_insert_loop g (st h (plug C (Node Red (paint Black u) g (paint Black (fill f (Node Red l a r))))))"
proof -
  obtain ul ua ur where U: "u = Node Red ul ua ur" using u Red_tree by blast
  have A: "aligned (par_of C)"
    using aligned_par_of [of C "Node Black u g (fill f (Node Red l a r))"] W by simp
  show ?thesis using W A f unfolding U
    by (subst rb_insert_loop.simps) (cases f; clarsimp simp: loop_exec)
qed

text \<open>A black uncle: one or two rotations, and the loop stops in the next round.\<close>

lemmas rotate_exec = loop_exec rb_rotate_left_st rb_rotate_right_st
  rb_rotate_left_child_st rb_rotate_right_child_st
  rb_insert_loop_left_stop rb_insert_loop_right_stop

lemma rb_insert_loop_LL:
  assumes W: "wf (plug C (Node Black (Node Red (Node Red l a r) p s) g u))"
    and u: "color_of u = Black"
  shows "rb_insert_loop a (st h (plug C (Node Black (Node Red (Node Red l a r) p s) g u)))
    = Some (st h (plug C (Node Black (Node Red l a r) p (Node Red s g u))))"
  using W u aligned_par_of [OF W]
  by (subst rb_insert_loop.simps) (cases u; clarsimp simp: rotate_exec)

lemma rb_insert_loop_LR:
  assumes W: "wf (plug C (Node Black (Node Red s p (Node Red l a r)) g u))"
    and u: "color_of u = Black"
  shows "rb_insert_loop a (st h (plug C (Node Black (Node Red s p (Node Red l a r)) g u)))
    = Some (st h (plug C (Node Black (Node Red s p l) a (Node Red r g u))))"
  using W u aligned_par_of [OF W]
  by (subst rb_insert_loop.simps) (cases u; clarsimp simp: rotate_exec)

lemma rb_insert_loop_RR:
  assumes W: "wf (plug C (Node Black u g (Node Red s p (Node Red l a r))))"
    and u: "color_of u = Black"
  shows "rb_insert_loop a (st h (plug C (Node Black u g (Node Red s p (Node Red l a r)))))
    = Some (st h (plug C (Node Black (Node Red u g s) p (Node Red l a r))))"
  using W u aligned_par_of [OF W]
  by (subst rb_insert_loop.simps) (cases u; clarsimp simp: rotate_exec)

lemma rb_insert_loop_RL:
  assumes W: "wf (plug C (Node Black u g (Node Red (Node Red l a r) p s)))"
    and u: "color_of u = Black"
  shows "rb_insert_loop a (st h (plug C (Node Black u g (Node Red (Node Red l a r) p s))))
    = Some (st h (plug C (Node Black (Node Red u g l) a (Node Red r p s))))"
  using W u aligned_par_of [OF W]
  by (subst rb_insert_loop.simps) (cases u; clarsimp simp: rotate_exec)

section \<open>The whole repair\<close>

text \<open>A round under a red uncle moves the red node two levels up and keeps the invariants.\<close>

lemma rb_insert_round_red:
  assumes "wf (plug (f # g # C) (Node Red l a r))" "invc (Node Red l a r)" "invh (Node Red l a r)"
    and "ctx_inv (f # g # C) (bheight (Node Red l a r))"
    and "frame_color f = Red" "frame_color g = Black" "color_of (sibling g) = Red"
  shows "\<exists>x b y. rb_insert_loop a (st h (plug (f # g # C) (Node Red l a r)))
      = rb_insert_loop b (st h (plug C (Node Red x b y))) \<and>
    addrs (plug C (Node Red x b y)) = addrs (plug (f # g # C) (Node Red l a r)) \<and>
    invc (Node Red x b y) \<and> invh (Node Red x b y) \<and> ctx_inv C (bheight (Node Red x b y))"
proof (cases g)
  case (LF k gp u)
  with assms show ?thesis
    by (intro exI [of _ "paint Black (fill f (Node Red l a r))"] exI [of _ gp]
        exI [of _ "paint Black u"])
      (cases f; auto simp: rb_insert_loop_red_uncle_right simp del: plug.simps dest!: Red_tree;
        simp)
next
  case (RF k u gp)
  with assms show ?thesis
    by (intro exI [of _ "paint Black u"] exI [of _ gp]
        exI [of _ "paint Black (fill f (Node Red l a r))"])
      (cases f; auto simp: rb_insert_loop_red_uncle_left simp del: plug.simps dest!: Red_tree;
        simp)
qed

text \<open>A round under a black uncle finishes.\<close>

lemma rb_insert_round_black:
  assumes "wf (plug (f # g # C) (Node Red l a r))" "invc (Node Red l a r)" "invh (Node Red l a r)"
    and "ctx_inv (f # g # C) (bheight (Node Red l a r))"
    and "frame_color f = Red" "frame_color g = Black" "color_of (sibling g) = Black"
  shows "\<exists>T. rb_insert_loop a (st h (plug (f # g # C) (Node Red l a r))) = Some (st h T) \<and>
    addrs T = addrs (plug (f # g # C) (Node Red l a r)) \<and> invc T \<and> invh T"
proof -
  have "\<exists>T. rb_insert_loop a (st h (plug (f # g # C) (Node Red l a r))) = Some (st h T) \<and>
    addrs T = addrs (plug (f # g # C) (Node Red l a r)) \<and> rbt T"
    using assms
    by (cases f; cases g)
      (force simp: rb_insert_loop_LL rb_insert_loop_LR rb_insert_loop_RL rb_insert_loop_RR rbt_plug)+
  then show ?thesis by (auto simp: rbt_def)
qed

text \<open>
  The loop returns whenever the tree is a red-black tree but for a red node below a red
  parent, and the result has the same nodes in the same order. Its root may still be red.
\<close>

lemma rb_insert_loop_correct:
  assumes "wf (plug C (Node Red l a r))" "invc (Node Red l a r)" "invh (Node Red l a r)"
    and "ctx_inv C (bheight (Node Red l a r))"
  shows "\<exists>T. rb_insert_loop a (st h (plug C (Node Red l a r))) = Some (st h T) \<and>
    addrs T = addrs (plug C (Node Red l a r)) \<and> invc T \<and> invh T"
  using assms
proof (induction "length C" arbitrary: C l a r rule: less_induct)
  case less
  note W = less.prems(1)
  consider "C = []" | f C' where "C = f # C'" "frame_color f = Black"
    | f g C' where "C = f # g # C'" "frame_color f = Red" "frame_color g = Black"
  proof (cases C)
    case (Cons f C')
    with less.prems(4) that show ?thesis
      by (cases "frame_color f"; cases C') auto
  qed (use that in auto)
  then show ?case
  proof cases
    case 1
    with less.prems show ?thesis
      by (intro exI [of _ "Node Red l a r"]) (simp add: rb_insert_loop_root)
  next
    case (2 f C')
    have "rb_insert_loop a (st h (plug C (Node Red l a r))) = Some (st h (plug C (Node Red l a r)))"
      using W 2 by (cases f) (simp_all add: rb_insert_loop_left_stop rb_insert_loop_right_stop)
    moreover have "rbt (plug C (Node Red l a r))"
      using less.prems 2 by (simp add: rbt_plug del: plug.simps)
    ultimately show ?thesis
      by (intro exI [of _ "plug C (Node Red l a r)"]) (auto simp: rbt_def)
  next
    case (3 f g C')
    show ?thesis
    proof (cases "color_of (sibling g)")
      case Red
      from rb_insert_round_red [OF less.prems [unfolded 3] 3(2,3) Red, of h]
      obtain x b y where eq: "rb_insert_loop a (st h (plug C (Node Red l a r)))
          = rb_insert_loop b (st h (plug C' (Node Red x b y)))"
        and ad: "addrs (plug C' (Node Red x b y)) = addrs (plug C (Node Red l a r))"
        and inv: "invc (Node Red x b y)" "invh (Node Red x b y)" "ctx_inv C' (bheight (Node Red x b y))"
        unfolding 3 by blast
      have "length C' < length C" and "wf (plug C' (Node Red x b y))"
        using 3 wf_same_addrs [OF W ad] by simp_all
      from less.hyps [OF this inv] show ?thesis unfolding eq ad .
    next
      case Black
      from rb_insert_round_black [OF less.prems [unfolded 3] 3(2,3) Black] show ?thesis
        unfolding 3 .
    qed
  qed
qed

lemma rb_insert_color_correct:
  assumes W: "wf (plug C (Node Red Leaf a Leaf))" and R: "rbt (plug C Leaf)"
  shows "\<exists>T. rb_insert_color a (st h (plug C (Node Red Leaf a Leaf))) = Some (st h T) \<and>
    addrs T = addrs_before C @ a # addrs_after C \<and> rbt T"
proof -
  from R have "ctx_inv C (bheight (Node Red Leaf a Leaf))" by (simp add: rbt_plug)
  then obtain T where T: "rb_insert_loop a (st h (plug C (Node Red Leaf a Leaf))) = Some (st h T)"
    "addrs T = addrs_before C @ a # addrs_after C" "invc T" "invh T"
    using rb_insert_loop_correct [OF W, of h] by auto
  then have "T \<noteq> Leaf" "wf T"
    using wf_same_addrs [OF W, of T] by auto
  with T show ?thesis
    by (intro exI [of _ "paint Black T"])
      (simp add: rb_insert_color_def rb_set_black_root rbt_paint_Black)
qed

section \<open>Linking and repairing\<close>

text \<open>The pointer field that holds the tree in the hole of a context.\<close>

fun link_of :: "ctx \<Rightarrow> link" where
  "link_of [] = RootLink"
| "link_of (LF c a r # C) = LeftLink a"
| "link_of (RF c l a # C) = RightLink a"

lemma node_overwrite:
  "n\<lparr>rb_parent_color := p, rb_left := l, rb_right := r\<rparr>
    = \<lparr>rb_parent_color = p, rb_right = r, rb_left = l\<rparr>" for n :: rb_node
  by (cases n) simp

lemma rb_link_node_st:
  assumes W: "wf (plug C (Node Red Leaf a Leaf))" and n: "h a = Some n"
  shows "rb_link_node a (par_of C) (link_of C) (st h (plug C Leaf))
    = Some (st h (plug C (Node Red Leaf a Leaf)))"
proof -
  have W': "wf (plug C Leaf)"
    using W by (auto simp: wf_def wf_addrs_def)
  show ?thesis
  proof (cases C)
    case Nil
    show ?thesis
      unfolding st_plug [OF W] st_plug [OF W'] using W n unfolding Nil
      by (clarsimp simp: rb_link_node_def node_rec_def node_overwrite pack_Red relink_exec simp del: fun_upd_apply)
  next
    case (Cons f C')
    have A: "aligned (par_of C)" using aligned_par_of [OF W] .
    show ?thesis
      unfolding st_plug [OF W] st_plug [OF W']
      using W n ptr_of_plug_Cons [of f C' "Node Red Leaf a Leaf" Leaf]
      unfolding Cons
      by (cases f; clarsimp simp: rb_link_node_def node_rec_def node_overwrite pack_Red relink_exec simp del: fun_upd_apply;
          simp add: fun_upd_twist del: fun_upd_apply)
  qed
qed

definition rb_insert :: "ptr \<Rightarrow> ptr \<Rightarrow> link \<Rightarrow> rb_state \<Rightarrow> rb_state option" where
  "rb_insert node parent rb_link s = do {
     s \<leftarrow> rb_link_node node parent rb_link s;
     rb_insert_color node s }"

lemma rb_insert_st:
  assumes W: "wf (plug C (Node Red Leaf a Leaf))" and R: "rbt (plug C Leaf)" and n: "h a = Some n"
  shows "\<exists>T. rb_insert a (par_of C) (link_of C) (st h (plug C Leaf)) = Some (st h T) \<and>
    addrs T = addrs_before C @ a # addrs_after C \<and> rbt T"
  using rb_insert_color_correct [OF W R, of h] rb_link_node_st [of C a h n, OF W n]
  by (simp add: rb_insert_def)

end
