(* ===== verification/Rb_Erase_Color.thy ===== *)
theory Rb_Erase_Color
  imports Rb_Rotate Rb_Balance
begin

text \<open>
  \<open>__rb_erase_color\<close>, the repair loop of a deletion. The function of the source is cut at its
  branches: each definition below is a consecutive run of its statements, and
  \<open>rb_erase_loop\<close> puts them together in the order of the source.
\<close>

section \<open>The repair loop of a deletion\<close>

text \<open>A red sibling is rotated up, so that the sibling the round looks at is black.\<close>

definition rb_erase_sibling_left :: "ptr \<Rightarrow> rb_state \<Rightarrow> (ptr \<times> rb_state) option" where
  "rb_erase_sibling_left parent s = do {
     other \<leftarrow> get_right parent s;
     red \<leftarrow> rb_is_red other s;
     if red then do {
       s \<leftarrow> rb_set_black other s;
       s \<leftarrow> rb_set_red parent s;
       s \<leftarrow> rb_rotate_left parent s;
       other \<leftarrow> get_right parent s;
       Some (other, s) }
     else Some (other, s) }"

definition rb_erase_sibling_right :: "ptr \<Rightarrow> rb_state \<Rightarrow> (ptr \<times> rb_state) option" where
  "rb_erase_sibling_right parent s = do {
     other \<leftarrow> get_left parent s;
     red \<leftarrow> rb_is_red other s;
     if red then do {
       s \<leftarrow> rb_set_black other s;
       s \<leftarrow> rb_set_red parent s;
       s \<leftarrow> rb_rotate_right parent s;
       other \<leftarrow> get_left parent s;
       Some (other, s) }
     else Some (other, s) }"

definition children_black :: "ptr \<Rightarrow> rb_state \<Rightarrow> bool option" where
  "children_black other s = do {
     ol \<leftarrow> get_left other s;
     lb \<leftarrow> null_or_black ol s;
     if lb then do { or \<leftarrow> get_right other s; null_or_black or s } else Some False }"

text \<open>A black sibling with a red child: at most two rotations end the repair.\<close>

definition rb_erase_finish_left :: "ptr \<Rightarrow> ptr \<Rightarrow> rb_state \<Rightarrow> rb_state option" where
  "rb_erase_finish_left parent other s = do {
     or \<leftarrow> get_right other s;
     orb \<leftarrow> null_or_black or s;
     (other, s) \<leftarrow>
       (if orb then do {
          o_left \<leftarrow> get_left other s;
          s \<leftarrow> (if o_left \<noteq> NULL then rb_set_black o_left s else Some s);
          s \<leftarrow> rb_set_red other s;
          s \<leftarrow> rb_rotate_right other s;
          other \<leftarrow> get_right parent s;
          Some (other, s) }
        else Some (other, s));
     pc \<leftarrow> rb_color parent s;
     s \<leftarrow> rb_set_color other pc s;
     s \<leftarrow> rb_set_black parent s;
     or \<leftarrow> get_right other s;
     s \<leftarrow> (if or \<noteq> NULL then rb_set_black or s else Some s);
     rb_rotate_left parent s }"

definition rb_erase_finish_right :: "ptr \<Rightarrow> ptr \<Rightarrow> rb_state \<Rightarrow> rb_state option" where
  "rb_erase_finish_right parent other s = do {
     ol \<leftarrow> get_left other s;
     olb \<leftarrow> null_or_black ol s;
     (other, s) \<leftarrow>
       (if olb then do {
          o_right \<leftarrow> get_right other s;
          s \<leftarrow> (if o_right \<noteq> NULL then rb_set_black o_right s else Some s);
          s \<leftarrow> rb_set_red other s;
          s \<leftarrow> rb_rotate_left other s;
          other \<leftarrow> get_left parent s;
          Some (other, s) }
        else Some (other, s));
     pc \<leftarrow> rb_color parent s;
     s \<leftarrow> rb_set_color other pc s;
     s \<leftarrow> rb_set_black parent s;
     ol \<leftarrow> get_left other s;
     s \<leftarrow> (if ol \<noteq> NULL then rb_set_black ol s else Some s);
     rb_rotate_right parent s }"

text \<open>The loop returns the node it stopped at, with the state.\<close>

partial_function (option) rb_erase_loop :: "ptr \<Rightarrow> ptr \<Rightarrow> rb_state \<Rightarrow> (ptr \<times> rb_state) option" where
  "rb_erase_loop node parent s = do {
     nb \<leftarrow> null_or_black node s;
     if \<not> (nb \<and> node \<noteq> root_node s) then Some (node, s)
     else do {
       pl \<leftarrow> get_left parent s;
       if pl = node then do {
         (other, s) \<leftarrow> rb_erase_sibling_left parent s;
         both \<leftarrow> children_black other s;
         if both then do {
           s \<leftarrow> rb_set_red other s;
           up \<leftarrow> rb_parent parent s;
           rb_erase_loop parent up s }
         else do {
           s \<leftarrow> rb_erase_finish_left parent other s;
           Some (root_node s, s) } }
       else do {
         (other, s) \<leftarrow> rb_erase_sibling_right parent s;
         both \<leftarrow> children_black other s;
         if both then do {
           s \<leftarrow> rb_set_red other s;
           up \<leftarrow> rb_parent parent s;
           rb_erase_loop parent up s }
         else do {
           s \<leftarrow> rb_erase_finish_right parent other s;
           Some (root_node s, s) } } } }"

definition rb_erase_color :: "ptr \<Rightarrow> ptr \<Rightarrow> rb_state \<Rightarrow> rb_state option" where
  "rb_erase_color node parent s = do {
     (node, s) \<leftarrow> rb_erase_loop node parent s;
     if node \<noteq> NULL then rb_set_black node s else Some s }"

section \<open>One round\<close>

lemmas erase_exec = loop_exec rb_rotate_left_st rb_rotate_right_st
  rb_rotate_left_child_st rb_rotate_right_child_st

lemma sibling_left_black:
  assumes W: "wf (plug C (Node k t p (Node Black x w y)))"
  shows "rb_erase_sibling_left p (st h (plug C (Node k t p (Node Black x w y))))
    = Some (w, st h (plug C (Node k t p (Node Black x w y))))"
  using W by (clarsimp simp: rb_erase_sibling_left_def erase_exec)

lemma sibling_left_red:
  assumes W: "wf (plug C (Node Black t p (Node Red (Node Black x v z) w y)))"
  shows "rb_erase_sibling_left p (st h (plug C (Node Black t p (Node Red (Node Black x v z) w y))))
    = Some (v, st h (plug C (Node Black (Node Red t p (Node Black x v z)) w y)))"
  using W by (clarsimp simp: rb_erase_sibling_left_def erase_exec)

lemma sibling_right_black:
  assumes W: "wf (plug C (Node k (Node Black x w y) p t))"
  shows "rb_erase_sibling_right p (st h (plug C (Node k (Node Black x w y) p t)))
    = Some (w, st h (plug C (Node k (Node Black x w y) p t)))"
  using W by (clarsimp simp: rb_erase_sibling_right_def erase_exec)

lemma sibling_right_red:
  assumes W: "wf (plug C (Node Black (Node Red x w (Node Black y v z)) p t))"
  shows "rb_erase_sibling_right p (st h (plug C (Node Black (Node Red x w (Node Black y v z)) p t)))
    = Some (v, st h (plug C (Node Black x w (Node Red (Node Black y v z) p t))))"
  using W by (clarsimp simp: rb_erase_sibling_right_def erase_exec)

lemma children_black_st:
  assumes W: "wf (plug C (Node k x w y))"
  shows "children_black w (st h (plug C (Node k x w y)))
    = Some (color_of x = Black \<and> color_of y = Black)"
  using W by (cases x; cases y; clarsimp simp: children_black_def erase_exec)

lemma finish_left_far:
  assumes W: "wf (plug C (Node k t p (Node Black x w (Node Red y v z))))"
  shows "rb_erase_finish_left p w (st h (plug C (Node k t p (Node Black x w (Node Red y v z)))))
    = Some (st h (plug C (Node k (Node Black t p x) w (Node Black y v z))))"
  using W aligned_par_of [OF W] by (clarsimp simp: rb_erase_finish_left_def erase_exec)

lemma finish_left_near:
  assumes W: "wf (plug C (Node k t p (Node Black (Node Red x v y) w z)))"
    and z: "color_of z = Black"
  shows "rb_erase_finish_left p w (st h (plug C (Node k t p (Node Black (Node Red x v y) w z))))
    = Some (st h (plug C (Node k (Node Black t p x) v (Node Black y w z))))"
  using W z aligned_par_of [OF W] by (cases z; clarsimp simp: rb_erase_finish_left_def erase_exec)

lemma finish_right_far:
  assumes W: "wf (plug C (Node k (Node Black (Node Red x v y) w z) p t))"
  shows "rb_erase_finish_right p w (st h (plug C (Node k (Node Black (Node Red x v y) w z) p t)))
    = Some (st h (plug C (Node k (Node Black x v y) w (Node Black z p t))))"
  using W aligned_par_of [OF W] by (clarsimp simp: rb_erase_finish_right_def erase_exec)

lemma finish_right_near:
  assumes W: "wf (plug C (Node k (Node Black x w (Node Red y v z)) p t))"
    and x: "color_of x = Black"
  shows "rb_erase_finish_right p w (st h (plug C (Node k (Node Black x w (Node Red y v z)) p t)))
    = Some (st h (plug C (Node k (Node Black x w y) v (Node Black z p t))))"
  using W x aligned_par_of [OF W] by (cases x; clarsimp simp: rb_erase_finish_right_def erase_exec)

lemma loop_red:
  assumes W: "wf (plug C (Node Red l a r))"
  shows "rb_erase_loop a q (st h (plug C (Node Red l a r))) = Some (a, st h (plug C (Node Red l a r)))"
  using W aligned_par_of [OF W] by (subst rb_erase_loop.simps) (clarsimp simp: erase_exec)

lemma loop_root:
  assumes W: "wf t"
  shows "rb_erase_loop (ptr_of t) NULL (st h t) = Some (ptr_of t, st h t)"
  using W by (subst rb_erase_loop.simps) (cases t; clarsimp simp: erase_exec)

text \<open>
  The head of a round on a black subtree that is not the whole tree: its side is recognised
  by comparing pointers, also when the subtree is empty.
\<close>

lemma null_or_black_st:
  assumes W: "wf (plug C t)" and t: "color_of t = Black"
  shows "null_or_black (ptr_of t) (st h (plug C t)) = Some True"
  using W t aligned_par_of [OF W] by (cases t; clarsimp simp: erase_exec)

lemma loop_left:
  assumes W: "wf (plug (LF k p w # C) t)" and t: "color_of t = Black"
    and sib: "rb_erase_sibling_left p (st h (plug (LF k p w # C) t))
      = Some (v, st h (plug (LF k' p (Node Black x v z) # C') t))"
    and W': "wf (plug (LF k' p (Node Black x v z) # C') t)"
  shows "rb_erase_loop (ptr_of t) p (st h (plug (LF k p w # C) t)) =
    (if color_of x = Black \<and> color_of z = Black
     then rb_erase_loop p (par_of C') (st h (plug C' (Node k' t p (Node Red x v z))))
     else do {
       s \<leftarrow> rb_erase_finish_left p v (st h (plug C' (Node k' t p (Node Black x v z))));
       Some (root_node s, s) })"
proof -
  have l: "get_left p (st h (plug (LF k p w # C) t)) = Some (ptr_of t)"
    using W by (clarsimp simp: erase_exec)
  have c: "children_black v (st h (plug (LF k' p (Node Black x v z) # C') t))
      = Some (color_of x = Black \<and> color_of z = Black)"
    using children_black_st [of "RF k' t p # C'" Black x v z h] W' by simp
  have u: "rb_parent p (st h (plug C' (Node k' t p (Node Red x v z)))) = Some (par_of C')"
    using W' aligned_par_of [of C' "Node k' t p (Node Black x v z)"] by (clarsimp simp: erase_exec)
  have r: "rb_set_red v (st h (plug (LF k' p (Node Black x v z) # C') t))
      = Some (st h (plug C' (Node k' t p (Node Red x v z))))"
    using W' by (clarsimp simp: erase_exec)
  show ?thesis
    using root_not_below [OF W]
    by (subst rb_erase_loop.simps)
      (simp add: null_or_black_st [OF W t] l sib c r u del: plug.simps; simp)
qed

lemma loop_right:
  assumes W: "wf (plug (RF k w p # C) t)" and t: "color_of t = Black" and w: "w \<noteq> Leaf"
    and sib: "rb_erase_sibling_right p (st h (plug (RF k w p # C) t))
      = Some (v, st h (plug (RF k' (Node Black x v z) p # C') t))"
    and W': "wf (plug (RF k' (Node Black x v z) p # C') t)"
  shows "rb_erase_loop (ptr_of t) p (st h (plug (RF k w p # C) t)) =
    (if color_of x = Black \<and> color_of z = Black
     then rb_erase_loop p (par_of C') (st h (plug C' (Node k' (Node Red x v z) p t)))
     else do {
       s \<leftarrow> rb_erase_finish_right p v (st h (plug C' (Node k' (Node Black x v z) p t)));
       Some (root_node s, s) })"
proof -
  have l: "get_left p (st h (plug (RF k w p # C) t)) = Some (ptr_of w)"
    using W by (clarsimp simp: erase_exec)
  have ne: "ptr_of w \<noteq> ptr_of t"
    using W w by (cases w; cases t) (auto simp: wf_def wf_addrs_def okp_def)
  have c: "children_black v (st h (plug (RF k' (Node Black x v z) p # C') t))
      = Some (color_of x = Black \<and> color_of z = Black)"
    using children_black_st [of "LF k' p t # C'" Black x v z h] W' by simp
  have u: "rb_parent p (st h (plug C' (Node k' (Node Red x v z) p t))) = Some (par_of C')"
    using W' aligned_par_of [of C' "Node k' (Node Black x v z) p t"] by (clarsimp simp: erase_exec)
  have r: "rb_set_red v (st h (plug (RF k' (Node Black x v z) p # C') t))
      = Some (st h (plug C' (Node k' (Node Red x v z) p t)))"
    using W' by (clarsimp simp: erase_exec)
  show ?thesis
    using root_not_below [OF W] ne
    by (subst rb_erase_loop.simps)
      (simp add: null_or_black_st [OF W t] l sib c r u del: plug.simps; simp)
qed

section \<open>The whole repair\<close>

text \<open>
  The state of the climb: the subtree in the hole is one black node short. A round either
  finishes with a red-black tree or hands over a subtree that is again one short, higher up
  or red, in which case the next round stops.
\<close>

definition short_by_one :: "ctx \<Rightarrow> ptree \<Rightarrow> bool" where
  "short_by_one C t \<longleftrightarrow> invc (paint Black t) \<and> invh t \<and> ctx_inv C (Suc (bheight t))"

definition round_result :: "(ptr \<times> rb_state) option \<Rightarrow> (ptr \<rightharpoonup> rb_node) \<Rightarrow> nat \<Rightarrow> ptr list \<Rightarrow> bool" where
  "round_result r h n as \<longleftrightarrow>
     (\<exists>T. r = Some (ptr_of T, st h T) \<and> addrs T = as \<and> rbt T) \<or>
     (\<exists>C t. r = rb_erase_loop (ptr_of t) (par_of C) (st h (plug C t)) \<and> addrs (plug C t) = as \<and>
        short_by_one C t \<and> (color_of t = Red \<or> length C < n))"

lemma round_finished:
  "r = Some (ptr_of T, st h T) \<Longrightarrow> addrs T = as \<Longrightarrow> rbt T \<Longrightarrow> round_result r h n as"
  unfolding round_result_def by blast

lemma round_continues:
  "r = rb_erase_loop (ptr_of t) (par_of C) (st h (plug C t)) \<Longrightarrow> addrs (plug C t) = as \<Longrightarrow>
   short_by_one C t \<Longrightarrow> color_of t = Red \<or> length C < n \<Longrightarrow> round_result r h n as"
  unfolding round_result_def by blast

lemma round_resultE:
  assumes "round_result r h n as"
    and "\<And>T. r = Some (ptr_of T, st h T) \<Longrightarrow> addrs T = as \<Longrightarrow> rbt T \<Longrightarrow> P"
    and "\<And>C t. r = rb_erase_loop (ptr_of t) (par_of C) (st h (plug C t)) \<Longrightarrow>
      addrs (plug C t) = as \<Longrightarrow> short_by_one C t \<Longrightarrow> color_of t = Red \<or> length C < n \<Longrightarrow> P"
  shows P
  using assms unfolding round_result_def by blast

lemma addrs_plug_not_Nil: "C \<noteq> [] \<Longrightarrow> addrs (plug C t) \<noteq> []"
proof (cases C)
  case (Cons f C')
  then show ?thesis by (cases f) auto
qed simp

lemma erase_round_left_sib:
  assumes W: "wf (plug (LF k p w # C) t)" and t: "color_of t = Black" and inv: "invc t" "invh t"
    and sib: "rb_erase_sibling_left p (st h (plug (LF k p w # C) t))
      = Some (v, st h (plug (LF k' p (Node Black x v z) # C') t))"
    and ad: "addrs (plug (LF k' p (Node Black x v z) # C') t) = addrs (plug (LF k p w # C) t)"
    and ctx: "ctx_inv (LF k' p (Node Black x v z) # C') (Suc (bheight t))"
    and len: "k' = Red \<or> length C' \<le> length C"
  shows "round_result (rb_erase_loop (ptr_of t) p (st h (plug (LF k p w # C) t))) h
    (length (LF k p w # C)) (addrs (plug (LF k p w # C) t))"
proof -
  have W': "wf (plug (LF k' p (Node Black x v z) # C') t)"
    using W ad by (rule wf_same_addrs)
  note step = loop_left [OF W t sib W']
  consider "color_of x = Black" "color_of z = Black" | l b r where "z = Node Red l b r"
    | l b r where "color_of z = Black" "x = Node Red l b r"
    by (metis Red_tree color.exhaust)
  then show ?thesis
  proof cases
    case 1
    show ?thesis
      by (rule round_continues [of _ "Node k' t p (Node Red x v z)" C'])
        (use 1 step ad ctx t inv len in \<open>auto simp: short_by_one_def\<close>)
  next
    case 2
    show ?thesis
      by (rule round_finished [of _ "plug C' (Node k' (Node Black t p x) v (Node Black l b r))"])
        (use 2 step ad ctx t inv W' in \<open>auto simp: finish_left_far rbt_plug\<close>)
  next
    case 3
    show ?thesis
      by (rule round_finished [of _ "plug C' (Node k' (Node Black t p l) b (Node Black r v z))"])
        (use 3 step ad ctx t inv W' in \<open>auto simp: finish_left_near rbt_plug\<close>)
  qed
qed

lemma erase_round_left:
  assumes W: "wf (plug (LF k p w # C) t)" and t: "color_of t = Black"
    and short: "short_by_one (LF k p w # C) t"
  shows "round_result (rb_erase_loop (ptr_of t) p (st h (plug (LF k p w # C) t))) h
    (length (LF k p w # C)) (addrs (plug (LF k p w # C) t))"
proof -
  have inv: "invc t" "invh t" and ctx: "ctx_inv (LF k p w # C) (Suc (bheight t))"
    using short t by (cases t; auto simp: short_by_one_def)+
  show ?thesis
  proof (cases "color_of w")
    case Black
    then obtain x v z where w: "w = Node Black x v z"
      using ctx Black_tree [of w] by auto
    show ?thesis
      by (rule erase_round_left_sib [OF W t inv, where C' = C and k' = k])
        (use W ctx in \<open>auto simp: w sibling_left_black\<close>)
  next
    case Red
    then obtain wl b wr where w: "w = Node Red wl b wr" using Red_tree by blast
    with ctx obtain x v z where wl: "wl = Node Black x v z"
      using Black_tree [of wl] by auto
    show ?thesis
      by (rule erase_round_left_sib [OF W t inv, where C' = "LF Black b wr # C" and k' = Red])
        (use W ctx in \<open>auto simp: w wl sibling_left_red\<close>)
  qed
qed

lemma erase_round_right_sib:
  assumes W: "wf (plug (RF k w p # C) t)" and t: "color_of t = Black" and inv: "invc t" "invh t"
    and w: "w \<noteq> Leaf"
    and sib: "rb_erase_sibling_right p (st h (plug (RF k w p # C) t))
      = Some (v, st h (plug (RF k' (Node Black x v z) p # C') t))"
    and ad: "addrs (plug (RF k' (Node Black x v z) p # C') t) = addrs (plug (RF k w p # C) t)"
    and ctx: "ctx_inv (RF k' (Node Black x v z) p # C') (Suc (bheight t))"
    and len: "k' = Red \<or> length C' \<le> length C"
  shows "round_result (rb_erase_loop (ptr_of t) p (st h (plug (RF k w p # C) t))) h
    (length (RF k w p # C)) (addrs (plug (RF k w p # C) t))"
proof -
  have W': "wf (plug (RF k' (Node Black x v z) p # C') t)"
    using W ad by (rule wf_same_addrs)
  note step = loop_right [OF W t w sib W']
  consider "color_of x = Black" "color_of z = Black" | l b r where "x = Node Red l b r"
    | l b r where "color_of x = Black" "z = Node Red l b r"
    by (metis Red_tree color.exhaust)
  then show ?thesis
  proof cases
    case 1
    show ?thesis
      by (rule round_continues [of _ "Node k' (Node Red x v z) p t" C'])
        (use 1 step ad ctx t inv len in \<open>auto simp: short_by_one_def\<close>)
  next
    case 2
    show ?thesis
      by (rule round_finished [of _ "plug C' (Node k' (Node Black l b r) v (Node Black z p t))"])
        (use 2 step ad ctx t inv W' in \<open>auto simp: finish_right_far rbt_plug\<close>)
  next
    case 3
    show ?thesis
      by (rule round_finished [of _ "plug C' (Node k' (Node Black x v l) b (Node Black r p t))"])
        (use 3 step ad ctx t inv W' in \<open>auto simp: finish_right_near rbt_plug\<close>)
  qed
qed

lemma erase_round_right:
  assumes W: "wf (plug (RF k w p # C) t)" and t: "color_of t = Black"
    and short: "short_by_one (RF k w p # C) t"
  shows "round_result (rb_erase_loop (ptr_of t) p (st h (plug (RF k w p # C) t))) h
    (length (RF k w p # C)) (addrs (plug (RF k w p # C) t))"
proof -
  have inv: "invc t" "invh t" and ctx: "ctx_inv (RF k w p # C) (Suc (bheight t))"
    using short t by (cases t; auto simp: short_by_one_def)+
  then have nl: "w \<noteq> Leaf" by auto
  show ?thesis
  proof (cases "color_of w")
    case Black
    then obtain x v z where w: "w = Node Black x v z"
      using ctx Black_tree [of w] by auto
    show ?thesis
      by (rule erase_round_right_sib [OF W t inv nl, where C' = C and k' = k])
        (use W ctx in \<open>auto simp: w sibling_right_black\<close>)
  next
    case Red
    then obtain wl b wr where w: "w = Node Red wl b wr" using Red_tree by blast
    with ctx obtain x v z where wr: "wr = Node Black x v z"
      using Black_tree [of wr] by auto
    show ?thesis
      by (rule erase_round_right_sib [OF W t inv nl, where C' = "RF Black wl b # C" and k' = Red])
        (use W ctx in \<open>auto simp: w wr sibling_right_red\<close>)
  qed
qed

lemma erase_round:
  assumes "wf (plug C t)" "C \<noteq> []" "color_of t = Black" "short_by_one C t"
  shows "round_result (rb_erase_loop (ptr_of t) (par_of C) (st h (plug C t))) h
    (length C) (addrs (plug C t))"
proof -
  obtain f C' where C: "C = f # C'" using assms(2) by (cases C) auto
  show ?thesis
  proof (cases f)
    case (LF k p w)
    with C assms erase_round_left [of k p w C' t] show ?thesis by (simp del: plug.simps)
  next
    case (RF k w p)
    with C assms erase_round_right [of k w p C' t] show ?thesis by (simp del: plug.simps)
  qed
qed

definition repaired :: "rb_state option \<Rightarrow> (ptr \<rightharpoonup> rb_node) \<Rightarrow> ptr list \<Rightarrow> bool" where
  "repaired r h as \<longleftrightarrow> (\<exists>T. r = Some (st h T) \<and> addrs T = as \<and> rbt T)"

lemma rb_erase_color_red:
  assumes W: "wf (plug C t)" and short: "short_by_one C t" and t: "color_of t = Red"
  shows "repaired (rb_erase_color (ptr_of t) (par_of C) (st h (plug C t))) h (addrs (plug C t))"
proof -
  obtain l a r where eq: "t = Node Red l a r" using t Red_tree by blast
  have "rb_set_black a (st h (plug C t)) = Some (st h (plug C (paint Black t)))"
    using W eq by (simp add: rb_set_black_st paint_at_plug)
  moreover have "rbt (plug C (paint Black t))"
    using short eq by (auto simp: rbt_plug short_by_one_def)
  ultimately show ?thesis
    using W loop_red [of C l a r "par_of C" h] okp_in [OF W, of a] eq
    by (auto simp: repaired_def rb_erase_color_def okp_def intro!: exI [of _ "plug C (paint Black t)"])
qed

lemma rb_erase_color_root:
  assumes W: "wf t" and short: "short_by_one [] t"
  shows "repaired (rb_erase_color (ptr_of t) NULL (st h t)) h (addrs t)"
  using assms okp_in [OF W ptr_of_in]
  by (cases "t = Leaf")
    (auto simp: repaired_def rb_erase_color_def loop_root loop_root [of Leaf, simplified]
      rb_set_black_root short_by_one_def okp_def rbt_def intro!: exI [of _ "paint Black t"])

lemma rb_erase_color_correct:
  assumes "wf (plug C t)" "short_by_one C t"
  shows "repaired (rb_erase_color (ptr_of t) (par_of C) (st h (plug C t))) h (addrs (plug C t))"
  using assms
proof (induction "length C" arbitrary: C t rule: less_induct)
  case less
  note W = less.prems(1) and short = less.prems(2)
  consider "color_of t = Red" | "C = []" | "C \<noteq> []" "color_of t = Black"
    by (cases "color_of t") auto
  then show ?case
  proof cases
    case 1
    with W short show ?thesis by (rule rb_erase_color_red)
  next
    case 2
    with W short show ?thesis by (simp add: rb_erase_color_root)
  next
    case 3
    from erase_round [OF W 3 short, of h] show ?thesis
    proof (rule round_resultE)
      fix T assume r: "rb_erase_loop (ptr_of t) (par_of C) (st h (plug C t)) = Some (ptr_of T, st h T)"
        and T: "addrs T = addrs (plug C t)" "rbt T"
      have "T \<noteq> Leaf"
        using T(1) addrs_plug_not_Nil [OF 3(1), of t] by auto
      moreover have "wf T" using W T(1) by (rule wf_same_addrs)
      ultimately show ?thesis
        using r T okp_in [OF \<open>wf T\<close> ptr_of_in]
        by (auto simp: repaired_def rb_erase_color_def rb_set_black_root okp_def rbt_def
            intro!: exI [of _ "paint Black T"])
    next
      fix C' t' assume r: "rb_erase_loop (ptr_of t) (par_of C) (st h (plug C t))
          = rb_erase_loop (ptr_of t') (par_of C') (st h (plug C' t'))"
        and ad: "addrs (plug C' t') = addrs (plug C t)" and s': "short_by_one C' t'"
        and m: "color_of t' = Red \<or> length C' < length C"
      have W': "wf (plug C' t')" using W ad by (rule wf_same_addrs)
      have "repaired (rb_erase_color (ptr_of t') (par_of C') (st h (plug C' t'))) h (addrs (plug C' t'))"
        using m rb_erase_color_red [OF W' s'] less.hyps [OF _ W' s'] by blast
      then show ?thesis
        unfolding ad by (simp add: rb_erase_color_def r)
    qed
  qed
qed

end
