(* ===== verification/Rb_Walk.thy ===== *)
theory Rb_Walk
  imports Rb_Tree
begin

text \<open>
  Walking a tree: \<open>rb_first\<close>, \<open>rb_last\<close>, \<open>rb_next\<close>, \<open>rb_prev\<close>, and exchanging one node by
  \<open>rb_replace_node\<close>. The walks follow parent pointers only, so they are stated against the
  in-order list of the whole tree.
\<close>

section \<open>Definitions\<close>

text \<open>The loops \<open>while (n->rb_left) n = n->rb_left\<close> and their mirror images.\<close>

partial_function (option) go_left :: "ptr \<Rightarrow> rb_state \<Rightarrow> ptr option" where
  "go_left n s = do { l \<leftarrow> get_left n s; if l \<noteq> NULL then go_left l s else Some n }"

partial_function (option) go_right :: "ptr \<Rightarrow> rb_state \<Rightarrow> ptr option" where
  "go_right n s = do { r \<leftarrow> get_right n s; if r \<noteq> NULL then go_right r s else Some n }"

definition rb_first :: "rb_state \<Rightarrow> ptr option" where
  "rb_first s = (let n = root_node s in if n = NULL then Some NULL else go_left n s)"

definition rb_last :: "rb_state \<Rightarrow> ptr option" where
  "rb_last s = (let n = root_node s in if n = NULL then Some NULL else go_right n s)"

text \<open>The climbs of \<open>rb_next\<close> and \<open>rb_prev\<close>.\<close>

partial_function (option) climb_right :: "ptr \<Rightarrow> rb_state \<Rightarrow> ptr option" where
  "climb_right node s = do {
     parent \<leftarrow> rb_parent node s;
     up \<leftarrow> (if parent = NULL then Some False else do { r \<leftarrow> get_right parent s; Some (node = r) });
     if up then climb_right parent s else Some parent }"

partial_function (option) climb_left :: "ptr \<Rightarrow> rb_state \<Rightarrow> ptr option" where
  "climb_left node s = do {
     parent \<leftarrow> rb_parent node s;
     up \<leftarrow> (if parent = NULL then Some False else do { l \<leftarrow> get_left parent s; Some (node = l) });
     if up then climb_left parent s else Some parent }"

definition rb_next :: "ptr \<Rightarrow> rb_state \<Rightarrow> ptr option" where
  "rb_next node s = do {
     parent \<leftarrow> rb_parent node s;
     if parent = node then Some NULL
     else do {
       right \<leftarrow> get_right node s;
       if right \<noteq> NULL then do { node \<leftarrow> get_right node s; go_left node s }
       else climb_right node s } }"

definition rb_prev :: "ptr \<Rightarrow> rb_state \<Rightarrow> ptr option" where
  "rb_prev node s = do {
     parent \<leftarrow> rb_parent node s;
     if parent = node then Some NULL
     else do {
       left \<leftarrow> get_left node s;
       if left \<noteq> NULL then do { node \<leftarrow> get_left node s; go_right node s }
       else climb_left node s } }"

definition rb_replace_node :: "ptr \<Rightarrow> ptr \<Rightarrow> rb_state \<Rightarrow> rb_state option" where
  "rb_replace_node victim new_node s = do {
     parent \<leftarrow> rb_parent victim s;
     s \<leftarrow> (if parent \<noteq> NULL
          then do {
            pl \<leftarrow> get_left parent s;
            if victim = pl then set_left parent new_node s else set_right parent new_node s }
          else set_root new_node s);
     vl \<leftarrow> get_left victim s;
     s \<leftarrow> (if vl \<noteq> NULL then rb_set_parent vl new_node s else Some s);
     vr \<leftarrow> get_right victim s;
     s \<leftarrow> (if vr \<noteq> NULL then rb_set_parent vr new_node s else Some s);
     v \<leftarrow> deref victim s;
     modify new_node (\<lambda>_. v) s }"

section \<open>Walking downwards\<close>

fun first_or_null :: "ptr list \<Rightarrow> ptr" where
  "first_or_null [] = NULL"
| "first_or_null (a # as) = a"

definition last_or_null :: "ptr list \<Rightarrow> ptr" where
  "last_or_null as = first_or_null (rev as)"

lemma first_or_null_append [simp]: "as \<noteq> [] \<Longrightarrow> first_or_null (as @ bs) = first_or_null as"
  by (cases as) auto

lemma last_or_null_simps [simp]:
  "last_or_null [] = NULL" "last_or_null (as @ [a]) = a"
  by (simp_all add: last_or_null_def)

lemma last_or_null_append [simp]: "bs \<noteq> [] \<Longrightarrow> last_or_null (as @ bs) = last_or_null bs"
  by (simp add: last_or_null_def)

lemma addrs_Nil [simp]: "addrs t = [] \<longleftrightarrow> t = Leaf"
  by (cases t) auto

lemma ptr_of_NULL: "wf (plug C t) \<Longrightarrow> ptr_of t = NULL \<longleftrightarrow> t = Leaf"
  by (cases t) (auto simp: wf_def wf_addrs_def okp_def)

lemma go_left_st:
  assumes "wf (plug C t)" "t \<noteq> Leaf"
  shows "go_left (ptr_of t) (st h (plug C t)) = Some (first_or_null (addrs t))"
  using assms
proof (induction t arbitrary: C)
  case (Node c l a r)
  have g: "get_left a (st h (plug C (Node c l a r))) = Some (ptr_of l)"
    using Node.prems(1) by (clarsimp simp: loop_exec)
  show ?case
  proof (cases "l = Leaf")
    case True
    with g show ?thesis by (subst go_left.simps) simp
  next
    case False
    with Node.prems Node.IH(1) [of "LF c a r # C"] g ptr_of_NULL [of "LF c a r # C" l]
    show ?thesis by (subst go_left.simps) simp
  qed
qed simp

lemma go_right_st:
  assumes "wf (plug C t)" "t \<noteq> Leaf"
  shows "go_right (ptr_of t) (st h (plug C t)) = Some (last_or_null (addrs t))"
  using assms
proof (induction t arbitrary: C)
  case (Node c l a r)
  have g: "get_right a (st h (plug C (Node c l a r))) = Some (ptr_of r)"
    using Node.prems(1) by (clarsimp simp: loop_exec)
  show ?case
  proof (cases "r = Leaf")
    case True
    with g show ?thesis by (subst go_right.simps) simp
  next
    case False
    then have "last_or_null (addrs l @ a # addrs r) = last_or_null (addrs r)"
      using last_or_null_append [of "addrs r" "addrs l @ [a]"] by simp
    with False Node.prems Node.IH(2) [of "RF c l a # C"] g ptr_of_NULL [of "RF c l a # C" r]
    show ?thesis by (subst go_right.simps) simp
  qed
qed simp

lemma rb_first_st: "wf T \<Longrightarrow> rb_first (st h T) = Some (first_or_null (addrs T))"
  using go_left_st [of "[]" T h] ptr_of_NULL [of "[]" T]
  by (cases "T = Leaf") (auto simp: rb_first_def)

lemma rb_last_st: "wf T \<Longrightarrow> rb_last (st h T) = Some (last_or_null (addrs T))"
  using go_right_st [of "[]" T h] ptr_of_NULL [of "[]" T]
  by (cases "T = Leaf") (auto simp: rb_last_def)

section \<open>Walking upwards\<close>

lemma climb_right_st:
  assumes "wf (plug C t)" "t \<noteq> Leaf"
  shows "climb_right (ptr_of t) (st h (plug C t)) = Some (first_or_null (addrs_after C))"
  using assms
proof (induction C arbitrary: t)
  case Nil
  then show ?case
    by (subst climb_right.simps) (cases t; simp add: loop_exec)
next
  case (Cons f C)
  have A: "aligned (par_of C)"
    using aligned_par_of [of C "fill f t"] Cons.prems by simp
  show ?case
  proof (cases f)
    case (LF c a r)
    with Cons.prems A show ?thesis
      by (subst climb_right.simps) (cases t; clarsimp simp: loop_exec)
  next
    case (RF c l a)
    with Cons.IH [of "fill f t"] Cons.prems A show ?thesis
      by (subst climb_right.simps) (cases t; clarsimp simp: loop_exec)
  qed
qed

lemma climb_left_st:
  assumes "wf (plug C t)" "t \<noteq> Leaf"
  shows "climb_left (ptr_of t) (st h (plug C t)) = Some (last_or_null (addrs_before C))"
  using assms
proof (induction C arbitrary: t)
  case Nil
  then show ?case
    by (subst climb_left.simps) (cases t; simp add: loop_exec)
next
  case (Cons f C)
  have A: "aligned (par_of C)"
    using aligned_par_of [of C "fill f t"] Cons.prems by simp
  show ?case
  proof (cases f)
    case (LF c a r)
    with Cons.IH [of "fill f t"] Cons.prems A show ?thesis
      by (subst climb_left.simps) (cases t; clarsimp simp: loop_exec)
  next
    case (RF c l a)
    with Cons.prems A last_or_null_append [of "[a]" "addrs_before C @ addrs l"] show ?thesis
      by (subst climb_left.simps) (cases t; clarsimp simp: loop_exec)
  qed
qed

text \<open>Every node of a tree is the root of a subtree in some context.\<close>

lemma focus: "a \<in> set (addrs T) \<Longrightarrow> \<exists>C c l r. T = plug C (Node c l a r)"
proof (induction T)
  case (Node c l b r)
  then consider "a = b" | "a \<in> set (addrs l)" | "a \<in> set (addrs r)" by auto
  then show ?case
  proof cases
    case 1
    then show ?thesis by (metis plug.simps(1))
  next
    case 2
    with Node.IH(1) obtain C d x y where "l = plug C (Node d x a y)" by blast
    then have "Node c l b r = plug (C @ [LF c b r]) (Node d x a y)" by (simp add: plug_append)
    then show ?thesis by blast
  next
    case 3
    with Node.IH(2) obtain C d x y where "r = plug C (Node d x a y)" by blast
    then have "Node c l b r = plug (C @ [RF c l b]) (Node d x a y)" by (simp add: plug_append)
    then show ?thesis by blast
  qed
qed simp

lemma focus_split:
  assumes W: "wf T" and ad: "addrs T = as @ a # bs"
  obtains C c l r where "T = plug C (Node c l a r)"
    "addrs_before C @ addrs l = as" "addrs r @ addrs_after C = bs"
proof -
  from ad have "a \<in> set (addrs T)" by simp
  then obtain C c l r where T: "T = plug C (Node c l a r)" using focus by blast
  have d: "distinct (addrs T)" using W by (simp add: wf_def wf_addrs_def)
  have "(addrs_before C @ addrs l) @ a # (addrs r @ addrs_after C) = as @ a # bs"
    using ad T by simp
  moreover have "a \<notin> set as" using d unfolding ad by simp
  moreover have "a \<notin> set bs" using d unfolding ad by simp
  ultimately have "addrs_before C @ addrs l = as \<and> addrs r @ addrs_after C = bs"
    by (metis append_Cons_eq_iff [of a as bs])
  with T that show thesis by blast
qed

lemma rb_next_focus:
  assumes W: "wf (plug C (Node c l a r))"
  shows "rb_next a (st h (plug C (Node c l a r))) = Some (first_or_null (addrs r @ addrs_after C))"
proof -
  have p: "rb_parent a (st h (plug C (Node c l a r))) = Some (par_of C)"
    "get_right a (st h (plug C (Node c l a r))) = Some (ptr_of r)"
    using W aligned_par_of [OF W] by (clarsimp simp: loop_exec)+
  have "par_of C \<noteq> a"
    using W by (cases C; cases "hd C") (auto simp: wf_def wf_addrs_def okp_def)
  with p W climb_right_st [OF W] go_left_st [of "RF c l a # C" r h] ptr_of_NULL [of "RF c l a # C" r]
  show ?thesis by (cases "r = Leaf") (auto simp: rb_next_def)
qed

lemma rb_prev_focus:
  assumes W: "wf (plug C (Node c l a r))"
  shows "rb_prev a (st h (plug C (Node c l a r))) = Some (last_or_null (addrs_before C @ addrs l))"
proof -
  have p: "rb_parent a (st h (plug C (Node c l a r))) = Some (par_of C)"
    "get_left a (st h (plug C (Node c l a r))) = Some (ptr_of l)"
    using W aligned_par_of [OF W] by (clarsimp simp: loop_exec)+
  have "par_of C \<noteq> a"
    using W by (cases C; cases "hd C") (auto simp: wf_def wf_addrs_def okp_def)
  with p W climb_left_st [OF W] go_right_st [of "LF c a r # C" l h] ptr_of_NULL [of "LF c a r # C" l]
  show ?thesis by (cases "l = Leaf") (auto simp: rb_prev_def)
qed

lemma rb_next_st:
  assumes "wf T" "addrs T = as @ a # bs"
  shows "rb_next a (st h T) = Some (first_or_null bs)"
  using assms by (metis focus_split rb_next_focus)

lemma rb_prev_st:
  assumes "wf T" "addrs T = as @ a # bs"
  shows "rb_prev a (st h T) = Some (last_or_null as)"
  using assms by (metis focus_split rb_prev_focus)

section \<open>Replacing a node\<close>

text \<open>
  The new node takes the place, the colour and the links of the victim; the victim keeps its
  own fields and is left outside the tree.
\<close>

lemma rb_replace_node_st:
  assumes W: "wf (plug C (Node c l a r))" and W': "wf (plug C (Node c l b r))"
    and ab: "a \<noteq> b" and b: "h b \<noteq> None"
  shows "rb_replace_node a b (st h (plug C (Node c l a r)))
    = Some (st (h(a \<mapsto> node_rec (par_of C) c (ptr_of l) (ptr_of r))) (plug C (Node c l b r)))"
proof -
  obtain n where n: "h b = Some n" using b by blast
  have okb: "b \<noteq> NULL" "aligned b" and fresh: "b \<notin> set (addrs (plug C (Node c l a r)))"
    using W' ab by (auto simp: wf_def wf_addrs_def okp_def)
  show ?thesis
  proof (cases C)
    case Nil
    show ?thesis
      unfolding st_plug [OF W] st_plug [OF W'] using W okb fresh ab n unfolding Nil
      by (cases l; cases r; clarsimp simp: rb_replace_node_def relink_exec simp del: fun_upd_apply;
          simp add: fun_upd_twist del: fun_upd_apply)
  next
    case (Cons f C')
    show ?thesis
      unfolding st_plug [OF W] st_plug [OF W'] using W okb fresh ab n ptr_of_plug_Cons [of f C' "Node c l a r" "Node c l b r"]
      unfolding Cons
      by (cases f; cases l; cases r; clarsimp simp: rb_replace_node_def relink_exec simp del: fun_upd_apply;
          simp add: fun_upd_twist del: fun_upd_apply)
  qed
qed

end
