(* ===== verification/Rb_Erase.thy ===== *)
theory Rb_Erase
  imports Rb_Erase_Color Rb_Walk
begin

text \<open>
  \<open>rb_erase\<close>: taking a node out of the tree. The function is cut at its branches: unlinking a
  node with at most one child, detaching the in-order successor of a node with two children,
  and putting the successor in its place.
\<close>

section \<open>Definitions\<close>

text \<open>Lines \<open>parent = rb_parent(node)\<close> to the label \<open>color\<close>: a node with at most one child.\<close>

definition rb_erase_unlink :: "ptr \<Rightarrow> ptr \<Rightarrow> rb_state \<Rightarrow> (ptr \<times> u64 \<times> rb_state) option" where
  "rb_erase_unlink node child s = do {
     parent \<leftarrow> rb_parent node s;
     color \<leftarrow> rb_color node s;
     s \<leftarrow> (if child \<noteq> NULL then rb_set_parent child parent s else Some s);
     s \<leftarrow> (if parent \<noteq> NULL
          then do {
            pl \<leftarrow> get_left parent s;
            if pl = node then set_left parent child s else set_right parent child s }
          else set_root child s);
     Some (parent, color, s) }"

text \<open>The successor \<open>node\<close> of \<open>old\<close> is cut out of the right subtree.\<close>

definition rb_erase_detach :: "ptr \<Rightarrow> ptr \<Rightarrow> rb_state \<Rightarrow> (ptr \<times> ptr \<times> u64 \<times> rb_state) option" where
  "rb_erase_detach old node s = do {
     child \<leftarrow> get_right node s;
     parent \<leftarrow> rb_parent node s;
     color \<leftarrow> rb_color node s;
     s \<leftarrow> (if child \<noteq> NULL then rb_set_parent child parent s else Some s);
     (parent, s) \<leftarrow>
       (if parent = old then do { s \<leftarrow> set_right parent child s; Some (node, s) }
        else do { s \<leftarrow> set_left parent child s; Some (parent, s) });
     Some (child, parent, color, s) }"

text \<open>The successor takes the colour and the links of \<open>old\<close>.\<close>

definition rb_erase_splice :: "ptr \<Rightarrow> ptr \<Rightarrow> rb_state \<Rightarrow> rb_state option" where
  "rb_erase_splice old node s = do {
     ov \<leftarrow> deref old s;
     s \<leftarrow> modify node (\<lambda>n. n\<lparr>rb_parent_color := rb_parent_color ov\<rparr>) s;
     oright \<leftarrow> get_right old s;
     s \<leftarrow> set_right node oright s;
     oleft \<leftarrow> get_left old s;
     s \<leftarrow> set_left node oleft s;
     opar \<leftarrow> rb_parent old s;
     s \<leftarrow> (if opar \<noteq> NULL
          then do {
            opl \<leftarrow> get_left opar s;
            if opl = old then set_left opar node s else set_right opar node s }
          else set_root node s);
     oleft \<leftarrow> get_left old s;
     s \<leftarrow> rb_set_parent oleft node s;
     oright \<leftarrow> get_right old s;
     if oright \<noteq> NULL then rb_set_parent oright node s else Some s }"

definition rb_erase :: "ptr \<Rightarrow> rb_state \<Rightarrow> rb_state option" where
  "rb_erase node s = do {
     nl \<leftarrow> get_left node s;
     nr \<leftarrow> get_right node s;
     (child, parent, color, s) \<leftarrow>
       (if nl = NULL then do {
          (parent, color, s) \<leftarrow> rb_erase_unlink node nr s;
          Some (nr, parent, color, s) }
        else if nr = NULL then do {
          (parent, color, s) \<leftarrow> rb_erase_unlink node nl s;
          Some (nl, parent, color, s) }
        else do {
          succ \<leftarrow> go_left nr s;
          (child, parent, color, s) \<leftarrow> rb_erase_detach node succ s;
          s \<leftarrow> rb_erase_splice node succ s;
          Some (child, parent, color, s) });
     if color = RB_BLACK then rb_erase_color child parent s else Some s }"

section \<open>Unlinking on a stored tree\<close>

lemma rb_erase_unlink_right:
  assumes W: "wf (plug C (Node c Leaf a x))"
  shows "rb_erase_unlink a (ptr_of x) (st h (plug C (Node c Leaf a x)))
    = Some (par_of C, colbit c, st (h(a \<mapsto> nd (par_of C) (Node c Leaf a x) a)) (plug C x))"
proof -
  have W': "wf (plug C x)"
    using W by (auto simp: wf_def wf_addrs_def)
  show ?thesis
  proof (cases C)
    case Nil
    show ?thesis
      unfolding st_plug [OF W] st_plug [OF W'] using W unfolding Nil
      by (cases x; clarsimp simp: rb_erase_unlink_def rb_color_def relink_exec simp del: fun_upd_apply;
          simp add: fun_upd_twist del: fun_upd_apply)
  next
    case (Cons f C')
    show ?thesis
      unfolding st_plug [OF W] st_plug [OF W']
      using W ptr_of_plug_Cons [of f C' "Node c Leaf a x" x]
      unfolding Cons
      by (cases f; cases x; clarsimp simp: rb_erase_unlink_def rb_color_def relink_exec simp del: fun_upd_apply;
          simp add: fun_upd_twist del: fun_upd_apply)
  qed
qed

lemma rb_erase_unlink_left:
  assumes W: "wf (plug C (Node c x a Leaf))"
  shows "rb_erase_unlink a (ptr_of x) (st h (plug C (Node c x a Leaf)))
    = Some (par_of C, colbit c, st (h(a \<mapsto> nd (par_of C) (Node c x a Leaf) a)) (plug C x))"
proof -
  have W': "wf (plug C x)"
    using W by (auto simp: wf_def wf_addrs_def)
  show ?thesis
  proof (cases C)
    case Nil
    show ?thesis
      unfolding st_plug [OF W] st_plug [OF W'] using W unfolding Nil
      by (cases x; clarsimp simp: rb_erase_unlink_def rb_color_def relink_exec simp del: fun_upd_apply;
          simp add: fun_upd_twist del: fun_upd_apply)
  next
    case (Cons f C')
    show ?thesis
      unfolding st_plug [OF W] st_plug [OF W']
      using W ptr_of_plug_Cons [of f C' "Node c x a Leaf" x]
      unfolding Cons
      by (cases f; cases x; clarsimp simp: rb_erase_unlink_def rb_color_def relink_exec simp del: fun_upd_apply;
          simp add: fun_upd_twist del: fun_upd_apply)
  qed
qed

lemma rb_erase_detach_child:
  assumes W: "wf (plug (RF c l a # C) (Node d Leaf b x))"
  shows "rb_erase_detach a b (st h (plug (RF c l a # C) (Node d Leaf b x)))
    = Some (ptr_of x, b, colbit d,
        st (h(b \<mapsto> node_rec a d NULL (ptr_of x))) (plug (RF c l a # C) x))"
proof -
  have W': "wf (plug (RF c l a # C) x)"
    using W by (auto simp: wf_def wf_addrs_def)
  show ?thesis
    unfolding st_plug [OF W] st_plug [OF W']
    using W ptr_of_plug_Cons [of "RF c l a" C "Node d Leaf b x" x]
    by (cases x; clarsimp simp: rb_erase_detach_def rb_color_def relink_exec simp del: fun_upd_apply;
        simp add: fun_upd_twist del: fun_upd_apply)
qed

lemma rb_erase_detach_deep:
  assumes W: "wf (plug (LF k p v # C) (Node d Leaf b x))" and pa: "p \<noteq> a"
  shows "rb_erase_detach a b (st h (plug (LF k p v # C) (Node d Leaf b x)))
    = Some (ptr_of x, p, colbit d,
        st (h(b \<mapsto> node_rec p d NULL (ptr_of x))) (plug (LF k p v # C) x))"
proof -
  have W': "wf (plug (LF k p v # C) x)"
    using W by (auto simp: wf_def wf_addrs_def)
  show ?thesis
    unfolding st_plug [OF W] st_plug [OF W']
    using W pa ptr_of_plug_Cons [of "LF k p v" C "Node d Leaf b x" x]
    by (cases x; clarsimp simp: rb_erase_detach_def rb_color_def relink_exec simp del: fun_upd_apply;
        simp add: fun_upd_twist del: fun_upd_apply)
qed

lemma rb_node_all_fields [simp]:
  "n\<lparr>rb_parent_color := pack p c, rb_right := r, rb_left := l\<rparr> = node_rec p c l r"
  by (simp add: node_rec_def)

lemma rb_erase_splice_st:
  assumes W: "wf (plug C (Node c l a r))" and W': "wf (plug C (Node c l b r))"
    and ab: "a \<noteq> b" and b: "h b \<noteq> None" and l: "l \<noteq> Leaf"
  shows "rb_erase_splice a b (st h (plug C (Node c l a r)))
    = Some (st (h(a \<mapsto> node_rec (par_of C) c (ptr_of l) (ptr_of r))) (plug C (Node c l b r)))"
proof -
  obtain n where n: "h b = Some n" using b by blast
  have okb: "b \<noteq> NULL" "aligned b" and fresh: "b \<notin> set (addrs (plug C (Node c l a r)))"
    using W' ab by (auto simp: wf_def wf_addrs_def okp_def)
  show ?thesis
  proof (cases C)
    case Nil
    show ?thesis
      unfolding st_plug [OF W] st_plug [OF W'] using W okb fresh ab n l unfolding Nil
      by (cases l; cases r; clarsimp simp: rb_erase_splice_def relink_exec simp del: fun_upd_apply;
          simp add: fun_upd_twist del: fun_upd_apply)
  next
    case (Cons f C')
    show ?thesis
      unfolding st_plug [OF W] st_plug [OF W']
      using W okb fresh ab n l ptr_of_plug_Cons [of f C' "Node c l a r" "Node c l b r"]
      unfolding Cons
      by (cases f; cases l; cases r; clarsimp simp: rb_erase_splice_def relink_exec simp del: fun_upd_apply;
          simp add: fun_upd_twist del: fun_upd_apply)
  qed
qed

section \<open>Correctness\<close>

lemma colbit_Black [simp]: "colbit c = RB_BLACK \<longleftrightarrow> c = Black"
  by (cases c) (simp_all add: colbit_def RB_RED_def RB_BLACK_def)

text \<open>After a node of colour \<open>d\<close> with the only child \<open>x\<close> is gone, the repair is run if needed.\<close>

lemma erase_repair:
  assumes W: "wf (plug E x)" and inv: "invc x" "invh x"
    and ctx: "ctx_inv E (if d = Black then Suc (bheight x) else bheight x)"
    and red: "d = Red \<Longrightarrow> color_of x = Black"
  shows "repaired (if colbit d = RB_BLACK then rb_erase_color (ptr_of x) (par_of E) (st h (plug E x))
      else Some (st h (plug E x))) h (addrs (plug E x))"
proof (cases d)
  case Black
  with inv ctx have "short_by_one E x" by (simp add: short_by_one_def)
  with W Black show ?thesis
    using rb_erase_color_correct [of E x h] by (simp del: addrs_plug)
next
  case Red
  with inv ctx red show ?thesis
    by (auto simp: repaired_def rbt_plug intro!: exI [of _ "plug E x"])
qed

text \<open>The leftmost node of a tree, as a focus whose path only goes left.\<close>

definition left_path :: "ctx \<Rightarrow> bool" where
  "left_path D \<longleftrightarrow> (\<forall>f \<in> set D. \<exists>k p v. f = LF k p v)"

lemma left_path_simps [simp]:
  "left_path []" "left_path (f # D) \<longleftrightarrow> (\<exists>k p v. f = LF k p v) \<and> left_path D"
  by (simp_all add: left_path_def)

lemma left_path_before [simp]: "left_path D \<Longrightarrow> addrs_before (D @ C) = addrs_before C"
proof (induction D)
  case (Cons f D)
  then show ?case by (cases f) auto
qed simp

lemma addrs_after_append [simp]: "addrs_after (D @ C) = addrs_after D @ addrs_after C"
proof (induction D)
  case (Cons f D)
  then show ?case by (cases f) auto
qed simp

lemma leftmost_focus:
  "t \<noteq> Leaf \<Longrightarrow> \<exists>D d b x. t = plug D (Node d Leaf b x) \<and> left_path D"
proof (induction t)
  case (Node c l a r)
  show ?case
  proof (cases "l = Leaf")
    case True
    then show ?thesis by (intro exI [of _ "[]"]) auto
  next
    case False
    with Node.IH(1) obtain D d b x where
      "l = plug D (Node d Leaf b x)" "left_path D" by blast
    then show ?thesis
      by (intro exI [of _ "D @ [LF c a r]"] exI [of _ d] exI [of _ b] exI [of _ x])
        (auto simp: plug_append left_path_def)
  qed
qed simp

lemma ctx_inv_rename: "ctx_inv (D @ RF c l a # C) n = ctx_inv (D @ RF c l b # C) n"
proof (induction D arbitrary: n)
  case (Cons f D)
  have "col_ctx (D @ RF c l a # C) = col_ctx (D @ RF c l b # C)" by (cases D) auto
  with Cons show ?case by simp
qed simp

lemma st_shadow: "b \<in> set (addrs T) \<Longrightarrow> st (h(b := v)) T = st h T"
  using nodes_of_in [of b T NULL]
  by (auto simp: st_def map_add_def fun_eq_iff split: option.splits)

definition erased :: "rb_state option \<Rightarrow> (ptr \<rightharpoonup> rb_node) \<Rightarrow> ptr \<Rightarrow> ptr list \<Rightarrow> bool" where
  "erased r h a as \<longleftrightarrow> (\<exists>n. repaired r (h(a \<mapsto> n)) as)"

lemma rb_erase_one_child:
  assumes W: "wf (plug C (Node c l a r))" and R: "rbt (plug C (Node c l a r))"
    and lr: "l = Leaf \<or> r = Leaf"
  shows "erased (rb_erase a (st h (plug C (Node c l a r)))) h a
    (addrs_before C @ addrs l @ addrs r @ addrs_after C)"
proof -
  have g: "get_left a (st h (plug C (Node c l a r))) = Some (ptr_of l)"
    "get_right a (st h (plug C (Node c l a r))) = Some (ptr_of r)"
    using W by (clarsimp simp: loop_exec)+
  show ?thesis
  proof (cases "l = Leaf")
    case True
    let ?h = "h(a \<mapsto> nd (par_of C) (Node c Leaf a r) a)"
    have "repaired (if colbit c = RB_BLACK then rb_erase_color (ptr_of r) (par_of C) (st ?h (plug C r))
        else Some (st ?h (plug C r))) ?h (addrs (plug C r))"
      by (rule erase_repair) (use W R True in \<open>auto simp: rbt_plug wf_def wf_addrs_def\<close>)
    with W g True show ?thesis
      by (auto simp: erased_def rb_erase_def rb_erase_unlink_right simp del: colbit_Black)
  next
    case False
    with lr have r: "r = Leaf" by simp
    let ?h = "h(a \<mapsto> nd (par_of C) (Node c l a Leaf) a)"
    have "repaired (if colbit c = RB_BLACK then rb_erase_color (ptr_of l) (par_of C) (st ?h (plug C l))
        else Some (st ?h (plug C l))) ?h (addrs (plug C l))"
      by (rule erase_repair) (use W R r in \<open>auto simp: rbt_plug wf_def wf_addrs_def\<close>)
    moreover have "ptr_of l \<noteq> NULL"
      using False W ptr_of_NULL [of "LF c a r # C" l] by simp
    ultimately show ?thesis
      using W g r
      by (auto simp: erased_def rb_erase_def rb_erase_unlink_left simp del: colbit_Black)
  qed
qed

lemma rb_erase_two_children:
  assumes W: "wf (plug C (Node c l a r))" and R: "rbt (plug C (Node c l a r))"
    and l: "l \<noteq> Leaf" and r: "r \<noteq> Leaf"
  shows "erased (rb_erase a (st h (plug C (Node c l a r)))) h a
    (addrs_before C @ addrs l @ addrs r @ addrs_after C)"
proof -
  obtain D d b x where rD: "r = plug D (Node d Leaf b x)" and D: "left_path D"
    using leftmost_focus [OF r] by blast
  have ar: "addrs r = b # addrs x @ addrs_after D"
    using left_path_before [OF D, of "[]"] rD by simp
  let ?E = "D @ RF c l a # C" and ?E' = "D @ RF c l b # C"
  let ?s = "st h (plug C (Node c l a r))"
  have T: "plug C (Node c l a r) = plug ?E (Node d Leaf b x)"
    by (simp add: plug_append rD)
  have Ex: "plug ?E x = plug C (Node c l a (plug D x))" "plug ?E' x = plug C (Node c l b (plug D x))"
    by (simp_all add: plug_append)
  have WE: "wf (plug ?E x)" and WE': "wf (plug ?E' x)" and ab: "a \<noteq> b"
    using W rD left_path_before [OF D, of "[]"] by (auto simp: D plug_append wf_def wf_addrs_def)
  have g: "get_left a ?s = Some (ptr_of l)" "get_right a ?s = Some (ptr_of r)"
    using W by (clarsimp simp: loop_exec)+
  have n: "ptr_of l \<noteq> NULL" "ptr_of r \<noteq> NULL"
    using W l r ptr_of_NULL [of "LF c a r # C" l] ptr_of_NULL [of "RF c l a # C" r] by simp_all
  have succ: "go_left (ptr_of r) ?s = Some b"
    using go_left_st [of "RF c l a # C" r h] W r ar by simp
  obtain m where det: "rb_erase_detach a b ?s
      = Some (ptr_of x, par_of ?E', colbit d, st (h(b \<mapsto> m)) (plug ?E x))"
  proof (cases D)
    case Nil
    show ?thesis
      by (rule that) (use rb_erase_detach_child [of c l a C d b x h] W T Nil in simp)
  next
    case (Cons f D')
    with D obtain k p v where f: "f = LF k p v" by auto
    have "p \<noteq> a"
      using W rD Cons f by (auto simp: wf_def wf_addrs_def)
    with Cons f show ?thesis
      using rb_erase_detach_deep [of k p v "D' @ RF c l a # C" d b x a h] W T that
      by simp
  qed
  let ?h = "h(a \<mapsto> node_rec (par_of C) c (ptr_of l) (ptr_of (plug D x)))"
  have spl: "rb_erase_splice a b (st (h(b \<mapsto> m)) (plug ?E x)) = Some (st ?h (plug ?E' x))"
    using rb_erase_splice_st [of C c l a "plug D x" b "h(b \<mapsto> m)"] WE WE' ab l
      st_shadow [of b "plug ?E' x" ?h] by (simp add: Ex fun_upd_twist [of b a])
  have ad: "addrs (plug ?E' x) = addrs_before C @ addrs l @ addrs r @ addrs_after C"
    by (simp add: D ar)
  have "repaired (if colbit d = RB_BLACK then rb_erase_color (ptr_of x) (par_of ?E') (st ?h (plug ?E' x))
      else Some (st ?h (plug ?E' x))) ?h (addrs (plug ?E' x))"
    by (rule erase_repair)
      (use WE' R in \<open>auto simp: T rbt_plug ctx_inv_rename [of D c l a C _ b]\<close>)
  also have "(if colbit d = RB_BLACK then rb_erase_color (ptr_of x) (par_of ?E') (st ?h (plug ?E' x))
      else Some (st ?h (plug ?E' x))) = rb_erase a ?s"
    using g n succ det spl by (simp add: rb_erase_def del: colbit_Black)
  finally show ?thesis
    unfolding ad erased_def by blast
qed

lemma rb_erase_correct:
  assumes W: "wf T" and R: "rbt T" and ad: "addrs T = as @ a # bs"
  shows "erased (rb_erase a (st h T)) h a (as @ bs)"
proof -
  obtain C c l r where T: "T = plug C (Node c l a r)"
    "addrs_before C @ addrs l = as" "addrs r @ addrs_after C = bs"
    using focus_split [OF W ad] by blast
  have eq: "as @ bs = addrs_before C @ addrs l @ addrs r @ addrs_after C"
    using T by (metis append.assoc)
  show ?thesis
    unfolding eq T(1)
    using W R T(1) rb_erase_one_child rb_erase_two_children by blast
qed

end
