(* ===== verification/Rb_Iterate.thy ===== *)
theory Rb_Iterate
  imports Rb_Walk
begin

text \<open>
  The loop \<open>for (p = first; p; p = next(p)) body\<close> that every client of the trees writes, and
  the interface it relies on: a first element and a successor that walk one list. The trees
  of \<open>rbtree.c\<close> provide it twice, forwards and backwards.
\<close>

section \<open>The loop\<close>

text \<open>
  The accumulator \<open>x\<close> holds what the body changes; a body that fails stops the loop.
\<close>

partial_function (option) for_each ::
  "(ptr \<Rightarrow> ptr option) \<Rightarrow> (ptr \<Rightarrow> 'a \<Rightarrow> 'a option) \<Rightarrow> ptr \<Rightarrow> 'a \<Rightarrow> 'a option" where
  "for_each next_of body p x =
     (if p = NULL then Some x
      else do {
        x \<leftarrow> body p x;
        q \<leftarrow> next_of p;
        for_each next_of body q x })"

text \<open>The same as a recursion over the list of elements.\<close>

fun fold_opt :: "('b \<Rightarrow> 'a \<Rightarrow> 'a option) \<Rightarrow> 'b list \<Rightarrow> 'a \<Rightarrow> 'a option" where
  "fold_opt body [] x = Some x"
| "fold_opt body (b # bs) x = do { x \<leftarrow> body b x; fold_opt body bs x }"

lemma for_each_NULL [simp]: "for_each next_of body NULL x = Some x"
  by (subst for_each.simps) simp

lemma for_each_step:
  "p \<noteq> NULL \<Longrightarrow> for_each next_of body p x
    = do { x \<leftarrow> body p x; q \<leftarrow> next_of p; for_each next_of body q x }"
  by (subst for_each.simps) simp

lemma fold_opt_cong [fundef_cong]:
  "bs = bs' \<Longrightarrow> x = x' \<Longrightarrow> (\<And>b y. b \<in> set bs' \<Longrightarrow> f b y = g b y) \<Longrightarrow>
   fold_opt f bs x = fold_opt g bs' x'"
proof (induction bs arbitrary: x bs' x')
  case (Cons b bs)
  have "fold_opt f bs y = fold_opt g bs y" for y
    using Cons.IH [of bs y y] Cons.prems by auto
  with Cons.prems show ?case by (auto intro!: Option.bind_cong)
qed auto

lemma fold_opt_total:
  "(\<And>b y. b \<in> set bs \<Longrightarrow> f b y = Some (g b y)) \<Longrightarrow> fold_opt f bs x = Some (fold g bs x)"
  by (induction bs arbitrary: x) auto

lemma fold_opt_map: "fold_opt f (map g bs) x = fold_opt (\<lambda>b. f (g b)) bs x"
  by (induction bs arbitrary: x) (auto intro: Option.bind_cong)

lemma fold_opt_append: "fold_opt f (as @ bs) x = do { y \<leftarrow> fold_opt f as x; fold_opt f bs y }"
  by (induction as arbitrary: x) (auto intro: Option.bind_cong)

section \<open>The interface\<close>

locale walk =
  fixes good :: "'s \<Rightarrow> bool"
    and items :: "'s \<Rightarrow> ptr list"
    and first_of :: "'s \<Rightarrow> ptr option"
    and next_of :: "ptr \<Rightarrow> 's \<Rightarrow> ptr option"
  assumes first_item: "good s \<Longrightarrow> first_of s = Some (first_or_null (items s))"
    and next_item: "good s \<Longrightarrow> items s = as @ a # bs \<Longrightarrow> next_of a s = Some (first_or_null bs)"
    and item_nonnull: "good s \<Longrightarrow> NULL \<notin> set (items s)"
begin

lemma for_each_from:
  assumes "good s"
  shows "items s = as @ bs \<Longrightarrow>
    for_each (\<lambda>p. next_of p s) body (first_or_null bs) x = fold_opt body bs x"
proof (induction bs arbitrary: as x)
  case (Cons b bs)
  have b: "b \<noteq> NULL" and n: "next_of b s = Some (first_or_null bs)"
    using item_nonnull [OF assms] next_item [OF assms Cons.prems] Cons.prems by auto
  have "for_each (\<lambda>p. next_of p s) body (first_or_null bs) y = fold_opt body bs y" for y
    using Cons.IH [of "as @ [b]"] Cons.prems by simp
  with b n show ?case by (simp add: for_each_step)
qed simp

lemma for_each_items:
  "good s \<Longrightarrow> do { p \<leftarrow> first_of s; for_each (\<lambda>p. next_of p s) body p x } = fold_opt body (items s) x"
  using for_each_from [of s "[]" "items s"] by (simp add: first_item)

end

section \<open>The trees provide it\<close>

lemma NULL_notin_addrs: "wf T \<Longrightarrow> NULL \<notin> set (addrs T)"
  by (auto simp: wf_def wf_addrs_def okp_def)

interpretation fwd: walk "\<lambda>(h, T). wf T" "\<lambda>(h, T). addrs T"
  "\<lambda>(h, T). rb_first (st h T)" "\<lambda>a (h, T). rb_next a (st h T)"
  by unfold_locales (auto simp: rb_first_st rb_next_st NULL_notin_addrs)

lemma rev_split: "rev xs = as @ a # bs \<Longrightarrow> xs = rev bs @ a # rev as"
  by (simp add: rev_swap)

interpretation bwd: walk "\<lambda>(h, T). wf T" "\<lambda>(h, T). rev (addrs T)"
  "\<lambda>(h, T). rb_last (st h T)" "\<lambda>a (h, T). rb_prev a (st h T)"
  by unfold_locales
    (auto simp: rb_last_st NULL_notin_addrs last_or_null_def rb_prev_st dest: rev_split)

lemma rb_for_each:
  "wf T \<Longrightarrow> do { p \<leftarrow> rb_first (st h T); for_each (\<lambda>p. rb_next p (st h T)) body p x }
    = fold_opt body (addrs T) x"
  using fwd.for_each_items [of "(h, T)" body x] by simp

text \<open>The loop with the rest of the function behind it.\<close>

lemma rb_for_each_then:
  "wf T \<Longrightarrow> do { p \<leftarrow> rb_first (st h T); x \<leftarrow> for_each (\<lambda>p. rb_next p (st h T)) body p x; rest x }
    = do { x \<leftarrow> fold_opt body (addrs T) x; rest x }"
  using arg_cong [OF rb_for_each [of T h body x], of "\<lambda>r. Option.bind r rest"]
  by (simp only: Option.bind_assoc)

lemma rb_for_each_backwards:
  "wf T \<Longrightarrow> do { p \<leftarrow> rb_last (st h T); for_each (\<lambda>p. rb_prev p (st h T)) body p x }
    = fold_opt body (rev (addrs T)) x"
  using bwd.for_each_items [of "(h, T)" body x] by simp

end
