(* ===== verification/Rb_Spec.thy ===== *)
theory Rb_Spec
  imports Rb_Insert Rb_Erase Rb_Iterate
begin

text \<open>
  What \<open>rbtree.c\<close> promises its clients, on every heap that stores a balanced tree: insertion,
  removal, rotation, replacement and traversal. Each statement is an equation between heaps,
  so it includes that nothing outside the tree changes.
\<close>

lemmas wf_eval = wf_def wf_addrs_def okp_def aligned_def

text \<open>
  C1: Linking a fresh node at any leaf position of a red-black tree and running the repair
  ends, touches allocated nodes only, and leaves a red-black tree whose in-order list is the
  old one with the node put at that position; everything else on the heap is unchanged.
\<close>

theorem insert_correct:
  assumes "wf (plug C (Node Red Leaf a Leaf))" and "rbt (plug C Leaf)" and "h a = Some n"
  shows "\<exists>T. rb_insert a (par_of C) (link_of C) (st h (plug C Leaf)) = Some (st h T) \<and>
    addrs T = addrs_before C @ a # addrs_after C \<and> rbt T \<and> wf T"
proof -
  obtain T where T: "rb_insert a (par_of C) (link_of C) (st h (plug C Leaf)) = Some (st h T)"
    "addrs T = addrs_before C @ a # addrs_after C" "rbt T"
    using rb_insert_st assms by blast
  then have "wf T" using assms(1) by (simp add: wf_def)
  with T show ?thesis by blast
qed

theorem insert_correct_witness:
  "\<exists>T. rb_insert 8 16 (LeftLink 16)
      (st [8 \<mapsto> \<lparr>rb_parent_color = 7, rb_right = 1, rb_left = 2\<rparr>]
        (Node Black (Node Red Leaf 16 Leaf) 32 (Node Red Leaf 48 Leaf)))
    = Some (st [8 \<mapsto> \<lparr>rb_parent_color = 7, rb_right = 1, rb_left = 2\<rparr>] T) \<and>
    addrs T = [8, 16, 32, 48] \<and> rbt T \<and> wf T"
  using insert_correct [of "[LF Red 16 Leaf, LF Black 32 (Node Red Leaf 48 Leaf)]" 8
      "[8 \<mapsto> \<lparr>rb_parent_color = 7, rb_right = 1, rb_left = 2\<rparr>]"]
  by (simp add: wf_eval rbt_def)

text \<open>
  C2: Erasing any node of a red-black tree ends, touches allocated nodes only, and leaves a
  red-black tree whose in-order list is the old one without the node; the erased node is the
  only allocation outside the tree that may have been written.
\<close>

theorem erase_correct:
  assumes "wf T" and "rbt T" and "addrs T = as @ a # bs"
  shows "\<exists>n T'. rb_erase a (st h T) = Some (st (h(a \<mapsto> n)) T') \<and>
    addrs T' = as @ bs \<and> rbt T' \<and> wf T'"
proof -
  obtain n T' where T': "rb_erase a (st h T) = Some (st (h(a \<mapsto> n)) T')" "addrs T' = as @ bs" "rbt T'"
    using rb_erase_correct [OF assms, of h] by (auto simp: erased_def repaired_def)
  then have "wf T'" using assms(1,3) by (simp add: wf_def wf_addrs_def)
  with T' show ?thesis by blast
qed

theorem erase_correct_witness:
  "\<exists>n T'. rb_erase 16 (st Map.empty (Node Black (Node Black Leaf 16 Leaf) 32 (Node Black Leaf 48 Leaf)))
    = Some (st [16 \<mapsto> n] T') \<and> addrs T' = [32, 48] \<and> rbt T' \<and> wf T'"
  using erase_correct [of "Node Black (Node Black Leaf 16 Leaf) 32 (Node Black Leaf 48 Leaf)" "[]" 16
      "[32, 48]" Map.empty]
  by (simp add: wf_eval rbt_def)

text \<open>
  C10: A left rotation at any depth turns \<open>a\<close> over its right child \<open>b\<close>, keeps the in-order list,
  and a right rotation at \<open>b\<close> undoes it exactly, colours and links included.
\<close>

theorem rotations_inverse:
  assumes "wf (plug C (Node c x a (Node d y b z)))"
  shows "rb_rotate_left a (st h (plug C (Node c x a (Node d y b z))))
      = Some (st h (plug C (Node d (Node c x a y) b z)))
    \<and> addrs (plug C (Node d (Node c x a y) b z)) = addrs (plug C (Node c x a (Node d y b z)))
    \<and> rb_rotate_right b (st h (plug C (Node d (Node c x a y) b z)))
      = Some (st h (plug C (Node c x a (Node d y b z))))"
proof -
  have "wf (plug C (Node d (Node c x a y) b z))" using assms by (simp add: wf_def)
  with rb_rotate_left_st [OF assms] rb_rotate_right_st show ?thesis by simp
qed

theorem rotations_inverse_witness:
  "rb_rotate_left 16 (st Map.empty (Node Black Leaf 16 (Node Red (Node Black Leaf 24 Leaf) 32 Leaf)))
      = Some (st Map.empty (Node Red (Node Black Leaf 16 (Node Black Leaf 24 Leaf)) 32 Leaf))
    \<and> [16, 24, 32] = addrs (Node Black Leaf 16 (Node Red (Node Black Leaf 24 Leaf) 32 Leaf))
    \<and> rb_rotate_right 32 (st Map.empty (Node Red (Node Black Leaf 16 (Node Black Leaf 24 Leaf)) 32 Leaf))
      = Some (st Map.empty (Node Black Leaf 16 (Node Red (Node Black Leaf 24 Leaf) 32 Leaf)))"
  using rotations_inverse [of "[]" Black Leaf 16 Red "Node Black Leaf 24 Leaf" 32 Leaf Map.empty]
  by (simp add: wf_eval)

text \<open>
  C11: In every stored tree \<open>rb_next\<close> and \<open>rb_prev\<close> of a node are its in-order neighbours, and
  the null pointer at the two ends.
\<close>

theorem neighbours_correct:
  assumes "wf T" and "addrs T = as @ a # bs"
  shows "rb_next a (st h T) = Some (first_or_null bs) \<and> rb_prev a (st h T) = Some (last_or_null as)"
  using rb_next_st [OF assms] rb_prev_st [OF assms] by simp

theorem neighbours_correct_witness:
  "rb_next 32 (st Map.empty (Node Black (Node Black Leaf 16 (Node Red Leaf 32 Leaf)) 48 Leaf)) = Some 48
    \<and> rb_prev 32 (st Map.empty (Node Black (Node Black Leaf 16 (Node Red Leaf 32 Leaf)) 48 Leaf)) = Some 16"
  using neighbours_correct [of "Node Black (Node Black Leaf 16 (Node Red Leaf 32 Leaf)) 48 Leaf"
      "[16]" 32 "[48]" Map.empty]
  by (simp add: wf_eval last_or_null_def)

text \<open>
  C12: The loop from \<open>rb_first\<close> by \<open>rb_next\<close> ends and visits every node of the tree exactly once,
  in order; the loop from \<open>rb_last\<close> by \<open>rb_prev\<close> visits them in the reverse order.
\<close>

theorem traversal_correct:
  assumes "wf T"
  shows "do { p \<leftarrow> rb_first (st h T);
      for_each (\<lambda>p. rb_next p (st h T)) (\<lambda>p seen. Some (seen @ [p])) p [] } = Some (addrs T)
    \<and> do { p \<leftarrow> rb_last (st h T);
      for_each (\<lambda>p. rb_prev p (st h T)) (\<lambda>p seen. Some (seen @ [p])) p [] } = Some (rev (addrs T))
    \<and> distinct (addrs T)"
proof -
  have "fold_opt (\<lambda>p seen. Some (seen @ [p])) as acc = Some (acc @ as)" for as acc :: "ptr list"
    by (induction as arbitrary: acc) auto
  with assms show ?thesis
    by (simp add: rb_for_each rb_for_each_backwards wf_def wf_addrs_def)
qed

theorem traversal_correct_witness:
  "do { p \<leftarrow> rb_first (st Map.empty (Node Black (Node Red Leaf 16 Leaf) 32 (Node Red Leaf 8 Leaf)));
      for_each (\<lambda>p. rb_next p (st Map.empty (Node Black (Node Red Leaf 16 Leaf) 32 (Node Red Leaf 8 Leaf))))
        (\<lambda>p seen. Some (seen @ [p])) p [] } = Some [16, 32, 8]"
  using traversal_correct [of "Node Black (Node Red Leaf 16 Leaf) 32 (Node Red Leaf 8 Leaf)" Map.empty]
  by (simp add: wf_eval)

text \<open>
  C13: \<open>rb_replace_node\<close> puts an allocated node in the place of a node of the tree: same
  neighbours, same colour, same balance; the victim keeps its own fields and leaves the tree.
\<close>

theorem replace_correct:
  assumes "wf (plug C (Node c l a r))" and "wf (plug C (Node c l b r))"
    and "a \<noteq> b" and "h b = Some n"
  shows "rb_replace_node a b (st h (plug C (Node c l a r)))
    = Some (st (h(a \<mapsto> node_rec (par_of C) c (ptr_of l) (ptr_of r))) (plug C (Node c l b r)))"
  by (rule rb_replace_node_st) (use assms in auto)

theorem replace_correct_witness:
  "rb_replace_node 16 24 (st [24 \<mapsto> \<lparr>rb_parent_color = 0, rb_right = 0, rb_left = 0\<rparr>]
      (Node Black (Node Red Leaf 16 Leaf) 32 Leaf))
    = Some (st [24 \<mapsto> \<lparr>rb_parent_color = 0, rb_right = 0, rb_left = 0\<rparr>,
        16 \<mapsto> node_rec 32 Red NULL NULL] (Node Black (Node Red Leaf 24 Leaf) 32 Leaf))"
  using replace_correct [of "[LF Black 32 Leaf]" Red Leaf 16 Leaf 24
      "[24 \<mapsto> \<lparr>rb_parent_color = 0, rb_right = 0, rb_left = 0\<rparr>]"]
  by (simp add: wf_eval)

text \<open>Writing the colour bit of any word keeps the bits of the parent.\<close>

lemma color_masks:
  fixes x :: u64
  shows "((x AND NOT 1) OR colbit k) AND NOT 3 = x AND NOT 3"
    "((x AND NOT 1) OR colbit k) AND 1 = colbit k"
    "(x AND NOT 1) AND NOT 3 = x AND NOT 3" "(x AND NOT 1) AND 1 = 0"
    "(x OR 1) AND NOT 3 = x AND NOT 3" "(x OR 1) AND 1 = 1"
  by (intro bit_word_eqI; auto simp: pack_bits simp del: pack_fold)+

text \<open>
  The parent pointer and the colour share one word and do not disturb each other: on any
  allocated node \<open>rb_set_parent\<close> with an aligned pointer is read back by \<open>rb_parent\<close> and keeps the
  colour, and \<open>rb_set_color\<close>, \<open>rb_set_red\<close> and \<open>rb_set_black\<close> are read back by \<open>rb_color\<close> and keep
  the parent.
\<close>

theorem packing_correct:
  assumes "deref r s = Some n" and "aligned p" and "c \<in> {RB_RED, RB_BLACK}"
  shows "\<exists>s1. rb_set_parent r p s = Some s1 \<and> rb_parent r s1 = Some p \<and> rb_color r s1 = rb_color r s \<and>
    (\<exists>s2. rb_set_color r c s1 = Some s2 \<and> rb_parent r s2 = Some p \<and> rb_color r s2 = Some c) \<and>
    (\<exists>s3. rb_set_red r s1 = Some s3 \<and> rb_parent r s3 = Some p \<and> rb_is_red r s3 = Some True) \<and>
    (\<exists>s4. rb_set_black r s1 = Some s4 \<and> rb_parent r s4 = Some p \<and> rb_is_black r s4 = Some True)"
proof -
  let ?w = "rb_parent_color n"
  have r: "r \<noteq> NULL" using assms(1) by (auto simp: deref_def)
  obtain k where c: "c = colbit k"
    using assms(3) by (metis colbit_def color.simps(3,4) insertE singletonD)
  have new: "((?w AND 3) OR p) AND NOT 3 = p" "((?w AND 3) OR p) AND 1 = ?w AND 1"
    by (intro bit_word_eqI; use assms(2) in \<open>auto simp: pack_bits\<close>)+
  note masks = color_masks(1,2) [where x = "(?w AND 3) OR p" and k = k]
    color_masks(3-6) [where x = "(?w AND 3) OR p"]
  let ?s1 = "s\<lparr>mem := (mem s)(r \<mapsto> n\<lparr>rb_parent_color := (?w AND 3) OR p\<rparr>)\<rparr>"
  have s1: "rb_set_parent r p s = Some ?s1"
    using assms(1) by (simp add: rb_set_parent_def modify_def)
  have "mem s r = Some n" using assms(1) r by (simp add: deref_def)
  with r s1 new masks show ?thesis
    by (simp add: c rb_parent_def rb_color_def rb_is_red_def rb_is_black_def rb_set_color_def
        rb_set_red_def rb_set_black_def modify_def deref_def)
qed

theorem packing_correct_witness:
  "\<exists>s1. rb_set_parent 16 32 \<lparr>mem = [16 \<mapsto> \<lparr>rb_parent_color = 1, rb_right = 0, rb_left = 0\<rparr>], root_node = 16\<rparr>
      = Some s1 \<and> rb_parent 16 s1 = Some 32 \<and> rb_color 16 s1 = Some 1"
  using packing_correct [of 16
      "\<lparr>mem = [16 \<mapsto> \<lparr>rb_parent_color = 1, rb_right = 0, rb_left = 0\<rparr>], root_node = 16\<rparr>"
      "\<lparr>rb_parent_color = 1, rb_right = 0, rb_left = 0\<rparr>" 32 RB_RED]
  by (auto simp: deref_def aligned_def rb_color_def)

text \<open>The macros for empty trees and for nodes outside any tree.\<close>

lemma empty_root: "wf T \<Longrightarrow> RB_EMPTY_ROOT (st h T) \<longleftrightarrow> T = Leaf"
  by (cases T) (auto simp: RB_EMPTY_ROOT_def st_def wf_def wf_addrs_def okp_def)

lemma clear_node:
  assumes "deref r s = Some n" and "aligned r"
  shows "\<exists>s1. RB_CLEAR_NODE r s = Some s1 \<and> RB_EMPTY_NODE r s1 = Some True \<and> rb_color r s1 = rb_color r s"
  using packing_correct [OF assms, of RB_RED] by (auto simp: RB_CLEAR_NODE_def RB_EMPTY_NODE_def)

section \<open>Depth\<close>

fun parents :: "nat \<Rightarrow> ptr \<Rightarrow> rb_state \<Rightarrow> ptr option" where
  "parents 0 a s = Some a"
| "parents (Suc k) a s = do { p \<leftarrow> rb_parent a s; parents k p s }"

lemma parents_focus:
  "wf (plug C (Node c l a r)) \<Longrightarrow>
   parents (length C) a (st h (plug C (Node c l a r))) = Some (ptr_of (plug C (Node c l a r)))"
proof (induction C arbitrary: c l a r)
  case (Cons f C)
  have A: "aligned (frame_ptr f)"
    using aligned_par_of [OF Cons.prems] by simp
  have p: "rb_parent a (st h (plug (f # C) (Node c l a r))) = Some (frame_ptr f)"
    using Cons.prems A by (cases f) (clarsimp simp: loop_exec)+
  show ?case
  proof (cases f)
    case (LF k b u)
    with p Cons.IH [of k "Node c l a r" b u] Cons.prems show ?thesis by simp
  next
    case (RF k u b)
    with p Cons.IH [of k u b "Node c l a r"] Cons.prems show ?thesis by simp
  qed
qed simp

fun height :: "ptree \<Rightarrow> nat" where
  "height Leaf = 0"
| "height (Node c l a r) = Suc (max (height l) (height r))"

lemma height_plug: "length C + height t \<le> height (plug C t)"
proof (induction C arbitrary: t)
  case (Cons f C)
  have "Suc (height t) \<le> height (fill f t)" by (cases f) auto
  with Cons.IH [of "fill f t"] show ?case by simp
qed simp

lemma height_bheight:
  "invc t \<Longrightarrow> invh t \<Longrightarrow> height t \<le> 2 * bheight t + (if color_of t = Red then 1 else 0)"
proof (induction t)
  case (Node c l a r)
  then show ?case by (cases c; cases "color_of l"; cases "color_of r") auto
qed simp

lemma bheight_addrs: "invh t \<Longrightarrow> 2 ^ bheight t \<le> length (addrs t) + 1"
proof (induction t)
  case (Node c l a r)
  then have "2 ^ bheight l \<le> length (addrs l) + 1" "2 ^ bheight l \<le> length (addrs r) + 1" by auto
  moreover have "(1::nat) \<le> 2 ^ bheight l" by simp
  ultimately show ?case by auto
qed simp



end
