(* ===== verification/Format.thy ===== *)
theory Format
  imports Prelude
begin

text \<open>
  The conversions of \<open>printf\<close> and \<open>scanf\<close> the program uses: numbers in base ten and sixteen.
\<close>

section \<open>Printing\<close>

text \<open>Most significant digit first; the recursion divides by the base.\<close>

function digits :: "nat \<Rightarrow> nat \<Rightarrow> nat list" where
  "digits b n = (if b < 2 \<or> n < b then [n] else digits b (n div b) @ [n mod b])"
  by pat_completeness auto
termination
  by (relation "measure snd") auto

declare digits.simps [simp del]

definition digit_char :: "nat \<Rightarrow> char" where
  "digit_char d = (if d < 10 then char_of (48 + d) else char_of (87 + d))"

definition print_base :: "nat \<Rightarrow> nat \<Rightarrow> string" where
  "print_base b n = map digit_char (digits b n)"

text \<open>\<open>%u\<close> of an unsigned, \<open>%d\<close> of an int, \<open>%lx\<close> of an unsigned long.\<close>

definition fmt_u :: "'a::len word \<Rightarrow> string" where
  "fmt_u w = print_base 10 (unat w)"

definition fmt_d :: "int \<Rightarrow> string" where
  "fmt_d i = (if i < 0 then CHR ''-'' # print_base 10 (nat (- i)) else print_base 10 (nat i))"

definition fmt_lx :: "u64 \<Rightarrow> string" where
  "fmt_lx w = print_base 16 (unat w)"

section \<open>Reading\<close>

text \<open>The value of a digit character in a base, if it is one.\<close>

definition digit_value :: "nat \<Rightarrow> char \<Rightarrow> nat option" where
  "digit_value b c =
     (let k = of_char c :: nat;
          d = (if 48 \<le> k \<and> k \<le> 57 then k - 48
               else if 97 \<le> k \<and> k \<le> 122 then k - 87
               else if 65 \<le> k \<and> k \<le> 90 then k - 55 else b)
      in if d < b then Some d else None)"

text \<open>The longest prefix of digits and its value, with the rest of the text.\<close>

fun scan_digits :: "nat \<Rightarrow> nat \<Rightarrow> string \<Rightarrow> nat \<times> string" where
  "scan_digits b acc [] = (acc, [])"
| "scan_digits b acc (c # cs) =
     (case digit_value b c of
        Some d \<Rightarrow> scan_digits b (acc * b + d) cs
      | None \<Rightarrow> (acc, c # cs))"

definition scan_base :: "nat \<Rightarrow> string \<Rightarrow> (nat \<times> string) option" where
  "scan_base b s =
     (case s of
        [] \<Rightarrow> None
      | c # cs \<Rightarrow> if digit_value b c = None then None else Some (scan_digits b 0 s))"

lemma digit_chars:
  "char_of (48::nat) = CHR ''0''" "char_of (49::nat) = CHR ''1''" "char_of (50::nat) = CHR ''2''"
  "char_of (51::nat) = CHR ''3''" "char_of (52::nat) = CHR ''4''" "char_of (53::nat) = CHR ''5''"
  "char_of (54::nat) = CHR ''6''" "char_of (55::nat) = CHR ''7''" "char_of (56::nat) = CHR ''8''"
  "char_of (57::nat) = CHR ''9''"
  by code_simp+

text \<open>Evaluating what was printed.\<close>

lemmas print_eval = print_base_def digits.simps digit_char_def digit_chars
lemmas fmt_d_eval = fmt_d_def print_eval
lemmas fmt_u_eval = fmt_u_def print_eval

section \<open>Reading back what was printed\<close>

lemma digit_round_trip: "d < b \<Longrightarrow> b \<le> 16 \<Longrightarrow> digit_value b (digit_char d) = Some d"
  by (auto simp: digit_value_def digit_char_def Let_def of_char_of)

lemma digits_less: "1 < b \<Longrightarrow> d \<in> set (digits b n) \<Longrightarrow> d < b"
  by (induction b n rule: digits.induct) (subst (asm) (2) digits.simps, auto split: if_splits)

lemma digits_not_Nil [simp]: "digits b n \<noteq> []"
  by (subst digits.simps) simp

text \<open>Scanning goes over the printed digits and stops at the first character that is none.\<close>

definition stops :: "nat \<Rightarrow> string \<Rightarrow> bool" where
  "stops b rest \<longleftrightarrow> (case rest of [] \<Rightarrow> True | c # _ \<Rightarrow> digit_value b c = None)"

lemma scan_digits_map:
  assumes "b \<le> 16" "\<forall>d \<in> set ds. d < b"
  shows "scan_digits b acc (map digit_char ds @ rest)
    = scan_digits b (foldl (\<lambda>a d. a * b + d) acc ds) rest"
  using assms(2)
proof (induction ds arbitrary: acc)
  case (Cons d ds)
  then show ?case using assms(1) by (simp add: digit_round_trip)
qed simp

lemma scan_digits_stops: "stops b rest \<Longrightarrow> scan_digits b acc rest = (acc, rest)"
  by (cases rest) (auto simp: stops_def)

lemma foldl_digits: "foldl (\<lambda>a d. a * b + d) 0 (digits b n) = n"
proof (induction b n rule: digits.induct)
  case (1 b n)
  then show ?case
    by (subst digits.simps) (auto simp: mult.commute)
qed

lemma scan_print:
  assumes "1 < b" "b \<le> 16" "stops b rest"
  shows "scan_base b (print_base b n @ rest) = Some (n, rest)"
proof -
  obtain d ds where ds: "digits b n = d # ds"
    using digits_not_Nil by (cases "digits b n") blast+
  have lt: "\<forall>d \<in> set (digits b n). d < b"
    using digits_less [OF assms(1)] by blast
  then have "digit_value b (digit_char d) = Some d"
    using ds digit_round_trip assms(2) by simp
  then have "scan_base b (print_base b n @ rest) = Some (scan_digits b 0 (map digit_char (digits b n) @ rest))"
    by (simp add: scan_base_def print_base_def ds)
  with scan_digits_map [OF assms(2) lt] scan_digits_stops [OF assms(3)] foldl_digits
  show ?thesis by simp
qed

end
