(* ===== verification/Simi.thy ===== *)
theory Simi
  imports Rb_Insert Rb_Erase Rb_Iterate Format
begin

text \<open>
  The multiset of \<open>simi.c\<close>: \<open>struct Data\<close> objects with a 32-bit key, held in a red-black
  tree through the node embedded in each of them.
\<close>

section \<open>State\<close>

record set_obj =
  so_root :: ptr
  so_size :: int

text \<open>
  The objects that are allocated, by kind and address: the tree nodes, the keys \<open>v\<close> of the
  \<open>struct Data\<close> objects, and the \<open>struct Set\<close> objects.
\<close>

record heap =
  nodes :: "ptr \<rightharpoonup> rb_node"
  vals :: "ptr \<rightharpoonup> u32"
  sets :: "ptr \<rightharpoonup> set_obj"

text \<open>
  On a 64-bit target the field \<open>node\<close> lies eight bytes into \<open>struct Data\<close>, so \<open>&d->node\<close> and
  \<open>rb_entry(n, struct Data, node)\<close> add and subtract eight.
\<close>

definition node_of :: "ptr \<Rightarrow> ptr" where
  "node_of d = d + 8"

definition rb_entry :: "ptr \<Rightarrow> ptr" where
  "rb_entry n = n - 8"

definition get_v :: "ptr \<Rightarrow> (ptr \<rightharpoonup> 'k) \<Rightarrow> 'k option" where
  "get_v d vs = (if d = NULL then None else vs d)"

definition get_set :: "ptr \<Rightarrow> heap \<Rightarrow> set_obj option" where
  "get_set s H = (if s = NULL then None else sets H s)"

text \<open>The tree code works on the nodes and on the root of one set.\<close>

definition tree_state :: "ptr \<Rightarrow> heap \<Rightarrow> rb_state option" where
  "tree_state s H = do { ob \<leftarrow> get_set s H; Some \<lparr>mem = nodes H, root_node = so_root ob\<rparr> }"

definition put_tree :: "ptr \<Rightarrow> rb_state \<Rightarrow> heap \<Rightarrow> heap option" where
  "put_tree s t H = do {
     ob \<leftarrow> get_set s H;
     Some (H\<lparr>nodes := mem t, sets := (sets H)(s \<mapsto> ob\<lparr>so_root := root_node t\<rparr>)\<rparr>) }"

section \<open>Search and insertion\<close>

text \<open>
  The two loops down the tree. The keys may be of any ordered type; those of a set are 32-bit words,
  and \<open>rbtree_test.c\<close> has the same loops for ints.
\<close>

partial_function (option) search_loop ::
  "ptr \<Rightarrow> 'k::linorder \<Rightarrow> (ptr \<rightharpoonup> 'k) \<Rightarrow> rb_state \<Rightarrow> ptr option" where
  "search_loop node v vs t =
     (if node = NULL then Some NULL
      else do {
        cv \<leftarrow> get_v (rb_entry node) vs;
        if v < cv then do { l \<leftarrow> get_left node t; search_loop l v vs t }
        else if v > cv then do { r \<leftarrow> get_right node t; search_loop r v vs t }
        else Some (rb_entry node) })"

definition rb_search_data :: "ptr \<Rightarrow> u32 \<Rightarrow> heap \<Rightarrow> ptr option" where
  "rb_search_data s v H = do {
     t \<leftarrow> tree_state s H;
     search_loop (root_node t) v (vals H) t }"

text \<open>The descent of \<open>rb_insert_data\<close>: the link it ends at and the parent.\<close>

partial_function (option) insert_loop ::
  "link \<Rightarrow> ptr \<Rightarrow> 'k::linorder \<Rightarrow> (ptr \<rightharpoonup> 'k) \<Rightarrow> rb_state \<Rightarrow> (link \<times> ptr) option" where
  "insert_loop lk parent value vs t = do {
     p \<leftarrow> read_link lk t;
     if p = NULL then Some (lk, parent)
     else do {
       cv \<leftarrow> get_v (rb_entry p) vs;
       if cv > value then insert_loop (LeftLink p) p value vs t
       else insert_loop (RightLink p) p value vs t } }"

definition rb_insert_data :: "ptr \<Rightarrow> ptr \<Rightarrow> heap \<Rightarrow> heap option" where
  "rb_insert_data s new_data H = do {
     value \<leftarrow> get_v new_data (vals H);
     t \<leftarrow> tree_state s H;
     (lk, parent) \<leftarrow> insert_loop RootLink NULL value (vals H) t;
     t \<leftarrow> rb_insert (node_of new_data) parent lk t;
     put_tree s t H }"

section \<open>The operations of the set\<close>

definition set_add :: "ptr \<Rightarrow> ptr \<Rightarrow> heap \<Rightarrow> heap option" where
  "set_add s data H = do {
     ob \<leftarrow> get_set s H;
     n \<leftarrow> int_add (so_size ob) 1;
     rb_insert_data s data (H\<lparr>sets := (sets H)(s \<mapsto> ob\<lparr>so_size := n\<rparr>)\<rparr>) }"

definition set_in :: "ptr \<Rightarrow> ptr \<Rightarrow> heap \<Rightarrow> bool option" where
  "set_in s data H = do {
     v \<leftarrow> get_v data (vals H);
     d \<leftarrow> rb_search_data s v H;
     Some (d \<noteq> NULL) }"

definition set_size :: "ptr \<Rightarrow> heap \<Rightarrow> int option" where
  "set_size s H = do { ob \<leftarrow> get_set s H; Some (so_size ob) }"

text \<open>
  \<open>set_init\<close> and \<open>data_init\<close>, given the address \<open>malloc\<close> returned. \<open>set_init\<close> writes through it
  unchecked; \<open>data_init\<close> ends the program with status -1 when it is null, and leaves the
  embedded node with whatever the block held.
\<close>

definition set_init :: "ptr \<Rightarrow> heap \<Rightarrow> (ptr \<times> heap) option" where
  "set_init block H =
     (if block = NULL then None
      else Some (block, H\<lparr>sets := (sets H)(block \<mapsto> \<lparr>so_root = NULL, so_size = 0\<rparr>)\<rparr>))"

definition data_init :: "ptr \<Rightarrow> rb_node \<Rightarrow> u32 \<Rightarrow> heap \<Rightarrow> int + ptr \<times> heap" where
  "data_init block junk v H =
     (if block = NULL then Inl (- 1)
      else Inr (block, H\<lparr>vals := (vals H)(block \<mapsto> v), nodes := (nodes H)(node_of block \<mapsto> junk)\<rparr>))"

text \<open>\<open>free\<close>: nothing for the null pointer, undefined behaviour for a block not allocated.\<close>

definition data_free :: "ptr \<Rightarrow> heap \<Rightarrow> heap option" where
  "data_free d H =
     (if d = NULL then Some H
      else if vals H d = None then None
      else Some (H\<lparr>vals := (vals H)(d := None), nodes := (nodes H)(node_of d := None)\<rparr>))"

definition free_set_obj :: "ptr \<Rightarrow> heap \<Rightarrow> heap option" where
  "free_set_obj s H =
     (if sets H s = None then None else Some (H\<lparr>sets := (sets H)(s := None)\<rparr>))"

partial_function (option) set_free :: "ptr \<Rightarrow> heap \<Rightarrow> heap option" where
  "set_free s H = do {
     t \<leftarrow> tree_state s H;
     if root_node t = NULL then free_set_obj s H
     else do {
       t' \<leftarrow> rb_erase (root_node t) t;
       H \<leftarrow> put_tree s t' H;
       H \<leftarrow> data_free (rb_entry (root_node t)) H;
       set_free s H } }"

definition data_print :: "ptr \<Rightarrow> heap \<Rightarrow> string option" where
  "data_print d H = do { v \<leftarrow> get_v d (vals H); Some (fmt_u v) }"

definition set_print :: "ptr \<Rightarrow> heap \<Rightarrow> string option" where
  "set_print s H = do {
     t \<leftarrow> tree_state s H;
     p \<leftarrow> rb_first t;
     out \<leftarrow> for_each (\<lambda>p. rb_next p t)
       (\<lambda>p out. do { txt \<leftarrow> data_print (rb_entry p) H; Some (out @ txt @ '' '') }) p ''{ '';
     Some (out @ '' }\<newline>'') }"

text \<open>The loops of \<open>set_jaccard\<close> and \<open>set_found_in\<close> over the elements of \<open>a\<close>.\<close>

definition set_found_in :: "ptr \<Rightarrow> ptr \<Rightarrow> heap \<Rightarrow> int option" where
  "set_found_in a b H = do {
     t \<leftarrow> tree_state a H;
     p \<leftarrow> rb_first t;
     for_each (\<lambda>p. rb_next p t)
       (\<lambda>p cnt. do { f \<leftarrow> set_in b (rb_entry p) H; if f then int_add cnt 1 else Some cnt }) p 0 }"

text \<open>
  The quotient \<open>set_jaccard\<close> returns is given by its two operands, the ints \<open>y\<close> and
  \<open>x + y + z\<close>, both exact as doubles.
\<close>

definition set_jaccard :: "ptr \<Rightarrow> ptr \<Rightarrow> heap \<Rightarrow> (int \<times> int) option" where
  "set_jaccard a b H = do {
     ta \<leftarrow> tree_state a H;
     p \<leftarrow> rb_first ta;
     (x, y) \<leftarrow> for_each (\<lambda>p. rb_next p ta)
       (\<lambda>p (x, y). do {
          f \<leftarrow> set_in b (rb_entry p) H;
          if f then do { y \<leftarrow> int_add y 1; Some (x, y) } else do { x \<leftarrow> int_add x 1; Some (x, y) } })
       p (0, 0);
     tb \<leftarrow> tree_state b H;
     p \<leftarrow> rb_first tb;
     z \<leftarrow> for_each (\<lambda>p. rb_next p tb)
       (\<lambda>p z. do { f \<leftarrow> set_in a (rb_entry p) H; if \<not> f then int_add z 1 else Some z }) p 0;
     xy \<leftarrow> int_add x y;
     xyz \<leftarrow> int_add xy z;
     Some (y, xyz) }"

definition set_first :: "ptr \<Rightarrow> heap \<Rightarrow> ptr option" where
  "set_first s H = do { t \<leftarrow> tree_state s H; p \<leftarrow> rb_first t; Some (rb_entry p) }"

text \<open>\<open>rb_next\<close> reads nodes only, so the root it is run with is immaterial.\<close>

definition set_next :: "ptr \<Rightarrow> heap \<Rightarrow> ptr option" where
  "set_next d H =
     (if d = NULL then Some NULL
      else do {
        n \<leftarrow> rb_next (node_of d) \<lparr>mem = nodes H, root_node = NULL\<rparr>;
        if n = NULL then Some NULL else Some (rb_entry n) })"

section \<open>A set in the heap\<close>

text \<open>The key of the \<open>struct Data\<close> a node is embedded in.\<close>

definition key :: "(ptr \<rightharpoonup> 'k) \<Rightarrow> ptr \<Rightarrow> 'k" where
  "key vs n = the (vs (rb_entry n))"

definition keys :: "(ptr \<rightharpoonup> 'k) \<Rightarrow> ptree \<Rightarrow> 'k list" where
  "keys vs T = map (key vs) (addrs T)"

text \<open>The address of an allocated \<open>struct Data\<close> behind a node.\<close>

definition has_key :: "(ptr \<rightharpoonup> 'k) \<Rightarrow> ptr \<Rightarrow> bool" where
  "has_key vs n \<longleftrightarrow> rb_entry n \<noteq> NULL \<and> vs (rb_entry n) \<noteq> None"

definition keyed :: "(ptr \<rightharpoonup> 'k::linorder) \<Rightarrow> ptree \<Rightarrow> bool" where
  "keyed vs T \<longleftrightarrow> (\<forall>n \<in> set (addrs T). has_key vs n) \<and> sorted (keys vs T)"

text \<open>
  \<open>tree_at H s T\<close>: the set object \<open>s\<close> points to the tree \<open>T\<close>, whose nodes are in the heap,
  balanced and in the order of their keys. \<open>holds\<close> adds that the count is right.
\<close>

definition tree_at :: "heap \<Rightarrow> ptr \<Rightarrow> ptree \<Rightarrow> bool" where
  "tree_at H s T \<longleftrightarrow>
     (\<exists>ob. get_set s H = Some ob \<and> so_root ob = ptr_of T) \<and>
     nodes_of NULL T \<subseteq>\<^sub>m nodes H \<and> wf T \<and> rbt T \<and> keyed (vals H) T"

definition holds :: "heap \<Rightarrow> ptr \<Rightarrow> ptree \<Rightarrow> bool" where
  "holds H s T \<longleftrightarrow> tree_at H s T \<and> set_size s H = Some (int (length (addrs T)))"

lemma get_v_rb_entry: "has_key vs n \<Longrightarrow> get_v (rb_entry n) vs = Some (key vs n)"
  by (auto simp: get_v_def has_key_def key_def)

lemma rb_entry_node_of [simp]: "rb_entry (node_of d) = d" "node_of (rb_entry n) = n"
  by (simp_all add: rb_entry_def node_of_def)

lemma rb_entry_inject [simp]: "rb_entry m = rb_entry n \<longleftrightarrow> m = n"
  by (simp add: rb_entry_def)

lemma st_absorb: "nodes_of NULL T \<subseteq>\<^sub>m m \<Longrightarrow> st m T = \<lparr>mem = m, root_node = ptr_of T\<rparr>"
proof -
  assume "nodes_of NULL T \<subseteq>\<^sub>m m"
  then have "(m ++ nodes_of NULL T) x = m x" for x
    by (cases "nodes_of NULL T x") (simp_all add: map_le_def map_add_def domI del: dom_nodes_of, metis domI)
  then have "m ++ nodes_of NULL T = m" by (rule ext)
  then show ?thesis by (simp add: st_def)
qed

lemma tree_state_at: "tree_at H s T \<Longrightarrow> tree_state s H = Some (st (nodes H) T)"
  by (auto simp: tree_at_def tree_state_def st_absorb)

lemma tree_atD:
  assumes "tree_at H s T"
  shows "wf T" "rbt T" "keyed (vals H) T" "sorted (keys (vals H) T)"
    "n \<in> set (addrs T) \<Longrightarrow> has_key (vals H) n"
  using assms by (auto simp: tree_at_def keyed_def)

section \<open>Search\<close>

lemma sorted_around:
  assumes "sorted (map k (xs @ a # ys))"
  shows "x \<in> set xs \<Longrightarrow> k x \<le> k a" "y \<in> set ys \<Longrightarrow> k a \<le> k y" "sorted (map k xs)" "sorted (map k ys)"
  using assms by (auto simp: sorted_append)

lemma search_loop_st:
  assumes "wf (plug C t)" "\<forall>n \<in> set (addrs t). has_key vs n" "sorted (map (key vs) (addrs t))"
  shows "(\<exists>n \<in> set (addrs t). key vs n = v \<and> search_loop (ptr_of t) v vs (st h (plug C t)) = Some (rb_entry n))
    \<or> v \<notin> key vs ` set (addrs t) \<and> search_loop (ptr_of t) v vs (st h (plug C t)) = Some NULL"
  using assms
proof (induction t arbitrary: C)
  case Leaf
  then show ?case by (subst search_loop.simps) simp
next
  case (Node c l a r)
  let ?s = "st h (plug C (Node c l a r))"
  have a: "a \<noteq> NULL" "get_left a ?s = Some (ptr_of l)" "get_right a ?s = Some (ptr_of r)"
    using Node.prems(1) by (clarsimp simp: loop_exec)+
  have v: "get_v (rb_entry a) vs = Some (key vs a)"
    using Node.prems(2) by (simp add: get_v_rb_entry)
  note sa = sorted_around [of "key vs" "addrs l" a "addrs r"]
  have srt: "sorted (map (key vs) (addrs l @ a # addrs r))" using Node.prems(3) by simp
  consider "v < key vs a" | "v > key vs a" | "v = key vs a" by fastforce
  then show ?case
  proof cases
    case 1
    then have "search_loop a v vs ?s = search_loop (ptr_of l) v vs ?s"
      using a v by (subst search_loop.simps) simp
    moreover have "\<forall>n \<in> set (addrs r). key vs n \<noteq> v"
      using sa(2) [OF srt] 1 by fastforce
    ultimately show ?thesis
      using Node.IH(1) [of "LF c a r # C"] Node.prems sa(3) [OF srt] 1 by auto
  next
    case 2
    then have "search_loop a v vs ?s = search_loop (ptr_of r) v vs ?s"
      using a v by (subst search_loop.simps) (auto dest: order.asym)
    moreover have "\<forall>n \<in> set (addrs l). key vs n \<noteq> v"
      using sa(1) [OF srt] 2 by fastforce
    ultimately show ?thesis
      using Node.IH(2) [of "RF c l a # C"] Node.prems sa(4) [OF srt] 2 by auto
  next
    case 3
    then have "search_loop a v vs ?s = Some (rb_entry a)"
      using a v by (subst search_loop.simps) simp
    with 3 show ?thesis by simp
  qed
qed

lemma rb_search_data_at:
  assumes "tree_at H s T"
  shows "(\<exists>n \<in> set (addrs T). key (vals H) n = v \<and> rb_search_data s v H = Some (rb_entry n))
    \<or> v \<notin> set (keys (vals H) T) \<and> rb_search_data s v H = Some NULL"
  using search_loop_st [of "[]" T "vals H" v "nodes H"] tree_state_at [OF assms] tree_atD [OF assms]
  by (auto simp: rb_search_data_def keys_def)

lemma set_in_at:
  assumes "tree_at H s T" "d \<noteq> NULL" "vals H d = Some v"
  shows "set_in s d H = Some (v \<in> set (keys (vals H) T))"
proof -
  have "(\<exists>e. rb_search_data s v H = Some e \<and> (e \<noteq> NULL \<longleftrightarrow> v \<in> set (keys (vals H) T)))"
    using rb_search_data_at [OF assms(1), of v] tree_atD(5) [OF assms(1)]
    by (auto simp: keys_def has_key_def)
  with assms show ?thesis by (auto simp: set_in_def get_v_def)
qed

section \<open>Insertion\<close>

lemma read_link_st:
  "wf (plug C t) \<Longrightarrow> read_link (link_of C) (st h (plug C t)) = Some (ptr_of t)"
proof (cases C)
  case (Cons f C')
  assume "wf (plug C t)"
  with Cons show ?thesis by (cases f) (clarsimp simp: loop_exec)+
qed simp

lemma insert_loop_st:
  assumes "wf (plug C t)" "\<forall>n \<in> set (addrs t). has_key vs n" "sorted (map (key vs) (addrs t))"
  shows "\<exists>D as bs. insert_loop (link_of C) (par_of C) v vs (st h (plug C t)) = Some (link_of D, par_of D) \<and>
    plug D Leaf = plug C t \<and> addrs t = as @ bs \<and>
    addrs_before D = addrs_before C @ as \<and> addrs_after D = bs @ addrs_after C \<and>
    (\<forall>a \<in> set as. key vs a \<le> v) \<and> (\<forall>b \<in> set bs. v < key vs b)"
  using assms
proof (induction t arbitrary: C)
  case Leaf
  then have "insert_loop (link_of C) (par_of C) v vs (st h (plug C Leaf)) = Some (link_of C, par_of C)"
    by (subst insert_loop.simps) (simp add: read_link_st)
  then show ?case by (intro exI [of _ C]) auto
next
  case (Node c l a r)
  let ?s = "st h (plug C (Node c l a r))"
  have a: "a \<noteq> NULL" "read_link (link_of C) ?s = Some a"
    using Node.prems(1) by (clarsimp simp: loop_exec read_link_st)+
  have v: "get_v (rb_entry a) vs = Some (key vs a)"
    using Node.prems(2) by (simp add: get_v_rb_entry)
  note sa = sorted_around [of "key vs" "addrs l" a "addrs r"]
  have srt: "sorted (map (key vs) (addrs l @ a # addrs r))" using Node.prems(3) by simp
  show ?case
  proof (cases "key vs a > v")
    case True
    then have step: "insert_loop (link_of C) (par_of C) v vs ?s
        = insert_loop (link_of (LF c a r # C)) (par_of (LF c a r # C)) v vs (st h (plug (LF c a r # C) l))"
      using a v by (subst insert_loop.simps) simp
    obtain D as bs where D: "insert_loop (link_of C) (par_of C) v vs ?s = Some (link_of D, par_of D)"
      "plug D Leaf = plug C (Node c l a r)" "addrs l = as @ bs"
      "addrs_before D = addrs_before C @ as" "addrs_after D = bs @ a # addrs r @ addrs_after C"
      "\<forall>a \<in> set as. key vs a \<le> v" "\<forall>b \<in> set bs. v < key vs b"
      using Node.IH(1) [of "LF c a r # C"] Node.prems sa(3) [OF srt] unfolding step by auto
    have "\<forall>b \<in> set (bs @ a # addrs r). v < key vs b"
      using D(7) True sa(2) [OF srt] by fastforce
    with D show ?thesis
      by (intro exI [of _ D] exI [of _ as] exI [of _ "bs @ a # addrs r"]) simp
  next
    case False
    then have step: "insert_loop (link_of C) (par_of C) v vs ?s
        = insert_loop (link_of (RF c l a # C)) (par_of (RF c l a # C)) v vs (st h (plug (RF c l a # C) r))"
      using a v by (subst insert_loop.simps) simp
    obtain D as bs where D: "insert_loop (link_of C) (par_of C) v vs ?s = Some (link_of D, par_of D)"
      "plug D Leaf = plug C (Node c l a r)" "addrs r = as @ bs"
      "addrs_before D = addrs_before C @ addrs l @ a # as" "addrs_after D = bs @ addrs_after C"
      "\<forall>a \<in> set as. key vs a \<le> v" "\<forall>b \<in> set bs. v < key vs b"
      using Node.IH(2) [of "RF c l a # C"] Node.prems sa(4) [OF srt] unfolding step by auto
    have "\<forall>b \<in> set (addrs l @ a # as). key vs b \<le> v"
      using D(6) False sa(1) [OF srt] by fastforce
    with D show ?thesis
      by (intro exI [of _ D] exI [of _ "addrs l @ a # as"] exI [of _ bs]) simp
  qed
qed

text \<open>A node with a key, in no tree yet, goes behind the nodes with keys up to its own.\<close>

lemma insert_keyed:
  assumes "wf T" and "rbt T" and "keyed vs T" and "has_key vs n" and "okp n" and "n \<notin> set (addrs T)" and "h n = Some m"
  shows "\<exists>lk parent T' as bs. insert_loop RootLink NULL (key vs n) vs (st h T) = Some (lk, parent) \<and>
    rb_insert n parent lk (st h T) = Some (st h T') \<and> wf T' \<and> rbt T' \<and> keyed vs T' \<and>
    addrs T = as @ bs \<and> addrs T' = as @ n # bs \<and>
    (\<forall>a \<in> set as. key vs a \<le> key vs n) \<and> (\<forall>b \<in> set bs. key vs n < key vs b)"
proof -
  have k: "\<forall>a \<in> set (addrs T). has_key vs a" "sorted (map (key vs) (addrs T))"
    using assms(3) by (simp_all add: keyed_def keys_def)
  obtain D as bs where D: "insert_loop RootLink NULL (key vs n) vs (st h T) = Some (link_of D, par_of D)"
    "plug D Leaf = T" "addrs T = as @ bs" "addrs_before D = as" "addrs_after D = bs"
    "\<forall>a \<in> set as. key vs a \<le> key vs n" "\<forall>b \<in> set bs. key vs n < key vs b"
    using insert_loop_st [of "[]" T vs "key vs n" h] assms(1) k by auto
  have W: "wf (plug D (Node Red Leaf n Leaf))"
    using assms(1,5,6) D by (auto simp: wf_def wf_addrs_def)
  obtain T' where T': "rb_insert n (par_of D) (link_of D) (st h T) = Some (st h T')" "addrs T' = as @ n # bs" "rbt T'"
    using rb_insert_st [of D n h m] W assms(2,7) D by auto
  have "wf T'" using W T' D by (simp add: wf_def)
  moreover have "keyed vs T'"
    using k assms(4) D T' by (auto simp: keyed_def keys_def sorted_append intro: order.strict_implies_order)
  ultimately show ?thesis using D T' by blast
qed

text \<open>The heap after the tree of \<open>s\<close> became \<open>T\<close>.\<close>

definition store :: "heap \<Rightarrow> ptr \<Rightarrow> ptree \<Rightarrow> heap" where
  "store H s T = H\<lparr>nodes := nodes H ++ nodes_of NULL T,
     sets := (sets H)(s \<mapsto> \<lparr>so_root = ptr_of T, so_size = int (length (addrs T))\<rparr>)\<rparr>"

text \<open>A \<open>struct Data\<close> ready to be added: allocated, and its node in no tree yet.\<close>

definition addable :: "heap \<Rightarrow> ptr \<Rightarrow> u32 \<Rightarrow> bool" where
  "addable H d v \<longleftrightarrow> d \<noteq> NULL \<and> vals H d = Some v \<and> okp (node_of d) \<and> nodes H (node_of d) \<noteq> None"

lemma holds_size: "holds H s T \<Longrightarrow> sets H s = Some \<lparr>so_root = ptr_of T, so_size = int (length (addrs T))\<rparr> \<and> s \<noteq> NULL"
  by (auto simp: holds_def tree_at_def set_size_def get_set_def split: if_splits)

lemma holds_store:
  assumes "s \<noteq> NULL" "wf T" "rbt T" "keyed (vals H) T"
  shows "holds (store H s T) s T"
  using assms
  by (simp add: holds_def tree_at_def store_def set_size_def get_set_def)

lemma set_add_at:
  assumes H: "holds H s T" and d: "addable H d v" "node_of d \<notin> set (addrs T)"
    and len: "int (length (addrs T)) < INT_MAX"
  shows "\<exists>T' as bs. set_add s d H = Some (store H s T') \<and> holds (store H s T') s T' \<and>
    addrs T = as @ bs \<and> addrs T' = as @ node_of d # bs \<and>
    (\<forall>a \<in> set as. key (vals H) a \<le> v) \<and> (\<forall>b \<in> set bs. v < key (vals H) b)"
proof -
  let ?n = "node_of d" and ?k = "key (vals H)"
  have at: "tree_at H s T" using H by (simp add: holds_def)
  note ob = holds_size [OF H]
  let ?H = "H\<lparr>sets := (sets H)(s \<mapsto> \<lparr>so_root = ptr_of T, so_size = int (length (addrs T)) + 1\<rparr>)\<rparr>"
  have ts: "tree_state s ?H = Some (st (nodes H) T)"
    using at ob by (simp add: tree_state_def get_set_def tree_at_def st_absorb)
  obtain n where n: "nodes H ?n = Some n" and v: "get_v d (vals H) = Some v" "?k ?n = v"
    using d by (auto simp: addable_def get_v_def key_def)
  have "has_key (vals H) ?n" "okp ?n" using d by (auto simp: addable_def has_key_def)
  from insert_keyed [where h = "nodes H", OF tree_atD(1-3) [OF at] this d(2) n] v(2) obtain lk parent T' as bs where
    T': "insert_loop RootLink NULL v (vals H) (st (nodes H) T) = Some (lk, parent)"
    "rb_insert ?n parent lk (st (nodes H) T) = Some (st (nodes H) T')" "wf T'" "rbt T'" "keyed (vals H) T'"
    "addrs T = as @ bs" "addrs T' = as @ ?n # bs" "\<forall>a \<in> set as. ?k a \<le> v" "\<forall>b \<in> set bs. v < ?k b"
    by metis
  have "holds (store H s T') s T'" using ob T' by (intro holds_store) auto
  moreover have "set_add s d H = Some (store H s T')"
  proof -
    have "set_add s d H = rb_insert_data s d ?H"
      using ob len by (simp add: set_add_def get_set_def INT_MIN_def)
    also have "\<dots> = put_tree s (st (nodes H) T') ?H"
      using v by (simp add: rb_insert_data_def ts T'(1,2))
    also have "\<dots> = Some (store H s T')"
      using ob T' by (simp add: put_tree_def get_set_def store_def st_def add_ac)
    finally show ?thesis .
  qed
  ultimately show ?thesis using T'(6-9) by blast
qed

text \<open>Storing one set leaves every other set of the heap alone.\<close>

lemma nodes_of_le_add:
  "set (addrs U) \<inter> set (addrs T) = {} \<Longrightarrow> nodes_of NULL U \<subseteq>\<^sub>m m \<Longrightarrow> nodes_of NULL U \<subseteq>\<^sub>m m ++ nodes_of NULL T"
proof -
  assume d: "set (addrs U) \<inter> set (addrs T) = {}" and le: "nodes_of NULL U \<subseteq>\<^sub>m m"
  have "nodes_of NULL U x = (m ++ nodes_of NULL T) x" if x: "x \<in> dom (nodes_of NULL U)" for x
  proof -
    have "x \<notin> dom (nodes_of NULL T)" using d x by auto
    then show ?thesis using le x by (simp add: map_le_def del: dom_nodes_of)
  qed
  then show ?thesis by (simp add: map_le_def)
qed

lemma holds_store_other:
  assumes "holds H s' U" "s' \<noteq> s" "set (addrs U) \<inter> set (addrs T) = {}"
  shows "holds (store H s T) s' U"
  using assms nodes_of_le_add [OF assms(3), of "nodes H"]
  by (auto simp: holds_def tree_at_def store_def set_size_def get_set_def split: if_splits)

section \<open>Counting loops\<close>

definition count_of :: "(ptr \<Rightarrow> bool) \<Rightarrow> ptr list \<Rightarrow> int" where
  "count_of P as = int (length (filter P as))"

lemma count_of_simps [simp]:
  "count_of P [] = 0" "count_of P (a # as) = (if P a then 1 else 0) + count_of P as"
  by (simp_all add: count_of_def)

lemma count_of_bounds: "0 \<le> count_of P as" "count_of P as \<le> int (length as)"
  by (simp_all add: count_of_def)

lemma fold_opt_count:
  assumes "\<And>a. a \<in> set as \<Longrightarrow> test a = Some (P a)"
    and "0 \<le> c" "c + int (length as) \<le> INT_MAX"
  shows "fold_opt (\<lambda>a c. do { f \<leftarrow> test a; if f then int_add c 1 else Some c }) as c
    = Some (c + count_of P as)"
  using assms by (induction as arbitrary: c) (auto simp: INT_MIN_def)

lemma fold_opt_count2:
  assumes "\<And>a. a \<in> set as \<Longrightarrow> test a = Some (P a)"
    and "0 \<le> x" "0 \<le> y" "x + y + int (length as) \<le> INT_MAX"
  shows "fold_opt (\<lambda>a (x, y). do {
        f \<leftarrow> test a;
        if f then do { y \<leftarrow> int_add y 1; Some (x, y) } else do { x \<leftarrow> int_add x 1; Some (x, y) } }) as (x, y)
    = Some (x + count_of (\<lambda>a. \<not> P a) as, y + count_of P as)"
  using assms by (induction as arbitrary: x y) (auto simp: INT_MIN_def)

lemma set_in_entry:
  assumes "tree_at H a T" "tree_at H b U" "n \<in> set (addrs T)"
  shows "set_in b (rb_entry n) H = Some (key (vals H) n \<in> set (keys (vals H) U))"
  using set_in_at [OF assms(2), of "rb_entry n"] tree_atD(5) [OF assms(1,3)]
  by (auto simp: has_key_def key_def)

lemma set_found_in_at:
  assumes "tree_at H a T" "tree_at H b U" "int (length (addrs T)) \<le> INT_MAX"
  shows "set_found_in a b H
    = Some (count_of (\<lambda>n. key (vals H) n \<in> set (keys (vals H) U)) (addrs T))"
proof -
  note loop = rb_for_each [OF tree_atD(1) [OF assms(1)], of "nodes H"]
  show ?thesis
    using assms fold_opt_count [of "addrs T" "\<lambda>n. set_in b (rb_entry n) H", OF set_in_entry [OF assms(1,2)], of 0]
    by (simp add: set_found_in_def tree_state_at [OF assms(1)] loop)
qed

lemma set_jaccard_at:
  assumes A: "tree_at H a T" and B: "tree_at H b U"
    and len: "int (length (addrs T)) + int (length (addrs U)) \<le> INT_MAX"
  shows "set_jaccard a b H = Some (
      count_of (\<lambda>n. key (vals H) n \<in> set (keys (vals H) U)) (addrs T),
      int (length (addrs T)) + count_of (\<lambda>n. key (vals H) n \<notin> set (keys (vals H) T)) (addrs U))"
proof -
  let ?inU = "\<lambda>n. key (vals H) n \<in> set (keys (vals H) U)"
  let ?notT = "\<lambda>n. key (vals H) n \<notin> set (keys (vals H) T)"
  have xy: "count_of (\<lambda>n. \<not> ?inU n) (addrs T) + count_of ?inU (addrs T) = int (length (addrs T))"
    using sum_length_filter_compl [of ?inU "addrs T"] by (simp add: count_of_def)
  have fA: "fold_opt (\<lambda>n (x, y). do {
      f \<leftarrow> set_in b (rb_entry n) H;
      if f then do { y \<leftarrow> int_add y 1; Some (x, y) } else do { x \<leftarrow> int_add x 1; Some (x, y) } })
      (addrs T) (0, 0) = Some (count_of (\<lambda>n. \<not> ?inU n) (addrs T), count_of ?inU (addrs T))"
    using fold_opt_count2 [of "addrs T" "\<lambda>n. set_in b (rb_entry n) H", OF set_in_entry [OF A B], of 0 0] len
    by simp
  have fB: "fold_opt (\<lambda>n z. do { f \<leftarrow> set_in a (rb_entry n) H; if \<not> f then int_add z 1 else Some z })
      (addrs U) 0 = Some (count_of ?notT (addrs U))"
    using fold_opt_count [of "addrs U" "\<lambda>n. map_option Not (set_in a (rb_entry n) H)" ?notT 0]
      set_in_entry [OF B A] len
    by (simp add: bind_map_option comp_def)
  have s1: "int_add (count_of (\<lambda>n. \<not> ?inU n) (addrs T)) (count_of ?inU (addrs T)) = Some (int (length (addrs T)))"
    using xy len by (simp add: int_add_def INT_MIN_def)
  have s2: "int_add (int (length (addrs T))) (count_of ?notT (addrs U))
      = Some (int (length (addrs T)) + count_of ?notT (addrs U))"
    using len count_of_bounds [of ?notT "addrs U"] by (simp add: INT_MIN_def)
  show ?thesis
    by (simp add: set_jaccard_def tree_state_at [OF A] tree_state_at [OF B] s1 s2 fA fB
        rb_for_each_then [OF tree_atD(1) [OF A]] rb_for_each_then [OF tree_atD(1) [OF B]])
qed

section \<open>Iteration over the data\<close>

text \<open>Walking upwards or leftwards reads nodes only, whatever the root field holds.\<close>

lemma getters_root [simp]:
  "get_left a (s\<lparr>root_node := r\<rparr>) = get_left a s"
  "get_right a (s\<lparr>root_node := r\<rparr>) = get_right a s"
  "rb_parent a (s\<lparr>root_node := r\<rparr>) = rb_parent a s"
  by (simp_all add: get_left_def get_right_def rb_parent_def deref_def)

lemma go_left_root:
  assumes "go_left n s = Some y"
  shows "go_left n (s\<lparr>root_node := r\<rparr>) = Some y"
proof (rule go_left.raw_induct [where P = "\<lambda>n s y. go_left n (s\<lparr>root_node := r\<rparr>) = Some y", OF _ assms])
  fix f n s y
  assume IH: "\<And>n s y. f n s = Some y \<Longrightarrow> go_left n (s\<lparr>root_node := r\<rparr>) = Some y"
    and body: "do { l \<leftarrow> get_left n s; if l \<noteq> NULL then f l s else Some n } = Some y"
  then obtain l where l: "get_left n s = Some l" by (auto simp: bind_eq_Some_conv)
  with body IH [of l s y] show "go_left n (s\<lparr>root_node := r\<rparr>) = Some y"
    by (subst go_left.simps) (simp split: if_splits)
qed

lemma climb_right_root:
  assumes "climb_right n s = Some y"
  shows "climb_right n (s\<lparr>root_node := r\<rparr>) = Some y"
proof (rule climb_right.raw_induct
    [where P = "\<lambda>n s y. climb_right n (s\<lparr>root_node := r\<rparr>) = Some y", OF _ assms])
  fix f n s y
  assume IH: "\<And>n s y. f n s = Some y \<Longrightarrow> climb_right n (s\<lparr>root_node := r\<rparr>) = Some y"
    and body: "do {
      parent \<leftarrow> rb_parent n s;
      up \<leftarrow> (if parent = NULL then Some False else do { q \<leftarrow> get_right parent s; Some (n = q) });
      if up then f parent s else Some parent } = Some y"
  then obtain p where p: "rb_parent n s = Some p" by (auto simp: bind_eq_Some_conv)
  show "climb_right n (s\<lparr>root_node := r\<rparr>) = Some y"
  proof (cases "p = NULL")
    case True
    with body p show ?thesis by (subst climb_right.simps) simp
  next
    case False
    with body p obtain q where q: "get_right p s = Some q" by (auto simp: bind_eq_Some_conv)
    with body p False IH [of p s y] show ?thesis
      by (subst climb_right.simps) (simp split: if_splits)
  qed
qed

lemma rb_next_root: "rb_next n s = Some y \<Longrightarrow> rb_next n (s\<lparr>root_node := r\<rparr>) = Some y"
  unfolding rb_next_def
  by (cases "rb_parent n s"; cases "get_right n s")
    (simp_all add: go_left_root climb_right_root split: if_splits)

definition entry_or_null :: "ptr \<Rightarrow> ptr" where
  "entry_or_null n = (if n = NULL then NULL else rb_entry n)"

lemma set_first_at:
  "tree_at H s T \<Longrightarrow> set_first s H = Some (rb_entry (first_or_null (addrs T)))"
  by (simp add: set_first_def tree_state_at rb_first_st tree_atD)

lemma set_next_at:
  assumes "tree_at H s T" "addrs T = as @ n # bs"
  shows "set_next (rb_entry n) H = Some (entry_or_null (first_or_null bs))"
proof -
  have "rb_next n (st (nodes H) T) = Some (first_or_null bs)"
    using rb_next_st assms tree_atD by blast
  then have "rb_next n \<lparr>mem = nodes H, root_node = NULL\<rparr> = Some (first_or_null bs)"
    using rb_next_root [of n "st (nodes H) T" _ NULL] assms(1)
    by (auto simp: tree_at_def st_absorb)
  moreover have "rb_entry n \<noteq> NULL"
    using tree_atD(5) [OF assms(1)] assms(2) by (simp add: has_key_def)
  ultimately show ?thesis by (simp add: set_next_def entry_or_null_def)
qed

text \<open>
  On a set that is not empty, \<open>set_first\<close> and \<open>set_next\<close> walk the \<open>struct Data\<close> objects in
  the order of the tree.
\<close>

interpretation data: walk "\<lambda>(H, s, T). tree_at H s T \<and> T \<noteq> Leaf" "\<lambda>(H, s, T). map rb_entry (addrs T)"
  "\<lambda>(H, s, T). set_first s H" "\<lambda>d (H, s, T). set_next d H"
proof (unfold_locales; clarify)
  fix H s T assume A: "tree_at H s T" and N: "T \<noteq> Leaf"
  then obtain a as where a: "addrs T = a # as" by (cases "addrs T") auto
  show "set_first s H = Some (first_or_null (map rb_entry (addrs T)))"
    using set_first_at [OF A] a by simp
  show False if "NULL \<in> set (map rb_entry (addrs T))"
    using that tree_atD(5) [OF A] by (auto simp: has_key_def)
  show "set_next d H = Some (first_or_null bs)" if items: "map rb_entry (addrs T) = as @ d # bs" for as d bs
  proof -
    obtain as' n bs' where n: "addrs T = as' @ n # bs'" "d = rb_entry n" "bs = map rb_entry bs'"
      using items by (fastforce simp: map_eq_append_conv Cons_eq_map_conv)
    have "NULL \<notin> set (addrs T)" using NULL_notin_addrs tree_atD(1) [OF A] by blast
    then have "entry_or_null (first_or_null bs') = first_or_null bs"
      using n by (cases bs') (auto simp: entry_or_null_def)
    with set_next_at [OF A n(1)] n show ?thesis by simp
  qed
qed

text \<open>Printing: the keys in ascending order.\<close>

lemma set_print_at:
  assumes "tree_at H s T"
  shows "set_print s H
    = Some (''{ '' @ concat (map (\<lambda>v. fmt_u v @ '' '') (keys (vals H) T)) @ '' }\<newline>'')"
proof -
  have "fold_opt (\<lambda>p out. do { txt \<leftarrow> data_print (rb_entry p) H; Some (out @ txt @ '' '') }) as out
      = Some (out @ concat (map (\<lambda>v. fmt_u v @ '' '') (map (key (vals H)) as)))"
    if "\<forall>a \<in> set as. has_key (vals H) a" for as out
    using that
    by (induction as arbitrary: out) (simp_all add: data_print_def get_v_rb_entry)
  with assms show ?thesis
    by (simp add: set_print_def tree_state_at rb_for_each_then tree_atD keys_def)
qed

section \<open>Freeing\<close>

definition dispose :: "heap \<Rightarrow> ptr \<Rightarrow> ptr list \<Rightarrow> heap" where
  "dispose H s as = H\<lparr>nodes := nodes H |` (- set as), vals := vals H |` (- rb_entry ` set as),
     sets := (sets H)(s := None)\<rparr>"

lemma keyed_mono:
  assumes "keyed vs T" "addrs T = as @ a # bs" "addrs T' = as @ bs" "distinct (addrs T)"
  shows "keyed (vs(rb_entry a := None)) T'"
proof -
  have "keys (vs(rb_entry a := None)) T' = map (key vs) (as @ bs)"
    using assms(2-4) by (auto simp: key_def keys_def)
  then have "sorted (keys (vs(rb_entry a := None)) T')"
    using assms(1,2) by (auto simp: sorted_append keyed_def keys_def)
  then show ?thesis
    using assms by (auto simp: keyed_def has_key_def)
qed

text \<open>Removing the root of a tree, and then its node and key.\<close>

lemma erase_root_keyed:
  assumes "wf T" and "rbt T" and "keyed vs T" and T: "T = Node c l a r"
  shows "\<exists>m T'. rb_erase a (st h T) = Some (st (h(a \<mapsto> m)) T') \<and> addrs T' = addrs l @ addrs r \<and>
    wf T' \<and> rbt T' \<and> keyed (vs(rb_entry a := None)) T' \<and>
    nodes_of NULL T' \<subseteq>\<^sub>m ((h(a \<mapsto> m)) ++ nodes_of NULL T')(a := None)"
proof -
  have ad: "addrs T = addrs l @ a # addrs r" by (simp add: T)
  obtain m T' where T': "rb_erase a (st h T) = Some (st (h(a \<mapsto> m)) T')" "addrs T' = addrs l @ addrs r" "rbt T'"
    using rb_erase_correct [OF assms(1,2) ad, of h] by (auto simp: erased_def repaired_def)
  have W: "distinct (addrs T)" using assms(1) by (simp add: wf_def wf_addrs_def)
  then have "a \<notin> set (addrs T')" using T'(2) ad by simp
  then have "nodes_of NULL T' x = (((h(a \<mapsto> m)) ++ nodes_of NULL T')(a := None)) x" if "x \<in> set (addrs T')" for x
    using that by (cases "x = a") (simp_all add: map_add_in)
  then have "nodes_of NULL T' \<subseteq>\<^sub>m ((h(a \<mapsto> m)) ++ nodes_of NULL T')(a := None)" by (simp add: map_le_def)
  moreover have "wf T'" using assms(1) T'(2) ad by (simp add: wf_def wf_addrs_def)
  ultimately show ?thesis using T' keyed_mono [OF assms(3) ad T'(2) W] by blast
qed

lemma set_free_at:
  "tree_at H s T \<Longrightarrow> set_free s H = Some (dispose H s (addrs T))"
proof (induction "length (addrs T)" arbitrary: H T)
  case 0
  then have "T = Leaf" by simp
  moreover from 0 obtain ob where "sets H s = Some ob" "s \<noteq> NULL"
    by (auto simp: tree_at_def get_set_def split: if_splits)
  ultimately show ?case
    using tree_state_at [OF 0(2)]
    by (subst set_free.simps) (simp add: free_set_obj_def dispose_def restrict_map_def)
next
  case (Suc n)
  note at = Suc.prems
  obtain c l a r where T: "T = Node c l a r" using Suc.hyps by (cases T) auto
  then have ad: "addrs T = addrs l @ a # addrs r" by simp
  obtain ob where ob: "sets H s = Some ob" "s \<noteq> NULL"
    using at by (auto simp: tree_at_def get_set_def split: if_splits)
  obtain m T' where T': "rb_erase a (st (nodes H) T) = Some (st ((nodes H)(a \<mapsto> m)) T')"
    "addrs T' = addrs l @ addrs r" "wf T'" "rbt T'" "keyed ((vals H)(rb_entry a := None)) T'"
    "nodes_of NULL T' \<subseteq>\<^sub>m (((nodes H)(a \<mapsto> m)) ++ nodes_of NULL T')(a := None)"
    using erase_root_keyed [OF tree_atD(1-3) [OF at] T, of "nodes H"] by blast
  let ?vals = "(vals H)(rb_entry a := None)"
  let ?nodes = "((nodes H)(a \<mapsto> m) ++ nodes_of NULL T')(a := None)"
  let ?H = "H\<lparr>sets := (sets H)(s \<mapsto> ob\<lparr>so_root := ptr_of T'\<rparr>), vals := ?vals, nodes := ?nodes\<rparr>"
  have W: "distinct (addrs T)" "a \<noteq> NULL" "has_key (vals H) a"
    using tree_atD(1) [OF at] tree_atD(5) [OF at, of a] T by (auto simp: wf_def wf_addrs_def okp_def)
  have "set_free s H = set_free s ?H"
    using tree_state_at [OF at] ob T T' W(2,3)
    by (subst set_free.simps)
      (auto simp: put_tree_def get_set_def data_free_def has_key_def st_def)
  moreover have "tree_at ?H s T'"
    using ob T'(3-6) by (simp add: tree_at_def get_set_def)
  moreover have "n = length (addrs T')" using Suc.hyps(2) T'(2) ad by simp
  ultimately have "set_free s H = Some (dispose ?H s (addrs T'))"
    using Suc.hyps(1) by metis
  also have "dispose ?H s (addrs T') = dispose H s (addrs T)"
  proof -
    have "(?nodes |` (- set (addrs T'))) x = (nodes H |` (- set (addrs T))) x" for x
      using T'(2) ad by (simp add: restrict_map_def)
    then have "?nodes |` (- set (addrs T')) = nodes H |` (- set (addrs T))" by (rule ext)
    moreover have "?vals |` (- rb_entry ` set (addrs T')) = vals H |` (- rb_entry ` set (addrs T))"
      using T'(2) ad by (intro ext) (simp add: restrict_map_def)
    ultimately show ?thesis by (simp add: dispose_def)
  qed
  finally show ?case .
qed

text \<open>Freeing one set leaves every other set of the heap alone.\<close>

lemma holds_dispose_other:
  assumes "holds H s' U" "s' \<noteq> s" "set (addrs U) \<inter> set as = {}"
  shows "holds (dispose H s as) s' U"
proof -
  let ?vs = "vals H |` (- rb_entry ` set as)"
  have same: "?vs (rb_entry n) = vals H (rb_entry n)" if "n \<in> set (addrs U)" for n
    using that assms(3) by (auto simp: restrict_map_def)
  have "keys ?vs U = keys (vals H) U"
    using same by (simp add: keys_def key_def)
  moreover have "has_key ?vs n = has_key (vals H) n" if "n \<in> set (addrs U)" for n
    using same [OF that] by (simp add: has_key_def)
  moreover have "nodes_of NULL U \<subseteq>\<^sub>m nodes H |` (- set as)"
    using assms(1,3) by (auto simp: holds_def tree_at_def map_le_def restrict_map_def)
  ultimately show ?thesis
    using assms(1,2)
    by (auto simp: holds_def tree_at_def keyed_def set_size_def get_set_def dispose_def split: if_splits)
qed

section \<open>The abstract value\<close>

text \<open>The multiset of the keys in a tree.\<close>

definition content :: "heap \<Rightarrow> ptree \<Rightarrow> u32 multiset" where
  "content H T = mset (keys (vals H) T)"

lemma set_mset_content [simp]: "set_mset (content H T) = set (keys (vals H) T)"
  by (simp add: content_def)

lemma size_content [simp]: "size (content H T) = length (addrs T)"
  by (simp add: content_def keys_def)

end
