(* ===== verification/Simi_Spec.thy ===== *)
theory Simi_Spec
  imports Simi
begin

text \<open>
  What \<open>simi.h\<close> promises: a multiset of 32-bit keys. The abstract value of a set is the
  multiset of the keys in its tree; the operations of \<open>simi.c\<close> act on it as stated here.
\<close>

lemma count_of_content:
  "count_of (\<lambda>n. P (key (vals H) n)) (addrs T) = int (size (filter_mset P (content H T)))"
  unfolding count_of_def content_def keys_def mset_filter [symmetric] filter_map
  by (simp add: comp_def del: mset_filter mset_map)

section \<open>Adding and searching\<close>

text \<open>
  C15: Adding an allocated datum with key \<open>v\<close> to a set returns a set that holds its old keys and
  \<open>v\<close>, still sorted, balanced and with the right count; equal keys stay in the order in which
  they were added, no key is written, and every other set of the heap whose tree does not use
  the new node is what it was.
\<close>

theorem set_add_correct:
  assumes "holds H s T" and "addable H d v" and "node_of d \<notin> set (addrs T)"
    and "int (length (addrs T)) < INT_MAX"
  shows "\<exists>H' T' as bs. set_add s d H = Some H' \<and> holds H' s T' \<and>
    content H' T' = add_mset v (content H T) \<and> vals H' = vals H \<and>
    addrs T = as @ bs \<and> addrs T' = as @ node_of d # bs \<and>
    (\<forall>a \<in> set as. key (vals H) a \<le> v) \<and> (\<forall>b \<in> set bs. v < key (vals H) b) \<and>
    (\<forall>s' U. s' \<noteq> s \<longrightarrow> holds H s' U \<longrightarrow> set (addrs U) \<inter> set (addrs T') = {} \<longrightarrow> holds H' s' U)"
proof -
  obtain T' as bs where T': "set_add s d H = Some (store H s T')" "holds (store H s T') s T'"
    "addrs T = as @ bs" "addrs T' = as @ node_of d # bs"
    "\<forall>a \<in> set as. key (vals H) a \<le> v" "\<forall>b \<in> set bs. v < key (vals H) b"
    using set_add_at [OF assms] by blast
  have v: "vals (store H s T') = vals H" by (simp add: store_def)
  have "key (vals H) (node_of d) = v" using assms(2) by (simp add: addable_def key_def)
  then have "content (store H s T') T' = add_mset v (content H T)"
    using T'(3,4) v by (simp add: content_def keys_def)
  with T' v holds_store_other show ?thesis by blast
qed

text \<open>A small heap: one set at 4096 holding the keys 5 and 7, and a datum at 72 with key 7.\<close>

definition sample_tree :: ptree where
  "sample_tree = Node Black Leaf 16 (Node Red Leaf 48 Leaf)"

definition sample_heap :: heap where
  "sample_heap = \<lparr>
     nodes = (nodes_of NULL sample_tree)(80 \<mapsto> \<lparr>rb_parent_color = 9, rb_right = 9, rb_left = 9\<rparr>),
     vals = [8 \<mapsto> 5, 40 \<mapsto> 7, 72 \<mapsto> 7],
     sets = [4096 \<mapsto> \<lparr>so_root = 16, so_size = 2\<rparr>, 8192 \<mapsto> \<lparr>so_root = NULL, so_size = 0\<rparr>]\<rparr>"

lemmas sample_eval = tree_at_def holds_def set_size_def get_set_def keyed_def keys_def key_def
  has_key_def rb_entry_def node_of_def rbt_def wf_def wf_addrs_def okp_def aligned_def map_le_def

lemma sample_holds:
  "holds sample_heap 4096 sample_tree" "holds sample_heap 8192 Leaf"
  by (simp_all add: sample_eval sample_heap_def sample_tree_def)

lemma sample_addable: "addable sample_heap 72 7"
  by (simp add: addable_def sample_heap_def node_of_def okp_def aligned_def)

theorem set_add_correct_witness:
  "\<exists>H' T'. set_add 4096 72 sample_heap = Some H' \<and> holds H' 4096 T' \<and>
    content H' T' = add_mset 7 (content sample_heap sample_tree)"
  using set_add_correct [OF sample_holds(1) sample_addable]
  by (auto simp: sample_tree_def node_of_def INT_MAX_def)

text \<open>
  \<open>set_in\<close> answers whether some datum of the set has the key of the given one, and its
  search never leaves the tree.
\<close>

theorem set_in_correct:
  assumes "holds H s T" and "d \<noteq> NULL" and "vals H d = Some v"
  shows "set_in s d H = Some (v \<in># content H T)"
  using set_in_at [of H s T d v] assms by (simp add: holds_def)

theorem set_in_correct_witness:
  "set_in 4096 72 sample_heap = Some True \<and> set_in 8192 72 sample_heap = Some False"
  using set_in_correct [OF sample_holds(1), of 72 7] set_in_correct [OF sample_holds(2), of 72 7]
  by (simp add: sample_heap_def sample_tree_def keys_def key_def rb_entry_def)

section \<open>Comparing two sets\<close>

text \<open>
  \<open>set_found_in(a, b)\<close> counts the data of \<open>a\<close>, with multiplicity, whose key occurs in \<open>b\<close>.
\<close>

theorem set_found_in_correct:
  assumes "holds H a T" and "holds H b U" and "int (length (addrs T)) \<le> INT_MAX"
  shows "set_found_in a b H
    = Some (int (size (filter_mset (\<lambda>k. k \<in># content H U) (content H T))))"
  using set_found_in_at [of H a T b U] assms count_of_content [of "\<lambda>k. k \<in> set (keys (vals H) U)" H T]
  by (simp add: holds_def)

theorem set_found_in_correct_witness:
  "set_found_in 4096 4096 sample_heap = Some 2 \<and> set_found_in 4096 8192 sample_heap = Some 0"
  using set_found_in_correct [OF sample_holds(1) sample_holds(1)]
    set_found_in_correct [OF sample_holds]
  by (simp add: INT_MAX_def sample_tree_def content_def keys_def)

lemma set_jaccard_content:
  assumes "holds H a T" and "holds H b U"
    and "int (length (addrs T)) + int (length (addrs U)) \<le> INT_MAX"
  shows "set_jaccard a b H = Some (
    int (size (filter_mset (\<lambda>k. k \<in># content H U) (content H T))),
    int (size (content H T)) + int (size (filter_mset (\<lambda>k. k \<notin># content H T) (content H U))))"
  using set_jaccard_at [of H a T b U] assms
    count_of_content [of "\<lambda>k. k \<in> set (keys (vals H) U)" H T]
    count_of_content [of "\<lambda>k. k \<notin> set (keys (vals H) T)" H U]
  by (simp add: holds_def)

text \<open>
  \<open>set_jaccard(a, b)\<close> is the quotient of the number of data of \<open>a\<close> with a key in \<open>b\<close> by the
  size of \<open>a\<close> plus the number of data of \<open>b\<close> with no key in \<open>a\<close>.
\<close>

theorem set_jaccard_correct:
  assumes "holds H a T" and "holds H b U"
    and "int (length (addrs T)) + int (length (addrs U)) \<le> INT_MAX"
  shows "set_jaccard a b H = Some (
    int (size (filter_mset (\<lambda>k. k \<in># content H U) (content H T))),
    int (size (content H T)) + int (size (filter_mset (\<lambda>k. k \<notin># content H T) (content H U))))"
  using assms by (rule set_jaccard_content)

theorem set_jaccard_correct_witness:
  "set_jaccard 4096 4096 sample_heap = Some (2, 2) \<and> set_jaccard 8192 8192 sample_heap = Some (0, 0)"
  using set_jaccard_correct [OF sample_holds(1) sample_holds(1)]
    set_jaccard_correct [OF sample_holds(2) sample_holds(2)]
  by (simp add: INT_MAX_def sample_tree_def content_def keys_def)

text \<open>
  \<open>set_jaccard\<close> is not symmetric when keys repeat: whenever \<open>a\<close> holds two data with one key
  and \<open>b\<close> one datum with this key and one with another, the quotient is 2/3 one way and 1/2 the
  other way, while the quotient of the multiset intersection and union is 1/3.
\<close>

lemma set_jaccard_asymmetric:
  assumes "holds H a T" and "holds H b U" and "x \<noteq> y"
    and "content H T = {#x, x#}" and "content H U = {#x, y#}"
  shows "set_jaccard a b H = Some (2, 3) \<and> set_jaccard b a H = Some (1, 2) \<and>
    size (content H T \<inter># content H U) = 1 \<and> size (content H T \<union># content H U) = 3"
proof -
  have len: "length (addrs T) = 2" "length (addrs U) = 2"
    using assms(4,5) size_content [of H T] size_content [of H U] by simp_all
  have "int (length (addrs T)) + int (length (addrs U)) \<le> INT_MAX" by (simp add: len INT_MAX_def)
  then have "set_jaccard a b H = Some (
      int (size (filter_mset (\<lambda>k. k \<in># content H U) (content H T))),
      int (size (content H T)) + int (size (filter_mset (\<lambda>k. k \<notin># content H T) (content H U))))"
    "set_jaccard b a H = Some (
      int (size (filter_mset (\<lambda>k. k \<in># content H T) (content H U))),
      int (size (content H U)) + int (size (filter_mset (\<lambda>k. k \<notin># content H U) (content H T))))"
    using set_jaccard_content assms(1,2) by (simp_all add: add.commute)
  then show ?thesis
    using assms(3) by (simp add: assms(4,5) union_mset_def)
qed

definition sample_pair :: heap where
  "sample_pair = \<lparr>
     nodes = nodes_of NULL sample_tree ++ nodes_of NULL (Node Black Leaf 80 (Node Red Leaf 112 Leaf)),
     vals = [8 \<mapsto> 5, 40 \<mapsto> 5, 72 \<mapsto> 5, 104 \<mapsto> 6],
     sets = [4096 \<mapsto> \<lparr>so_root = 16, so_size = 2\<rparr>, 8192 \<mapsto> \<lparr>so_root = 80, so_size = 2\<rparr>]\<rparr>"

lemma sample_pair_holds:
  "holds sample_pair 4096 sample_tree"
  "holds sample_pair 8192 (Node Black Leaf 80 (Node Red Leaf 112 Leaf))"
  by (simp_all add: sample_eval sample_pair_def sample_tree_def)

lemma sample_pair_content:
  "content sample_pair sample_tree = {#5, 5#}"
  "content sample_pair (Node Black Leaf 80 (Node Red Leaf 112 Leaf)) = {#5, 6#}"
  by (simp_all add: content_def keys_def key_def rb_entry_def sample_pair_def sample_tree_def)

lemma set_jaccard_asymmetric_example:
  "set_jaccard 4096 8192 sample_pair = Some (2, 3) \<and> set_jaccard 8192 4096 sample_pair = Some (1, 2)"
  using set_jaccard_asymmetric [OF sample_pair_holds _ sample_pair_content] by simp

section \<open>Walking, printing, freeing\<close>



text \<open>
  On an empty set \<open>set_first\<close> does not return the null pointer: \<open>rb_entry\<close> turns the null
  node into the address -8, which a caller's test against null accepts and whose key no
  caller may read unless an object happens to be there.
\<close>

lemma set_first_empty:
  assumes "holds H s Leaf"
  shows "set_first s H = Some (- 8) \<and> (- 8 :: ptr) \<noteq> NULL \<and>
    (vals H (- 8) = None \<longrightarrow> (set_first s H \<bind> (\<lambda>d. set_in s d H)) = None)"
proof -
  have "set_first s H = Some (- 8)"
    using set_first_at [of H s Leaf] assms by (simp add: holds_def rb_entry_def)
  then show ?thesis by (simp add: set_in_def get_v_def)
qed

text \<open>
  \<open>set_print\<close> writes the keys in ascending order, each with a blank behind it, between
  braces.
\<close>

theorem set_print_correct:
  assumes "holds H s T"
  shows "set_print s H = Some (''{ ''
    @ concat (map (\<lambda>v. fmt_u v @ '' '') (sorted_list_of_multiset (content H T))) @ '' }\<newline>'')"
proof -
  have at: "tree_at H s T" using assms by (simp add: holds_def)
  then have "sorted_list_of_multiset (content H T) = keys (vals H) T"
    using tree_atD(4)
    by (simp add: content_def sorted_list_of_multiset_mset sorted_sort_id)
  with set_print_at [OF at] show ?thesis by simp
qed

theorem set_print_correct_witness:
  "set_print 4096 sample_heap = Some ''{ 5 7  }\<newline>''"
  using set_print_correct [OF sample_holds(1)]
  by (simp add: sample_tree_def sample_heap_def content_def keys_def key_def rb_entry_def
      fmt_u_eval)

text \<open>
  C20: \<open>set_free\<close> ends and frees exactly the set object and the data of the set, each once;
  all other objects of the heap are unchanged, so another set with other nodes is still held.
\<close>

theorem set_free_correct:
  assumes "holds H s T"
  shows "\<exists>H'. set_free s H = Some H' \<and> sets H' = (sets H)(s := None) \<and>
    nodes H' = nodes H |` (- set (addrs T)) \<and> vals H' = vals H |` (- rb_entry ` set (addrs T)) \<and>
    (\<forall>s' U. s' \<noteq> s \<longrightarrow> holds H s' U \<longrightarrow> set (addrs U) \<inter> set (addrs T) = {} \<longrightarrow> holds H' s' U)"
proof -
  let ?H = "dispose H s (addrs T)"
  have "holds ?H s' U" if "s' \<noteq> s" "holds H s' U" "set (addrs U) \<inter> set (addrs T) = {}" for s' U
    using that holds_dispose_other by blast
  moreover have "set_free s H = Some ?H" using assms by (intro set_free_at) (simp add: holds_def)
  ultimately show ?thesis by (auto simp: dispose_def)
qed

theorem set_free_correct_witness:
  "\<exists>H'. set_free 4096 sample_heap = Some H' \<and> vals H' 8 = None \<and> vals H' 72 = Some 7 \<and> holds H' 8192 Leaf"
proof -
  obtain H' where "set_free 4096 sample_heap = Some H'"
    "vals H' = vals sample_heap |` (- rb_entry ` set (addrs sample_tree))" "holds H' 8192 Leaf"
    using set_free_correct [OF sample_holds(1)] sample_holds(2) by fastforce
  then show ?thesis by (auto simp: sample_tree_def sample_heap_def rb_entry_def)
qed

end
