(* ===== verification/Outcome.thy ===== *)
theory Outcome
  imports Prelude
begin

text \<open>
  Results of functions that may end the program. \<open>Returns\<close> is a normal return, \<open>Exits\<close> a call of
  \<open>exit\<close> with its status, \<open>Undefined\<close> undefined behaviour: a bad pointer, an index out of
  bounds, the value of a variable that was never written, a signed overflow.
\<close>

datatype 'a outcome = Returns 'a | Exits int | Undefined

text \<open>Go on with the result of a call; the two abnormal outcomes end the caller as well.\<close>

fun continue :: "'a outcome \<Rightarrow> ('a \<Rightarrow> 'b outcome) \<Rightarrow> 'b outcome" where
  "continue (Returns x) f = f x"
| "continue (Exits e) f = Exits e"
| "continue Undefined f = Undefined"

text \<open>A function whose only abnormal result is undefined behaviour.\<close>

fun defined :: "'a option \<Rightarrow> 'a outcome" where
  "defined (Some x) = Returns x"
| "defined None = Undefined"

text \<open>The loop over a list of indices or objects, with the state the body changes.\<close>

fun for_all :: "'b list \<Rightarrow> ('b \<Rightarrow> 's \<Rightarrow> 's outcome) \<Rightarrow> 's \<Rightarrow> 's outcome" where
  "for_all [] body s = Returns s"
| "for_all (b # bs) body s = continue (body b s) (for_all bs body)"

definition EXIT_FAILURE :: int where
  "EXIT_FAILURE = 1"

section \<open>Laws\<close>

lemma continue_assoc: "continue (continue m f) g = continue m (\<lambda>x. continue (f x) g)"
  by (cases m) auto

lemma continue_Returns [simp]: "continue m Returns = m"
  by (cases m) auto

lemma continue_eq_Returns:
  "continue m f = Returns y \<longleftrightarrow> (\<exists>x. m = Returns x \<and> f x = Returns y)"
  by (cases m) auto

lemma continue_cong [fundef_cong]:
  "m = m' \<Longrightarrow> (\<And>x. m' = Returns x \<Longrightarrow> f x = g x) \<Longrightarrow> continue m f = continue m' g"
  by (cases m') auto

lemma defined_eq_Returns [simp]: "defined r = Returns x \<longleftrightarrow> r = Some x"
  by (cases r) auto

lemma for_all_append: "for_all (as @ bs) body s = continue (for_all as body s) (for_all bs body)"
  by (induction as arbitrary: s) (auto simp: continue_assoc intro!: continue_cong)

lemma for_all_map: "for_all (map f as) body s = for_all as (\<lambda>a. body (f a)) s"
  by (induction as arbitrary: s) (auto intro: continue_cong)

lemma for_all_cong [fundef_cong]:
  "as = as' \<Longrightarrow> s = s' \<Longrightarrow> (\<And>a t. a \<in> set as' \<Longrightarrow> f a t = g a t) \<Longrightarrow> for_all as f s = for_all as' g s'"
proof (induction as arbitrary: as' s s')
  case (Cons a as)
  have "for_all as f t = for_all as g t" for t
    using Cons.IH [of as t t] Cons.prems by auto
  with Cons.prems show ?case by (auto intro!: continue_cong)
qed auto

text \<open>A loop all of whose rounds return, by an invariant on the state.\<close>

lemma for_all_invariant:
  assumes "I [] s"
    and "\<And>as b bs s. bs' = as @ b # bs \<Longrightarrow> I as s \<Longrightarrow> \<exists>t. body b s = Returns t \<and> I (as @ [b]) t"
  shows "\<exists>t. for_all bs' body s = Returns t \<and> I bs' t"
proof -
  have "\<exists>t. for_all bs body s = Returns t \<and> I bs' t" if "bs' = as @ bs" "I as s" for as bs s
    using that
  proof (induction bs arbitrary: as s)
    case (Cons b bs)
    obtain t where t: "body b s = Returns t" "I (as @ [b]) t"
      using assms(2) Cons.prems by blast
    obtain u where "for_all bs body t = Returns u \<and> I bs' u"
      using Cons.IH [of "as @ [b]" t] Cons.prems t by auto
    with t show ?case by auto
  qed auto
  from this [of "[]"] assms(1) show ?thesis by simp
qed

text \<open>The same when a round may also end the program with one of the statuses in \<open>E\<close>.\<close>

definition ends_in :: "int set \<Rightarrow> ('a \<Rightarrow> bool) \<Rightarrow> 'a outcome \<Rightarrow> bool" where
  "ends_in E P r = (case r of Returns x \<Rightarrow> P x | Exits e \<Rightarrow> e \<in> E | Undefined \<Rightarrow> False)"

lemma ends_in_simps [simp]:
  "ends_in E P (Returns x) = P x" "ends_in E P (Exits e) \<longleftrightarrow> e \<in> E" "\<not> ends_in E P Undefined"
  by (simp_all add: ends_in_def)

lemma ends_in_continue:
  "ends_in E P m \<Longrightarrow> (\<And>x. P x \<Longrightarrow> ends_in E Q (f x)) \<Longrightarrow> ends_in E Q (continue m f)"
  by (cases m) auto

lemma ends_in_mono: "ends_in E P m \<Longrightarrow> (\<And>x. P x \<Longrightarrow> Q x) \<Longrightarrow> ends_in E Q m"
  by (cases m) auto

lemma ends_in_for_all:
  assumes "I [] s"
    and "\<And>as b bs s. bs' = as @ b # bs \<Longrightarrow> I as s \<Longrightarrow> ends_in E (I (as @ [b])) (body b s)"
  shows "ends_in E (I bs') (for_all bs' body s)"
proof -
  have "ends_in E (I bs') (for_all bs body s)" if "bs' = as @ bs" "I as s" for as bs s
    using that
  proof (induction bs arbitrary: as s)
    case (Cons b bs)
    have "ends_in E (I (as @ [b])) (body b s)" using assms(2) Cons.prems by blast
    moreover have "ends_in E (I bs') (for_all bs body t)" if "I (as @ [b]) t" for t
      using Cons.IH [of "as @ [b]" t] Cons.prems that by simp
    ultimately show ?case by (simp add: ends_in_continue)
  qed auto
  from this [of "[]"] assms(1) show ?thesis by simp
qed

end
