(* ===== verification/Multisets.thy ===== *)
theory Multisets
  imports Simi Outcome
begin

text \<open>
  The interface \<open>setcmp\<close> uses the sets of \<open>simi.c\<close> through: several multisets that live side by
  side and data on their way into one. The clients' loops are verified once, over the
  interface; the functions of \<open>simi.c\<close>, with an allocator for the data, provide it.
\<close>

section \<open>Data with their allocation\<close>

text \<open>
  \<open>malloc\<close> for a \<open>struct Data\<close> is a function of the heap: the address of the block, null when
  there is none, and what the block holds.
\<close>

definition new_data :: "(heap \<Rightarrow> ptr \<times> rb_node) \<Rightarrow> u32 \<Rightarrow> heap \<Rightarrow> (ptr \<times> heap) outcome" where
  "new_data md v H =
     (let (block, junk) = md H in
      case data_init block junk v H of Inl status \<Rightarrow> Exits status | Inr r \<Rightarrow> Returns r)"

text \<open>What \<open>malloc\<close> promises: null, or an aligned block that is not in use.\<close>

definition malloc_ok :: "(heap \<Rightarrow> ptr \<times> rb_node) \<Rightarrow> bool" where
  "malloc_ok md \<longleftrightarrow> (\<forall>H. fst (md H) = NULL \<or>
     okp (node_of (fst (md H))) \<and> vals H (fst (md H)) = None \<and> nodes H (node_of (fst (md H))) = None)"

lemma ends_in_continue_pair:
  "ends_in E (\<lambda>(x, y). P x y) m \<Longrightarrow> (\<And>x y. P x y \<Longrightarrow> ends_in E Q (f x y)) \<Longrightarrow>
   ends_in E Q (continue m (\<lambda>(x, y). f x y))"
  by (cases m) auto

section \<open>The interface\<close>

text \<open>
  \<open>models h C D\<close>: the heap \<open>h\<close> holds the multisets \<open>C\<close>, by address, and outside of them the data
  \<open>D\<close>. \<open>datum h d k\<close>: the datum \<open>d\<close>, in a set or not, holds the key \<open>k\<close>. A datum that cannot be
  allocated ends the program with status -1.
\<close>

locale multisets =
  fixes models :: "'h \<Rightarrow> (ptr \<rightharpoonup> 'k multiset) \<Rightarrow> (ptr \<rightharpoonup> 'k) \<Rightarrow> bool"
    and datum :: "'h \<Rightarrow> ptr \<Rightarrow> 'k \<Rightarrow> bool"
    and create :: "ptr \<Rightarrow> 'h \<Rightarrow> (ptr \<times> 'h) option"
    and new :: "'k \<Rightarrow> 'h \<Rightarrow> (ptr \<times> 'h) outcome"
    and release :: "ptr \<Rightarrow> 'h \<Rightarrow> 'h option"
    and member :: "ptr \<Rightarrow> ptr \<Rightarrow> 'h \<Rightarrow> bool option"
    and add :: "ptr \<Rightarrow> ptr \<Rightarrow> 'h \<Rightarrow> 'h option"
    and card_of :: "ptr \<Rightarrow> 'h \<Rightarrow> int option"
    and remove :: "ptr \<Rightarrow> 'h \<Rightarrow> 'h option"
    and first_of :: "ptr \<Rightarrow> 'h \<Rightarrow> ptr option"
    and next_of :: "ptr \<Rightarrow> 'h \<Rightarrow> ptr option"
  assumes create: "models h C D \<Longrightarrow> s \<noteq> NULL \<Longrightarrow> s \<notin> dom C \<Longrightarrow>
      \<exists>h'. create s h = Some (s, h') \<and> models h' (C(s \<mapsto> {#})) D"
    and new: "models h C D \<Longrightarrow>
      ends_in {- 1} (\<lambda>(d, h'). d \<notin> dom D \<and> models h' C (D(d \<mapsto> k))) (new k h)"
    and release: "models h C D \<Longrightarrow> D d = Some k \<Longrightarrow>
      \<exists>h'. release d h = Some h' \<and> models h' C (D(d := None))"
    and add: "models h C D \<Longrightarrow> C s = Some M \<Longrightarrow> D d = Some k \<Longrightarrow> int (size M) < INT_MAX \<Longrightarrow>
      \<exists>h'. add s d h = Some h' \<and> models h' (C(s \<mapsto> add_mset k M)) (D(d := None))"
    and loose: "models h C D \<Longrightarrow> D d = Some k \<Longrightarrow> datum h d k"
    and member: "models h C D \<Longrightarrow> C s = Some M \<Longrightarrow> datum h d k \<Longrightarrow> member s d h = Some (k \<in># M)"
    and card_of: "models h C D \<Longrightarrow> C s = Some M \<Longrightarrow> card_of s h = Some (int (size M))"
    and remove: "models h C D \<Longrightarrow> C s = Some M \<Longrightarrow>
      \<exists>h'. remove s h = Some h' \<and> models h' (C(s := None)) D"
    and elements: "models h C D \<Longrightarrow> C s = Some M \<Longrightarrow> M \<noteq> {#} \<Longrightarrow>
      \<exists>ds ks. list_all2 (datum h) ds ks \<and> mset ks = M \<and> NULL \<notin> set ds \<and>
        first_of s h = Some (first_or_null ds) \<and>
        (\<forall>as d bs. ds = as @ d # bs \<longrightarrow> next_of d h = Some (first_or_null bs))"
begin

text \<open>A new datum for the key \<open>k\<close>, added to a set.\<close>

lemma push:
  assumes "models h C D" and "C s = Some M" and "int (size M) < INT_MAX"
  shows "ends_in {- 1} (\<lambda>h'. models h' (C(s \<mapsto> add_mset k M)) D)
    (continue (new k h) (\<lambda>(d, h). defined (add s d h)))"
proof (rule ends_in_continue_pair [OF new [OF assms(1)]])
  fix d h' assume "d \<notin> dom D \<and> models h' C (D(d \<mapsto> k))"
  then have d: "d \<notin> dom D" and m: "models h' C (D(d \<mapsto> k))" by simp_all
  obtain h'' where "add s d h' = Some h''" "models h'' (C(s \<mapsto> add_mset k M)) (D(d \<mapsto> k, d := None))"
    using add [OF m assms(2) _ assms(3), of d k] by auto
  moreover have "D(d \<mapsto> k, d := None) = D" using d by (auto simp: fun_upd_idem domIff)
  ultimately show "ends_in {- 1} (\<lambda>h'. models h' (C(s \<mapsto> add_mset k M)) D) (defined (add s d h'))"
    by simp
qed

text \<open>A new datum, added only when the set lacks its key and freed otherwise.\<close>

lemma push_new:
  assumes "models h C D" and "C s = Some M" and "int (size M) < INT_MAX"
  shows "ends_in {- 1} (\<lambda>h'. models h' (C(s \<mapsto> if k \<in># M then M else add_mset k M)) D)
    (continue (new k h) (\<lambda>(d, h). continue (defined (member s d h)) (\<lambda>there.
      if there then defined (release d h) else defined (add s d h))))"
proof (rule ends_in_continue_pair [OF new [OF assms(1)]])
  fix d h' assume "d \<notin> dom D \<and> models h' C (D(d \<mapsto> k))"
  then have d: "d \<notin> dom D" and m: "models h' C (D(d \<mapsto> k))" by simp_all
  have mem: "member s d h' = Some (k \<in># M)"
    using member [OF m assms(2) loose [OF m]] by simp
  have undone: "D(d \<mapsto> k, d := None) = D" using d by (auto simp: fun_upd_idem domIff)
  obtain h'' where "add s d h' = Some h''" "models h'' (C(s \<mapsto> add_mset k M)) D"
    using add [OF m assms(2) _ assms(3), of d k] undone by auto
  moreover obtain h3 where "release d h' = Some h3" "models h3 C D"
    using release [OF m, of d k] undone by auto
  ultimately show "ends_in {- 1} (\<lambda>h'. models h' (C(s \<mapsto> if k \<in># M then M else add_mset k M)) D)
      (continue (defined (member s d h')) (\<lambda>there.
        if there then defined (release d h') else defined (add s d h')))"
    using mem assms(2) by (simp add: fun_upd_idem del: fun_upd_apply)
qed

text \<open>Adding a list of keys.\<close>

lemma push_list:
  assumes "models h C D" and "C s = Some M" and "int (size M + length ks) \<le> INT_MAX"
  shows "ends_in {- 1} (\<lambda>h'. models h' (C(s \<mapsto> mset ks + M)) D)
    (for_all ks (\<lambda>k h. continue (new k h) (\<lambda>(d, h). defined (add s d h))) h)"
    (is "ends_in _ _ (for_all ks ?push h)")
proof -
  have "ends_in {- 1} (\<lambda>h'. models h' (C(s \<mapsto> mset ks + M)) D) (for_all ks ?push h)"
    if "models h (C(s \<mapsto> M)) D" "int (size M + length ks) \<le> INT_MAX" for M h
    using that
  proof (induction ks arbitrary: M h)
    case (Cons k ks)
    have "ends_in {- 1} (\<lambda>h'. models h' (C(s \<mapsto> add_mset k M)) D) (?push k h)"
      using push [OF Cons.prems(1), of s M k, unfolded fun_upd_upd] Cons.prems(2)
      by (simp del: fun_upd_apply add: fun_upd_same)
    moreover have "ends_in {- 1} (\<lambda>h'. models h' (C(s \<mapsto> mset (k # ks) + M)) D) (for_all ks ?push h')"
      if "models h' (C(s \<mapsto> add_mset k M)) D" for h'
      using Cons.IH [OF that] Cons.prems(2) by (simp del: fun_upd_apply)
    ultimately show ?case unfolding for_all.simps by (rule ends_in_continue)
  qed simp
  from this [of h M] assms show ?thesis by (simp add: fun_upd_idem)
qed

text \<open>Adding a list of keys without repetition leaves every key once.\<close>

lemma push_new_list:
  assumes "models h C D" and "C s = Some (mset_set A)" and "finite A"
    and "int (card A + length ks) \<le> INT_MAX"
  shows "ends_in {- 1} (\<lambda>h'. models h' (C(s \<mapsto> mset_set (A \<union> set ks))) D)
    (for_all ks (\<lambda>k h. continue (new k h) (\<lambda>(d, h). continue (defined (member s d h)) (\<lambda>there.
      if there then defined (release d h) else defined (add s d h)))) h)"
    (is "ends_in _ _ (for_all ks ?push h)")
proof -
  have "ends_in {- 1} (\<lambda>h'. models h' (C(s \<mapsto> mset_set (A \<union> set ks))) D) (for_all ks ?push h)"
    if "models h (C(s \<mapsto> mset_set A)) D" "finite A" "int (card A + length ks) \<le> INT_MAX" for A h
    using that
  proof (induction ks arbitrary: A h)
    case (Cons k ks)
    have ins: "(if k \<in># mset_set A then mset_set A else add_mset k (mset_set A)) = mset_set (insert k A)"
      using Cons.prems(2) by (simp add: insert_absorb)
    have "ends_in {- 1} (\<lambda>h'. models h' (C(s \<mapsto> mset_set (insert k A))) D) (?push k h)"
      using push_new [OF Cons.prems(1), of s "mset_set A" k, unfolded fun_upd_upd ins] Cons.prems(2,3)
      by (simp del: fun_upd_apply add: fun_upd_same)
    moreover have "card (insert k A) \<le> card A + 1"
      using Cons.prems(2) by (simp add: card_insert_if)
    then have "ends_in {- 1} (\<lambda>h'. models h' (C(s \<mapsto> mset_set (A \<union> set (k # ks)))) D) (for_all ks ?push h')"
      if "models h' (C(s \<mapsto> mset_set (insert k A))) D" for h'
      using Cons.IH [OF that] Cons.prems(2,3) by (simp del: fun_upd_apply)
    ultimately show ?case unfolding for_all.simps by (rule ends_in_continue)
  qed simp
  from this [of h A] assms show ?thesis by (simp add: fun_upd_idem)
qed

text \<open>A new datum that is only asked for and freed again.\<close>

lemma ask:
  assumes "models h C D"
    and "\<And>d h'. models h' C (D(d \<mapsto> k)) \<Longrightarrow> datum h' d k \<Longrightarrow> query d h' = Some a"
  shows "ends_in {- 1} (\<lambda>(r, h'). r = a \<and> models h' C D)
    (continue (new k h) (\<lambda>(d, h). continue (defined (query d h)) (\<lambda>r.
      continue (defined (release d h)) (\<lambda>h. Returns (r, h)))))"
proof (rule ends_in_continue_pair [OF new [OF assms(1)]])
  fix d h' assume "d \<notin> dom D \<and> models h' C (D(d \<mapsto> k))"
  then have d: "d \<notin> dom D" and m: "models h' C (D(d \<mapsto> k))" by simp_all
  have "query d h' = Some a" using assms(2) [OF m loose [OF m]] by simp
  moreover have "D(d \<mapsto> k, d := None) = D" using d by (auto simp: fun_upd_idem domIff)
  then obtain h3 where "release d h' = Some h3" "models h3 C D"
    using release [OF m, of d k] by auto
  ultimately show "ends_in {- 1} (\<lambda>(r, h'). r = a \<and> models h' C D)
      (continue (defined (query d h')) (\<lambda>r. continue (defined (release d h')) (\<lambda>h. Returns (r, h))))"
    by simp
qed

end

section \<open>The functions of \<open>simi.c\<close> provide it\<close>

text \<open>
  Every multiset is held by a tree of its own, no node is in two trees, and the data outside
  of the sets could be added to one.
\<close>

definition forest :: "heap \<Rightarrow> (ptr \<rightharpoonup> ptree) \<Rightarrow> (ptr \<rightharpoonup> u32 multiset) \<Rightarrow> bool" where
  "forest H F C \<longleftrightarrow> dom F = dom C \<and>
     (\<forall>s T. F s = Some T \<longrightarrow> holds H s T \<and> C s = Some (content H T)) \<and>
     (\<forall>s s' T U. s \<noteq> s' \<longrightarrow> F s = Some T \<longrightarrow> F s' = Some U \<longrightarrow> set (addrs T) \<inter> set (addrs U) = {})"

definition outside :: "heap \<Rightarrow> (ptr \<rightharpoonup> ptree) \<Rightarrow> (ptr \<rightharpoonup> u32) \<Rightarrow> bool" where
  "outside H F D \<longleftrightarrow> (\<forall>d k. D d = Some k \<longrightarrow> addable H d k \<and>
     (\<forall>s T. F s = Some T \<longrightarrow> node_of d \<notin> set (addrs T)))"

text \<open>No datum lies at an address whose node would be null or not aligned.\<close>

definition placed :: "heap \<Rightarrow> bool" where
  "placed H \<longleftrightarrow> (\<forall>d. vals H d \<noteq> None \<longrightarrow> okp (node_of d))"

definition models :: "heap \<Rightarrow> (ptr \<rightharpoonup> u32 multiset) \<Rightarrow> (ptr \<rightharpoonup> u32) \<Rightarrow> bool" where
  "models H C D \<longleftrightarrow> placed H \<and> (\<exists>F. forest H F C \<and> outside H F D)"

definition is_datum :: "heap \<Rightarrow> ptr \<Rightarrow> u32 \<Rightarrow> bool" where
  "is_datum H d k \<longleftrightarrow> d \<noteq> NULL \<and> vals H d = Some k"

lemma forestD:
  assumes "forest H F C" and "C s = Some M"
  obtains T where "F s = Some T" "holds H s T" "content H T = M"
proof -
  obtain T where T: "F s = Some T" using assms by (metis forest_def domD domI)
  then have "holds H s T" "content H T = M" using assms by (auto simp: forest_def)
  with T show ?thesis by (rule that)
qed

text \<open>
  A step that replaces the tree of the set \<open>s\<close>, or leaves all trees alone: the other trees have
  to survive, and the new one has to stay off their nodes.
\<close>

lemma forest_update:
  assumes "forest H F C" and "holds H' s T'" and "content H' T' = M"
    and "\<And>s' U. s' \<noteq> s \<Longrightarrow> F s' = Some U \<Longrightarrow> holds H s' U \<Longrightarrow>
      holds H' s' U \<and> content H' U = content H U \<and> set (addrs T') \<inter> set (addrs U) = {}"
  shows "forest H' (F(s \<mapsto> T')) (C(s \<mapsto> M))"
  unfolding forest_def
proof (intro conjI allI impI)
  show "dom (F(s \<mapsto> T')) = dom (C(s \<mapsto> M))" using assms(1) by (simp add: forest_def)
next
  fix s' U assume "(F(s \<mapsto> T')) s' = Some U"
  then show "holds H' s' U" "(C(s \<mapsto> M)) s' = Some (content H' U)"
    using assms by (cases "s' = s"; simp add: forest_def)+
next
  fix s1 s2 T1 T2 assume "s1 \<noteq> s2" "(F(s \<mapsto> T')) s1 = Some T1" "(F(s \<mapsto> T')) s2 = Some T2"
  then show "set (addrs T1) \<inter> set (addrs T2) = {}"
    using assms(1) assms(4) [of s1 T1] assms(4) [of s2 T2] unfolding forest_def
    by (cases "s1 = s"; cases "s2 = s") (auto simp: Int_commute)
qed

lemma forest_same:
  assumes "forest H F C"
    and "\<And>s' U. F s' = Some U \<Longrightarrow> holds H s' U \<Longrightarrow> holds H' s' U \<and> content H' U = content H U"
  shows "forest H' F C"
  using assms unfolding forest_def by metis

text \<open>Sets survive changes to the keys and nodes they do not use.\<close>

lemma holds_frame:
  assumes "holds H s T" and "get_set s H' = get_set s H"
    and "\<And>n. n \<in> set (addrs T) \<Longrightarrow> nodes H' n = nodes H n"
    and "\<And>n. n \<in> set (addrs T) \<Longrightarrow> vals H' (rb_entry n) = vals H (rb_entry n)"
  shows "holds H' s T \<and> content H' T = content H T"
proof -
  have k: "keys (vals H') T = keys (vals H) T" using assms(4) by (simp add: keys_def key_def)
  moreover have "has_key (vals H') n = has_key (vals H) n" if "n \<in> set (addrs T)" for n
    using assms(4) [OF that] by (simp add: has_key_def)
  moreover have "nodes_of NULL T \<subseteq>\<^sub>m nodes H'"
    using assms(1,3) by (simp add: holds_def tree_at_def map_le_def)
  ultimately show ?thesis
    using assms(1,2) by (auto simp: holds_def tree_at_def keyed_def set_size_def content_def)
qed

lemma holds_nodes: "holds H s T \<Longrightarrow> n \<in> set (addrs T) \<Longrightarrow> nodes H n \<noteq> None"
  using map_le_implies_dom_le [of "nodes_of NULL T" "nodes H"]
  by (auto simp: holds_def tree_at_def)

text \<open>Creating a set.\<close>

lemma models_create:
  assumes "models H C D" and "s \<noteq> NULL" and "s \<notin> dom C"
  shows "\<exists>H'. set_init s H = Some (s, H') \<and> models H' (C(s \<mapsto> {#})) D"
proof -
  obtain F where F: "forest H F C" "outside H F D" and pl: "placed H" using assms(1) unfolding models_def by blast
  let ?H = "H\<lparr>sets := (sets H)(s \<mapsto> \<lparr>so_root = NULL, so_size = 0\<rparr>)\<rparr>"
  have "holds ?H s Leaf"
    using assms(2) by (simp add: holds_def tree_at_def get_set_def set_size_def keyed_def keys_def rbt_def)
  then have "forest ?H (F(s \<mapsto> Leaf)) (C(s \<mapsto> {#}))"
    by (rule forest_update [OF F(1)]) (auto simp: content_def keys_def get_set_def intro: holds_frame [THEN conjunct1])
  moreover have "outside ?H (F(s \<mapsto> Leaf)) D"
    using F(2) by (auto simp: outside_def addable_def)
  ultimately show ?thesis using assms(2) pl unfolding models_def by (auto simp: set_init_def placed_def)
qed

text \<open>Allocating a datum.\<close>

lemma models_new:
  assumes "malloc_ok md" and "models H C D"
  shows "ends_in {- 1} (\<lambda>(d, H'). d \<notin> dom D \<and> models H' C (D(d \<mapsto> k))) (new_data md k H)"
proof -
  obtain F where F: "forest H F C" "outside H F D" and pl: "placed H" using assms(2) unfolding models_def by blast
  obtain d junk where md: "md H = (d, junk)" by fastforce
  let ?H = "H\<lparr>vals := (vals H)(d \<mapsto> k), nodes := (nodes H)(node_of d \<mapsto> junk)\<rparr>"
  show ?thesis
  proof (cases "d = NULL")
    case True
    then show ?thesis by (simp add: new_data_def md data_init_def)
  next
    case False
    then have d: "okp (node_of d)" "vals H d = None" "nodes H (node_of d) = None"
      using assms(1) md unfolding malloc_ok_def by (metis fst_conv)+
    have off: "node_of d \<notin> set (addrs T)" if "F s = Some T" for s T
      using F(1) that holds_nodes d(3) unfolding forest_def by metis
    have fresh: "d \<notin> dom D" using F(2) d(2) by (auto simp: outside_def addable_def)
    have "forest ?H F C"
    proof (rule forest_same [OF F(1)])
      fix s T assume T: "F s = Some T" "holds H s T"
      have "n \<noteq> node_of d \<and> rb_entry n \<noteq> d" if "n \<in> set (addrs T)" for n
        using off [OF T(1)] that by force
      then show "holds ?H s T \<and> content ?H T = content H T"
        by (intro holds_frame [OF T(2)]) (auto simp: get_set_def)
    qed
    moreover have "outside ?H F (D(d \<mapsto> k))"
      using F(2) d False off by (auto simp: outside_def addable_def)
    ultimately show ?thesis
      using False fresh pl d(1) unfolding models_def by (auto simp: new_data_def md data_init_def placed_def)
  qed
qed

text \<open>Freeing a datum that is in no set.\<close>

lemma models_release:
  assumes "models H C D" and "D d = Some k"
  shows "\<exists>H'. data_free d H = Some H' \<and> models H' C (D(d := None))"
proof -
  obtain F where F: "forest H F C" "outside H F D" and pl: "placed H" using assms(1) unfolding models_def by blast
  let ?H = "H\<lparr>vals := (vals H)(d := None), nodes := (nodes H)(node_of d := None)\<rparr>"
  have d: "addable H d k" and off: "\<And>s T. F s = Some T \<Longrightarrow> node_of d \<notin> set (addrs T)"
    using F(2) assms(2) by (auto simp: outside_def)
  have "forest ?H F C"
  proof (rule forest_same [OF F(1)])
    fix s T assume T: "F s = Some T" "holds H s T"
    have "n \<noteq> node_of d \<and> rb_entry n \<noteq> d" if "n \<in> set (addrs T)" for n
      using off [OF T(1)] that by force
    then show "holds ?H s T \<and> content ?H T = content H T"
      by (intro holds_frame [OF T(2)]) (auto simp: get_set_def)
  qed
  moreover have "outside ?H F (D(d := None))"
    using F(2) by (auto simp: outside_def addable_def node_of_def)
  ultimately show ?thesis
    using d pl unfolding models_def by (auto simp: data_free_def addable_def placed_def)
qed

text \<open>Adding a datum to a set.\<close>

lemma models_add:
  assumes "models H C D" and "C s = Some M" and "D d = Some k" and "int (size M) < INT_MAX"
  shows "\<exists>H'. set_add s d H = Some H' \<and> models H' (C(s \<mapsto> add_mset k M)) (D(d := None))"
proof -
  obtain F where F: "forest H F C" "outside H F D" and pl: "placed H" using assms(1) unfolding models_def by blast
  obtain T where T: "F s = Some T" "holds H s T" "content H T = M" using forestD [OF F(1) assms(2)] .
  have d: "addable H d k" and off: "\<And>s T. F s = Some T \<Longrightarrow> node_of d \<notin> set (addrs T)"
    using F(2) assms(3) by (auto simp: outside_def)
  have "int (length (addrs T)) < INT_MAX" using assms(4) T(3) size_content [of H T] by simp
  then obtain T' as bs where T': "set_add s d H = Some (store H s T')" "holds (store H s T') s T'"
    "addrs T = as @ bs" "addrs T' = as @ node_of d # bs"
    using set_add_at [OF T(2) d off [OF T(1)]] by metis
  have vs: "vals (store H s T') = vals H" by (simp add: store_def)
  have "key (vals H) (node_of d) = k" using d by (simp add: key_def addable_def)
  then have cT': "content (store H s T') T' = add_mset k M"
    using T'(3,4) vs T(3) by (simp add: content_def keys_def)
  have "forest (store H s T') (F(s \<mapsto> T')) (C(s \<mapsto> add_mset k M))"
  proof (rule forest_update [OF F(1) T'(2) cT'])
    fix s' U assume U: "s' \<noteq> s" "F s' = Some U" "holds H s' U"
    have "set (addrs T) \<inter> set (addrs U) = {}" using F(1) T(1) U(1,2) unfolding forest_def by metis
    then have "set (addrs U) \<inter> set (addrs T') = {}" using T'(3,4) off [OF U(2)] by auto
    then show "holds (store H s T') s' U \<and> content (store H s T') U = content H U \<and>
        set (addrs T') \<inter> set (addrs U) = {}"
      using holds_store_other [OF U(3,1)] vs by (auto simp: content_def)
  qed
  moreover have "outside (store H s T') (F(s \<mapsto> T')) (D(d := None))"
    unfolding outside_def
  proof (intro allI impI conjI)
    fix d' k' assume "(D(d := None)) d' = Some k'"
    then have d': "d' \<noteq> d" "D d' = Some k'" by (simp_all split: if_splits)
    then have add': "addable H d' k'" "\<And>s T. F s = Some T \<Longrightarrow> node_of d' \<notin> set (addrs T)"
      using F(2) by (auto simp: outside_def)
    have "node_of d' \<notin> set (addrs T')"
      using add'(2) [OF T(1)] d'(1) T'(3,4) by (auto simp: node_of_def)
    then show "addable (store H s T') d' k'" "(F(s \<mapsto> T')) s2 = Some U \<Longrightarrow> node_of d' \<notin> set (addrs U)" for s2 U
      using add' by (auto simp: addable_def store_def split: if_splits)
  qed
  moreover have "placed (store H s T')" using pl by (simp add: placed_def store_def)
  ultimately show ?thesis using T'(1) unfolding models_def by blast
qed

text \<open>Asking, counting, freeing.\<close>

lemma models_member:
  assumes "models H C D" and "C s = Some M" and "is_datum H d k"
  shows "set_in s d H = Some (k \<in># M)"
proof -
  obtain F where F: "forest H F C" using assms(1) unfolding models_def by blast
  obtain T where T: "holds H s T" "content H T = M" using forestD [OF F assms(2)] .
  then show ?thesis
    using set_in_at [of H s T d k] assms(3) set_mset_content [of H T] by (auto simp: holds_def is_datum_def)
qed

lemma models_size: "models H C D \<Longrightarrow> C s = Some M \<Longrightarrow> set_size s H = Some (int (size M))"
  unfolding models_def by (metis forestD holds_def size_content)

lemma models_found_in:
  assumes "models H C D" and "C a = Some M" and "C b = Some N" and "int (size M) \<le> INT_MAX"
  shows "set_found_in a b H = Some (int (size (filter_mset (\<lambda>k. k \<in># N) M)))"
proof -
  obtain F where F: "forest H F C" using assms(1) unfolding models_def by blast
  obtain T where T: "holds H a T" "content H T = M" using forestD [OF F assms(2)] .
  obtain U where U: "holds H b U" "content H U = N" using forestD [OF F assms(3)] .
  have "int (length (addrs T)) \<le> INT_MAX" using assms(4) T(2) size_content [of H T] by simp
  then have "set_found_in a b H
      = Some (count_of (\<lambda>n. key (vals H) n \<in> set (keys (vals H) U)) (addrs T))"
    using set_found_in_at T(1) U(1) by (simp add: holds_def)
  moreover have "size (filter_mset (\<lambda>k. k \<in># N) M)
      = length (filter (\<lambda>n. key (vals H) n \<in> set (keys (vals H) U)) (addrs T))"
    using set_mset_content [of H U]
    by (simp add: T(2) [symmetric] U(2) [symmetric] content_def keys_def filter_map comp_def
        del: mset_map mset_filter flip: mset_filter)
  ultimately show ?thesis by (simp add: count_of_def)
qed

lemma models_free:
  assumes "models H C D" and "C s = Some M"
  shows "\<exists>H'. set_free s H = Some H' \<and> models H' (C(s := None)) D"
proof -
  obtain F where F: "forest H F C" "outside H F D" and pl: "placed H" using assms(1) unfolding models_def by blast
  obtain T where T: "F s = Some T" "holds H s T" using forestD [OF F(1) assms(2)] .
  let ?H = "dispose H s (addrs T)"
  have other: "holds ?H s' U \<and> content ?H U = content H U" if U: "s' \<noteq> s" "F s' = Some U" for s' U
  proof -
    have hU: "holds H s' U" and dis: "set (addrs U) \<inter> set (addrs T) = {}"
      using F(1) T(1) U unfolding forest_def by metis+
    have "key (vals ?H) n = key (vals H) n" if "n \<in> set (addrs U)" for n
      using that dis by (auto simp: dispose_def key_def restrict_map_def)
    then show ?thesis
      using holds_dispose_other [OF hU U(1) dis] by (simp add: content_def keys_def cong: map_cong del: mset_map)
  qed
  have "forest ?H (F(s := None)) (C(s := None))"
    using F(1) other unfolding forest_def by (auto simp: disjoint_iff)
  moreover have "outside ?H (F(s := None)) D"
    unfolding outside_def
  proof (intro allI impI conjI)
    fix d k assume "D d = Some k"
    then have d: "addable H d k" "\<And>s T. F s = Some T \<Longrightarrow> node_of d \<notin> set (addrs T)"
      using F(2) by (auto simp: outside_def)
    then have "d \<notin> rb_entry ` set (addrs T)" using T(1) by force
    with d T(1) show "addable ?H d k" by (simp add: addable_def dispose_def)
    show "node_of d \<notin> set (addrs U)" if "(F(s := None)) s' = Some U" for s' U
      using d(2) that by (simp split: if_splits)
  qed
  moreover have "placed ?H" using pl by (auto simp: placed_def dispose_def restrict_map_def)
  ultimately show ?thesis
    using set_free_at T(2) unfolding models_def holds_def by blast
qed

text \<open>Walking over a set that is not empty.\<close>

lemma models_sorted_elements:
  assumes "models H C D" and "C s = Some M" and "M \<noteq> {#}"
  shows "\<exists>ds ks. list_all2 (is_datum H) ds ks \<and> mset ks = M \<and> sorted ks \<and> NULL \<notin> set ds \<and>
    set_first s H = Some (first_or_null ds) \<and>
    (\<forall>as d bs. ds = as @ d # bs \<longrightarrow> set_next d H = Some (first_or_null bs))"
proof -
  obtain F where F: "forest H F C" using assms(1) unfolding models_def by blast
  obtain T where T: "holds H s T" "content H T = M" using forestD [OF F assms(2)] .
  then have at: "tree_at H s T \<and> T \<noteq> Leaf"
    using assms(3) by (auto simp: holds_def content_def keys_def)
  have "has_key (vals H) n" if "n \<in> set (addrs T)" for n using tree_atD(5) at that by blast
  then have "list_all2 (is_datum H) (map rb_entry (addrs T)) (keys (vals H) T)"
    by (auto simp: list_all2_map1 list_all2_map2 list_all2_same keys_def is_datum_def key_def has_key_def)
  moreover have "mset (keys (vals H) T) = M" using T(2) by (simp add: content_def)
  moreover have "sorted (keys (vals H) T)" using tree_atD(4) at by blast
  moreover have "NULL \<notin> set (map rb_entry (addrs T))"
    "set_first s H = Some (first_or_null (map rb_entry (addrs T)))"
    "\<forall>as d bs. map rb_entry (addrs T) = as @ d # bs \<longrightarrow> set_next d H = Some (first_or_null bs)"
    using data.item_nonnull [of "(H, s, T)"] data.first_item [of "(H, s, T)"]
      data.next_item [of "(H, s, T)"] at by auto
  ultimately show ?thesis by blast
qed

lemma models_elements:
  assumes "models H C D" and "C s = Some M" and "M \<noteq> {#}"
  shows "\<exists>ds ks. list_all2 (is_datum H) ds ks \<and> mset ks = M \<and> NULL \<notin> set ds \<and>
    set_first s H = Some (first_or_null ds) \<and>
    (\<forall>as d bs. ds = as @ d # bs \<longrightarrow> set_next d H = Some (first_or_null bs))"
  using models_sorted_elements [OF assms] by (elim exE conjE) (intro exI conjI)

text \<open>On an empty set, \<open>set_first\<close> returns an address no datum can have.\<close>

lemma models_first_empty:
  assumes "models H C D" and "C s = Some {#}"
  shows "set_first s H = Some (rb_entry NULL)" "set_in s' (rb_entry NULL) H = None"
proof -
  obtain F where F: "forest H F C" and pl: "placed H" using assms(1) unfolding models_def by blast
  obtain T where T: "holds H s T" "content H T = {#}" using forestD [OF F assms(2)] .
  then have "addrs T = []" by (simp add: content_def keys_def)
  then show "set_first s H = Some (rb_entry NULL)"
    using set_first_at [of H s T] T(1) by (simp add: holds_def)
  have "vals H (rb_entry NULL) = None"
    using pl unfolding placed_def by (metis okp_def rb_entry_node_of(2))
  then show "set_in s' (rb_entry NULL) H = None"
    by (simp add: set_in_def get_v_def)
qed

text \<open>An allocator that keeps its promise makes the functions of \<open>simi.c\<close> an instance.\<close>

locale data_malloc =
  fixes md :: "heap \<Rightarrow> ptr \<times> rb_node"
  assumes malloc: "malloc_ok md"

sublocale data_malloc \<subseteq> simi: multisets models is_datum set_init "new_data md" data_free set_in set_add
  set_size set_free set_first set_next
proof (unfold_locales, goal_cases)
  case (2 h C D k) then show ?case by (rule models_new [OF malloc])
next
  case (5 h C D d k) then show ?case
    by (auto simp: models_def outside_def addable_def is_datum_def)
qed (blast intro: models_create models_release models_add models_member models_size models_free models_elements)+

text \<open>An allocator to run the functions with: the first free block of a small pool.\<close>

definition pool_node :: rb_node where
  "pool_node = \<lparr>rb_parent_color = 0, rb_right = NULL, rb_left = NULL\<rparr>"

definition pool_alloc :: "heap \<Rightarrow> ptr \<times> rb_node" where
  "pool_alloc H =
     (case filter (\<lambda>d. vals H d = None \<and> nodes H (node_of d) = None) (map (\<lambda>i. 64 * of_nat i) [1..<17]) of
        [] \<Rightarrow> (NULL, pool_node) | d # ds \<Rightarrow> (d, pool_node))"

lemma pool_addresses: "list_all (\<lambda>d. okp (node_of d)) (map (\<lambda>i. 64 * of_nat i) [1..<17])"
  by (simp add: upt_rec node_of_def okp_def aligned_def)

interpretation pool: data_malloc pool_alloc
proof
  have "okp (node_of d) \<and> P d" if "filter P (map (\<lambda>i. 64 * of_nat i) [1..<17]) = d # ds" for P d ds
  proof -
    have "d \<in> set (filter P (map (\<lambda>i. 64 * of_nat i) [1..<17]))" by (simp only: that) simp
    then show ?thesis using pool_addresses by (simp only: list_all_iff set_filter) blast
  qed
  then show "malloc_ok pool_alloc"
    unfolding malloc_ok_def pool_alloc_def by (auto split: list.split )
qed

end
