(* ===== verification/Simi_Calls.thy ===== *)
theory Simi_Calls
  imports Multisets
begin

text \<open>
  The functions of \<open>simi.h\<close> as a state machine: a client that frees and adds only what it owns can
  call them in any order, on any number of sets.
\<close>

section \<open>Calls\<close>

datatype call = Init ptr | New u32 | Drop ptr | Add ptr ptr | Ask ptr ptr | Count ptr | Free ptr

text \<open>The heap with what the client owns: its sets and its data that are in no set.\<close>

record client =
  cl_heap :: heap
  cl_sets :: "ptr set"
  cl_data :: "ptr set"

text \<open>
  What the client has to respect: \<open>malloc\<close> returns a block that is not in use for a new set, a
  datum is added or freed while it is in no set, and a set below the largest \<open>int\<close> grows.
\<close>

fun allowed :: "call \<Rightarrow> client \<Rightarrow> bool" where
  "allowed (Init b) cl = (b \<noteq> NULL \<and> b \<notin> cl_sets cl)"
| "allowed (New v) cl = True"
| "allowed (Drop d) cl = (d \<in> cl_data cl)"
| "allowed (Add s d) cl = (s \<in> cl_sets cl \<and> d \<in> cl_data cl \<and>
     (case set_size s (cl_heap cl) of None \<Rightarrow> True | Some n \<Rightarrow> n < INT_MAX))"
| "allowed (Ask s d) cl = (s \<in> cl_sets cl \<and> d \<in> cl_data cl)"
| "allowed (Count s) cl = (s \<in> cl_sets cl)"
| "allowed (Free s) cl = (s \<in> cl_sets cl)"

fun run :: "(heap \<Rightarrow> ptr \<times> rb_node) \<Rightarrow> call \<Rightarrow> client \<Rightarrow> client outcome" where
  "run md (Init b) cl = continue (defined (set_init b (cl_heap cl))) (\<lambda>(s, H).
     Returns (cl\<lparr>cl_heap := H, cl_sets := insert s (cl_sets cl)\<rparr>))"
| "run md (New v) cl = continue (new_data md v (cl_heap cl)) (\<lambda>(d, H).
     Returns (cl\<lparr>cl_heap := H, cl_data := insert d (cl_data cl)\<rparr>))"
| "run md (Drop d) cl = continue (defined (data_free d (cl_heap cl))) (\<lambda>H.
     Returns (cl\<lparr>cl_heap := H, cl_data := cl_data cl - {d}\<rparr>))"
| "run md (Add s d) cl = continue (defined (set_add s d (cl_heap cl))) (\<lambda>H.
     Returns (cl\<lparr>cl_heap := H, cl_data := cl_data cl - {d}\<rparr>))"
| "run md (Ask s d) cl = continue (defined (set_in s d (cl_heap cl))) (\<lambda>there. Returns cl)"
| "run md (Count s) cl = continue (defined (set_size s (cl_heap cl))) (\<lambda>n. Returns cl)"
| "run md (Free s) cl = continue (defined (set_free s (cl_heap cl))) (\<lambda>H.
     Returns (cl\<lparr>cl_heap := H, cl_sets := cl_sets cl - {s}\<rparr>))"

definition start :: client where
  "start = \<lparr>cl_heap = \<lparr>nodes = Map.empty, vals = Map.empty, sets = Map.empty\<rparr>, cl_sets = {}, cl_data = {}\<rparr>"

inductive reachable :: "(heap \<Rightarrow> ptr \<times> rb_node) \<Rightarrow> client \<Rightarrow> bool" for md where
  begins: "reachable md start"
| calls: "reachable md cl \<Longrightarrow> allowed c cl \<Longrightarrow> run md c cl = Returns cl' \<Longrightarrow> reachable md cl'"

section \<open>The invariant\<close>

definition owned :: "client \<Rightarrow> bool" where
  "owned cl \<longleftrightarrow> (\<exists>C D. models (cl_heap cl) C D \<and> dom C = cl_sets cl \<and> dom D = cl_data cl)"

lemma owned_start: "owned start"
  by (auto simp: owned_def start_def models_def forest_def outside_def placed_def intro!: exI [of _ Map.empty])

lemma ownedI:
  "models H C D \<Longrightarrow> dom C = S \<Longrightarrow> dom D = L \<Longrightarrow> owned \<lparr>cl_heap = H, cl_sets = S, cl_data = L\<rparr>"
  by (auto simp: owned_def)

context data_malloc
begin

text \<open>Every allowed call is defined and keeps the invariant.\<close>

lemma run_owned:
  assumes "owned cl" and "allowed c cl"
  shows "ends_in {- 1} owned (run md c cl)"
proof -
  obtain H C D where m: "models H C D" and cl: "cl = \<lparr>cl_heap = H, cl_sets = dom C, cl_data = dom D\<rparr>"
    using assms(1) by (cases cl) (auto simp: owned_def)
  show ?thesis
  proof (cases c)
    case (Init b)
    then obtain H' where "set_init b H = Some (b, H')" "models H' (C(b \<mapsto> {#})) D"
      using assms(2) simi.create [OF m, of b] by (auto simp: cl)
    with Init show ?thesis by (simp add: cl ownedI)
  next
    case (New v)
    have "ends_in {- 1} owned (continue (new_data md v H) (\<lambda>(d, H).
        Returns \<lparr>cl_heap = H, cl_sets = dom C, cl_data = insert d (dom D)\<rparr>))"
      by (rule ends_in_continue_pair [OF simi.new [OF m, of v]]) (auto intro: ownedI [of _ C "D(d \<mapsto> v)" for d])
    with New show ?thesis by (simp add: cl)
  next
    case (Drop d)
    then obtain k where "D d = Some k" using assms(2) by (auto simp: cl)
    then obtain H' where "data_free d H = Some H'" "models H' C (D(d := None))"
      using simi.release [OF m] by blast
    with Drop show ?thesis by (simp add: cl ownedI)
  next
    case (Add s d)
    then obtain k M where k: "D d = Some k" "C s = Some M" using assms(2) by (auto simp: cl)
    then have "int (size M) < INT_MAX" using assms(2) Add simi.card_of [OF m k(2)] by (simp add: cl)
    then obtain H' where H': "set_add s d H = Some H'" "models H' (C(s \<mapsto> add_mset k M)) (D(d := None))"
      using simi.add [OF m k(2,1)] by blast
    have "dom (C(s \<mapsto> add_mset k M)) = dom C" using k(2) by auto
    with Add H'(1) show ?thesis by (simp add: cl ownedI [OF H'(2)])
  next
    case (Ask s d)
    then obtain k M where k: "D d = Some k" "C s = Some M" using assms(2) by (auto simp: cl)
    with Ask show ?thesis using simi.member [OF m k(2) simi.loose [OF m k(1)]] assms(1) by (simp add: cl)
  next
    case (Count s)
    then obtain M where "C s = Some M" using assms(2) by (auto simp: cl)
    with Count show ?thesis using simi.card_of [OF m] assms(1) by (simp add: cl)
  next
    case (Free s)
    then obtain M where "C s = Some M" using assms(2) by (auto simp: cl)
    then obtain H' where "set_free s H = Some H'" "models H' (C(s := None)) D"
      using simi.remove [OF m] by blast
    with Free show ?thesis by (simp add: cl ownedI)
  qed
qed

lemma reachable_owned: "reachable md cl \<Longrightarrow> owned cl"
proof (induction rule: reachable.induct)
  case begins
  then show ?case by (rule owned_start)
next
  case (calls cl c cl')
  then show ?case using run_owned [of cl c] by simp
qed

end

section \<open>Safety\<close>


text \<open>A set and a datum on their way, then one more call.\<close>

lemma sample_reachable: "\<exists>cl. reachable pool_alloc cl \<and> cl_sets cl = {4096} \<and> cl_data cl = {}"
proof -
  let ?cl = "start\<lparr>cl_heap := \<lparr>nodes = Map.empty, vals = Map.empty,
      sets = [4096 \<mapsto> \<lparr>so_root = NULL, so_size = 0\<rparr>]\<rparr>, cl_sets := {4096}\<rparr>"
  have "run pool_alloc (Init 4096) start = Returns ?cl"
    by (simp add: start_def set_init_def)
  moreover have "allowed (Init 4096) start" by (simp add: start_def)
  ultimately have "reachable pool_alloc ?cl" using reachable.intros by blast
  then show ?thesis by (intro exI [of _ ?cl]) (simp add: start_def)
qed


end
