(* ===== verification/Page_Flags.thy ===== *)
theory Page_Flags
  imports Format
begin

unbundle bit_operations_syntax

text \<open>
  Page flags and pagemap entries of \<open>mem.c\<close>: the stable flag bits, the flag letters
  \<open>page_flag_name\<close> prints, the overloading \<open>kpageflags_flags\<close> undoes, and the fields of a
  64-bit pagemap entry.
\<close>

section \<open>Pagemap entries\<close>

definition PM_PFRAME_BITS :: nat where "PM_PFRAME_BITS = 55"
definition PM_PFRAME_MASK :: u64 where "PM_PFRAME_MASK = push_bit PM_PFRAME_BITS 1 - 1"
definition PM_PFRAME :: "u64 \<Rightarrow> u64" where "PM_PFRAME x = x AND PM_PFRAME_MASK"
definition MAX_SWAPFILES_SHIFT :: nat where "MAX_SWAPFILES_SHIFT = 5"
definition PM_SWAP_OFFSET :: "u64 \<Rightarrow> u64" where
  "PM_SWAP_OFFSET x = drop_bit MAX_SWAPFILES_SHIFT (x AND PM_PFRAME_MASK)"
definition PM_SOFT_DIRTY :: u64 where "PM_SOFT_DIRTY = push_bit 55 1"
definition PM_MMAP_EXCLUSIVE :: u64 where "PM_MMAP_EXCLUSIVE = push_bit 56 1"
definition PM_FILE :: u64 where "PM_FILE = push_bit 61 1"
definition PM_SWAP :: u64 where "PM_SWAP = push_bit 62 1"
definition PM_PRESENT :: u64 where "PM_PRESENT = push_bit 63 1"

definition pagemap_pfn :: "u64 \<Rightarrow> u64" where
  "pagemap_pfn val = (if val AND PM_PRESENT \<noteq> 0 then PM_PFRAME val else 0)"

definition pagemap_swap_offset :: "u64 \<Rightarrow> u64" where
  "pagemap_swap_offset val = (if val AND PM_SWAP \<noteq> 0 then PM_SWAP_OFFSET val else 0)"

section \<open>Flag bits\<close>

definition KPF_LOCKED :: nat where "KPF_LOCKED = 0"
definition KPF_ERROR :: nat where "KPF_ERROR = 1"
definition KPF_REFERENCED :: nat where "KPF_REFERENCED = 2"
definition KPF_UPTODATE :: nat where "KPF_UPTODATE = 3"
definition KPF_DIRTY :: nat where "KPF_DIRTY = 4"
definition KPF_LRU :: nat where "KPF_LRU = 5"
definition KPF_ACTIVE :: nat where "KPF_ACTIVE = 6"
definition KPF_SLAB :: nat where "KPF_SLAB = 7"
definition KPF_WRITEBACK :: nat where "KPF_WRITEBACK = 8"
definition KPF_RECLAIM :: nat where "KPF_RECLAIM = 9"
definition KPF_BUDDY :: nat where "KPF_BUDDY = 10"
definition KPF_MMAP :: nat where "KPF_MMAP = 11"
definition KPF_ANON :: nat where "KPF_ANON = 12"
definition KPF_SWAPCACHE :: nat where "KPF_SWAPCACHE = 13"
definition KPF_SWAPBACKED :: nat where "KPF_SWAPBACKED = 14"
definition KPF_COMPOUND_HEAD :: nat where "KPF_COMPOUND_HEAD = 15"
definition KPF_COMPOUND_TAIL :: nat where "KPF_COMPOUND_TAIL = 16"
definition KPF_HUGE :: nat where "KPF_HUGE = 17"
definition KPF_UNEVICTABLE :: nat where "KPF_UNEVICTABLE = 18"
definition KPF_HWPOISON :: nat where "KPF_HWPOISON = 19"
definition KPF_NOPAGE :: nat where "KPF_NOPAGE = 20"
definition KPF_KSM :: nat where "KPF_KSM = 21"
definition KPF_THP :: nat where "KPF_THP = 22"
definition KPF_BALLOON :: nat where "KPF_BALLOON = 23"
definition KPF_ZERO_PAGE :: nat where "KPF_ZERO_PAGE = 24"
definition KPF_IDLE :: nat where "KPF_IDLE = 25"
definition KPF_PGTABLE :: nat where "KPF_PGTABLE = 26"
definition KPF_RESERVED :: nat where "KPF_RESERVED = 32"
definition KPF_MLOCKED :: nat where "KPF_MLOCKED = 33"
definition KPF_MAPPEDTODISK :: nat where "KPF_MAPPEDTODISK = 34"
definition KPF_PRIVATE :: nat where "KPF_PRIVATE = 35"
definition KPF_PRIVATE_2 :: nat where "KPF_PRIVATE_2 = 36"
definition KPF_OWNER_PRIVATE :: nat where "KPF_OWNER_PRIVATE = 37"
definition KPF_ARCH :: nat where "KPF_ARCH = 38"
definition KPF_UNCACHED :: nat where "KPF_UNCACHED = 39"
definition KPF_SOFTDIRTY :: nat where "KPF_SOFTDIRTY = 40"
definition KPF_READAHEAD :: nat where "KPF_READAHEAD = 48"
definition KPF_SLOB_FREE :: nat where "KPF_SLOB_FREE = 49"
definition KPF_SLUB_FROZEN :: nat where "KPF_SLUB_FROZEN = 50"
definition KPF_SLUB_DEBUG :: nat where "KPF_SLUB_DEBUG = 51"
definition KPF_FILE :: nat where "KPF_FILE = 61"
definition KPF_SWAP :: nat where "KPF_SWAP = 62"
definition KPF_MMAP_EXCLUSIVE :: nat where "KPF_MMAP_EXCLUSIVE = 63"

definition BIT :: "nat \<Rightarrow> u64" where
  "BIT k = push_bit k 1"

text \<open>
  SLOB and SLUB overload flags of slab pages, and reclaim without writeback means readahead;
  the overloaded bit is exchanged for one of its own by an exclusive or.
\<close>

definition kpageflags_flags :: "u64 \<Rightarrow> u64 \<Rightarrow> u64" where
  "kpageflags_flags flags pme =
     (let flags =
            (if flags AND BIT KPF_SLAB \<noteq> 0 then
               let flags = (if flags AND BIT KPF_PRIVATE \<noteq> 0
                            then flags XOR (BIT KPF_PRIVATE OR BIT KPF_SLOB_FREE) else flags);
                   flags = (if flags AND BIT KPF_ACTIVE \<noteq> 0
                            then flags XOR (BIT KPF_ACTIVE OR BIT KPF_SLUB_FROZEN) else flags)
               in (if flags AND BIT KPF_ERROR \<noteq> 0
                   then flags XOR (BIT KPF_ERROR OR BIT KPF_SLUB_DEBUG) else flags)
             else flags);
          flags = (if flags AND (BIT KPF_RECLAIM OR BIT KPF_WRITEBACK) = BIT KPF_RECLAIM
                   then flags XOR (BIT KPF_RECLAIM OR BIT KPF_READAHEAD) else flags);
          flags = (if pme AND PM_SOFT_DIRTY \<noteq> 0 then flags OR BIT KPF_SOFTDIRTY else flags);
          flags = (if pme AND PM_FILE \<noteq> 0 then flags OR BIT KPF_FILE else flags);
          flags = (if pme AND PM_SWAP \<noteq> 0 then flags OR BIT KPF_SWAP else flags);
          flags = (if pme AND PM_MMAP_EXCLUSIVE \<noteq> 0 then flags OR BIT KPF_MMAP_EXCLUSIVE else flags)
      in flags)"

section \<open>Flag letters\<close>

text \<open>The array \<open>page_flag_names\<close>: 64 entries, null where no flag is named.\<close>

definition flag_table :: "(nat \<times> string) list" where
  "flag_table =
    [(KPF_LOCKED, ''L:locked''), (KPF_ERROR, ''E:error''), (KPF_REFERENCED, ''R:referenced''),
     (KPF_UPTODATE, ''U:uptodate''), (KPF_DIRTY, ''D:dirty''), (KPF_LRU, ''l:lru''),
     (KPF_ACTIVE, ''A:active''), (KPF_SLAB, ''S:slab''), (KPF_WRITEBACK, ''W:writeback''),
     (KPF_RECLAIM, ''I:reclaim''), (KPF_BUDDY, ''B:buddy''), (KPF_MMAP, ''M:mmap''),
     (KPF_ANON, ''a:anonymous''), (KPF_SWAPCACHE, ''s:swapcache''), (KPF_SWAPBACKED, ''b:swapbacked''),
     (KPF_COMPOUND_HEAD, ''H:compound_head''), (KPF_COMPOUND_TAIL, ''T:compound_tail''), (KPF_HUGE, ''G:huge''),
     (KPF_UNEVICTABLE, ''u:unevictable''), (KPF_HWPOISON, ''X:hwpoison''), (KPF_NOPAGE, ''n:nopage''),
     (KPF_KSM, ''x:ksm''), (KPF_THP, ''t:thp''), (KPF_BALLOON, ''o:balloon''),
     (KPF_ZERO_PAGE, ''z:zero_page''), (KPF_IDLE, ''i:idle_page''), (KPF_PGTABLE, ''g:pgtable''),
     (KPF_RESERVED, ''r:reserved''), (KPF_MLOCKED, ''m:mlocked''), (KPF_MAPPEDTODISK, ''d:mappedtodisk''),
     (KPF_PRIVATE, ''P:private''), (KPF_PRIVATE_2, ''p:private_2''), (KPF_OWNER_PRIVATE, ''O:owner_private''),
     (KPF_ARCH, ''h:arch''), (KPF_UNCACHED, ''c:uncached''), (KPF_SOFTDIRTY, ''f:softdirty''),
     (KPF_READAHEAD, ''I:readahead''), (KPF_SLOB_FREE, ''P:slob_free''), (KPF_SLUB_FROZEN, ''A:slub_frozen''),
     (KPF_SLUB_DEBUG, ''E:slub_debug''), (KPF_FILE, ''F:file''), (KPF_SWAP, ''w:swap''),
     (KPF_MMAP_EXCLUSIVE, ''1:mmap_exclusive'')]"

definition page_flag_names :: "string option list" where
  "page_flag_names = map (map_of flag_table) [0..<64]"

text \<open>
  The loop over the array; \<open>Inl\<close> is the exit status. The letters fill the front of a buffer
  that holds zeros, the same number of them in every call, so the buffer is the string.
\<close>

fun page_flag_loop :: "u64 \<Rightarrow> nat \<Rightarrow> string option list \<Rightarrow> string \<Rightarrow> int + string" where
  "page_flag_loop flags i [] buf = Inr buf"
| "page_flag_loop flags i (entry # entries) buf =
     (let present = (drop_bit i flags AND 1 \<noteq> 0) in
      case entry of
        None \<Rightarrow> if present then Inl 1 else page_flag_loop flags (Suc i) entries buf
      | Some nm \<Rightarrow>
          page_flag_loop flags (Suc i) entries (buf @ [if present then hd nm else CHR ''-'']))"

definition page_flag_name :: "u64 \<Rightarrow> int + string" where
  "page_flag_name flags = page_flag_loop flags 0 page_flag_names []"

text \<open>The line \<open>show_page\<close> prints: \<open>%ld %lx %lx \t%s\n\<close>.\<close>

definition show_page :: "u64 \<Rightarrow> u64 \<Rightarrow> u64 \<Rightarrow> u64 \<Rightarrow> int + string" where
  "show_page voffset offset flags cnt =
     (case page_flag_name flags of
        Inl e \<Rightarrow> Inl e
      | Inr names \<Rightarrow> Inr (fmt_d (sint cnt) @ '' '' @ fmt_lx voffset @ '' '' @ fmt_lx offset
          @ '' '' @ [CHR 0x09] @ names @ [CHR 0x0A]))"

definition print_page_flags_cnt :: "u64 \<Rightarrow> u64 \<Rightarrow> u64 \<Rightarrow> u64 \<Rightarrow> u64 \<Rightarrow> int + string" where
  "print_page_flags_cnt voffset offset flags cnt pme =
     show_page voffset offset (kpageflags_flags flags pme) cnt"

definition walk_swap :: "u64 \<Rightarrow> u64 \<Rightarrow> int + string" where
  "walk_swap voffset pme =
     (let flags = kpageflags_flags 0 pme in
      show_page voffset (pagemap_swap_offset pme) flags (- 1))"

section \<open>Testing bits\<close>

lemma bit_BIT: "k < 64 \<Longrightarrow> bit (BIT k) n \<longleftrightarrow> n = k"
  by (auto simp: BIT_def bit_simps)

lemma and_BIT: "x AND BIT k \<noteq> 0 \<longleftrightarrow> bit x k"
  by (simp add: BIT_def push_bit_eq_mult and_exp_eq_0_iff_not_bit)

lemma bit_two: "a < 64 \<Longrightarrow> b < 64 \<Longrightarrow> bit (x XOR (BIT a OR BIT b)) n \<longleftrightarrow> bit x n \<noteq> (n = a \<or> n = b)"
  by (simp add: bit_xor_iff bit_or_iff bit_BIT)

lemma bit_set: "a < 64 \<Longrightarrow> bit (x OR BIT a) n \<longleftrightarrow> bit x n \<or> n = a"
  by (simp add: bit_or_iff bit_BIT)

lemma and_two_eq:
  assumes "a < 64" "b < 64" "a \<noteq> b"
  shows "x AND (BIT a OR BIT b) = BIT a \<longleftrightarrow> bit x a \<and> \<not> bit x b"
proof -
  have "x AND (BIT a OR BIT b) = BIT a \<longleftrightarrow> (\<forall>n. bit x n \<and> (n = a \<or> n = b) \<longleftrightarrow> n = a)"
    using assms
    by (simp add: bit_eq_iff [of "x AND (BIT a OR BIT b)"] bit_and_iff bit_or_iff bit_BIT)
      (auto dest: bit_imp_le_length)
  also have "\<dots> \<longleftrightarrow> bit x a \<and> \<not> bit x b" using assms(3) by metis
  finally show ?thesis .
qed

lemma and_PM: "x AND PM_SOFT_DIRTY \<noteq> 0 \<longleftrightarrow> bit x 55" "x AND PM_MMAP_EXCLUSIVE \<noteq> 0 \<longleftrightarrow> bit x 56"
  "x AND PM_FILE \<noteq> 0 \<longleftrightarrow> bit x 61" "x AND PM_SWAP \<noteq> 0 \<longleftrightarrow> bit x 62" "x AND PM_PRESENT \<noteq> 0 \<longleftrightarrow> bit x 63"
  using and_BIT [unfolded BIT_def]
  by (simp_all add: PM_SOFT_DIRTY_def PM_MMAP_EXCLUSIVE_def PM_FILE_def PM_SWAP_def PM_PRESENT_def
      del: push_bit_of_1)

lemmas KPF_defs =
  KPF_LOCKED_def KPF_ERROR_def KPF_REFERENCED_def KPF_UPTODATE_def KPF_DIRTY_def
  KPF_LRU_def KPF_ACTIVE_def KPF_SLAB_def KPF_WRITEBACK_def KPF_RECLAIM_def
  KPF_BUDDY_def KPF_MMAP_def KPF_ANON_def KPF_SWAPCACHE_def KPF_SWAPBACKED_def
  KPF_COMPOUND_HEAD_def KPF_COMPOUND_TAIL_def KPF_HUGE_def KPF_UNEVICTABLE_def KPF_HWPOISON_def
  KPF_NOPAGE_def KPF_KSM_def KPF_THP_def KPF_BALLOON_def KPF_ZERO_PAGE_def
  KPF_IDLE_def KPF_PGTABLE_def KPF_RESERVED_def KPF_MLOCKED_def KPF_MAPPEDTODISK_def
  KPF_PRIVATE_def KPF_PRIVATE_2_def KPF_OWNER_PRIVATE_def KPF_ARCH_def KPF_UNCACHED_def
  KPF_SOFTDIRTY_def KPF_READAHEAD_def KPF_SLOB_FREE_def KPF_SLUB_FROZEN_def KPF_SLUB_DEBUG_def
  KPF_FILE_def KPF_SWAP_def KPF_MMAP_EXCLUSIVE_def

text \<open>
  C23: Bit by bit, what \<open>kpageflags_flags\<close> reports: on slab pages the private, active and error
  flags disappear and their overloaded meanings (bits 49 to 51) are toggled in; reclaim is
  reported as readahead (bit 48) unless the page is under writeback; bits 55, 61, 62 and 56
  of the pagemap entry appear as soft-dirty, file, swap and mmap-exclusive; every other flag
  is passed through.
\<close>

theorem kpageflags_flags_correct:
  assumes "n < 64"
  shows "bit (kpageflags_flags flags pme) n \<longleftrightarrow>
    (if n \<in> {1, 6, 35} then bit flags n \<and> \<not> bit flags 7
     else if n = 49 then bit flags 49 \<noteq> (bit flags 7 \<and> bit flags 35)
     else if n = 50 then bit flags 50 \<noteq> (bit flags 7 \<and> bit flags 6)
     else if n = 51 then bit flags 51 \<noteq> (bit flags 7 \<and> bit flags 1)
     else if n = 9 then bit flags 9 \<and> bit flags 8
     else if n = 48 then bit flags 48 \<noteq> (bit flags 9 \<and> \<not> bit flags 8)
     else if n = 40 then bit flags 40 \<or> bit pme 55
     else if n = 61 then bit flags 61 \<or> bit pme 61
     else if n = 62 then bit flags 62 \<or> bit pme 62
     else if n = 63 then bit flags 63 \<or> bit pme 56
     else bit flags n)"
  unfolding kpageflags_flags_def Let_def KPF_defs and_BIT and_PM
  by (cases "bit flags 7"; cases "bit flags 35"; cases "bit flags 6"; cases "bit flags 1"; cases "bit flags 9")
    (simp_all add: and_two_eq and_BIT bit_two bit_set)

theorem kpageflags_flags_correct_witness:
  "bit (kpageflags_flags (BIT 7 OR BIT 35) (BIT 62)) 49 \<and> \<not> bit (kpageflags_flags (BIT 7 OR BIT 35) (BIT 62)) 35
    \<and> bit (kpageflags_flags (BIT 7 OR BIT 35) (BIT 62)) 62"
  using kpageflags_flags_correct [of 49 "BIT 7 OR BIT 35" "BIT 62"]
    kpageflags_flags_correct [of 35 "BIT 7 OR BIT 35" "BIT 62"]
    kpageflags_flags_correct [of 62 "BIT 7 OR BIT 35" "BIT 62"]
  by (simp add: bit_or_iff bit_BIT)

section \<open>The letters\<close>

lemma present_bit: "drop_bit i flags AND 1 \<noteq> 0 \<longleftrightarrow> bit flags i" for flags :: u64
  by (simp add: and_one_eq bit_iff_odd_drop_bit odd_iff_mod_2_eq_one)

text \<open>The named and the unnamed positions of a table that starts at index \<open>i\<close>.\<close>

fun named :: "nat \<Rightarrow> string option list \<Rightarrow> (nat \<times> string) list" where
  "named i [] = []"
| "named i (None # entries) = named (Suc i) entries"
| "named i (Some nm # entries) = (i, nm) # named (Suc i) entries"

fun unnamed :: "nat \<Rightarrow> string option list \<Rightarrow> nat list" where
  "unnamed i [] = []"
| "unnamed i (None # entries) = i # unnamed (Suc i) entries"
| "unnamed i (Some nm # entries) = unnamed (Suc i) entries"

definition letter :: "u64 \<Rightarrow> nat \<times> string \<Rightarrow> char" where
  "letter flags e = (if bit flags (fst e) then hd (snd e) else CHR ''-'')"

lemma page_flag_loop_eq:
  "page_flag_loop flags i entries buf =
    (if \<exists>j \<in> set (unnamed i entries). bit flags j then Inl 1
     else Inr (buf @ map (letter flags) (named i entries)))"
  by (induction flags i entries buf rule: page_flag_loop.induct)
    (auto simp: present_bit letter_def Let_def split: option.splits)

lemma named_eq: "named 0 page_flag_names = flag_table"
  by code_simp

definition unknown_bits :: "nat list" where
  "unknown_bits = [27..<32] @ [41..<48] @ [52..<61]"

lemma unnamed_eq: "unnamed 0 page_flag_names = unknown_bits"
  by code_simp

lemma page_flag_name_eq:
  "page_flag_name flags =
    (if \<exists>j \<in> set unknown_bits. bit flags j then Inl 1 else Inr (map (letter flags) flag_table))"
  by (simp add: page_flag_name_def page_flag_loop_eq named_eq unnamed_eq)

lemma flag_letters: "\<forall>e \<in> set flag_table. hd (snd e) \<noteq> CHR ''-''"
  by (simp add: flag_table_def)

lemma known_or_unknown: "n < 64 \<Longrightarrow> n \<in> fst ` set flag_table \<or> n \<in> set unknown_bits"
proof -
  have "\<forall>n \<in> set [0..<64]. n \<in> set (map fst flag_table) \<or> n \<in> set unknown_bits" by code_simp
  then show "n < 64 \<Longrightarrow> ?thesis" by auto
qed

text \<open>
  C24: \<open>page_flag_name\<close> ends the program with status 1 exactly when a bit without a name is set;
  otherwise it returns 43 characters, within its 65-byte buffer, from which the flags can be
  read back: no two flag words print alike.
\<close>

theorem page_flag_name_correct:
  "(page_flag_name flags = Inl 1 \<longleftrightarrow> (\<exists>j \<in> set unknown_bits. bit flags j)) \<and>
   (\<forall>s. page_flag_name flags = Inr s \<longrightarrow> length s = 43 \<and>
     (\<forall>flags'. page_flag_name flags' = Inr s \<longrightarrow> flags' = flags))"
proof (intro conjI allI impI)
  show "page_flag_name flags = Inl 1 \<longleftrightarrow> (\<exists>j \<in> set unknown_bits. bit flags j)"
    by (simp add: page_flag_name_eq)
next
  fix s assume s: "page_flag_name flags = Inr s"
  then have S: "s = map (letter flags) flag_table" and no: "\<forall>j \<in> set unknown_bits. \<not> bit flags j"
    by (auto simp: page_flag_name_eq split: if_splits)
  then show "length s = 43" by (simp add: flag_table_def)
  fix flags' assume "page_flag_name flags' = Inr s"
  then have S': "map (letter flags') flag_table = map (letter flags) flag_table"
    and no': "\<forall>j \<in> set unknown_bits. \<not> bit flags' j"
    using S by (auto simp: page_flag_name_eq split: if_splits)
  have same: "bit flags' (fst e) = bit flags (fst e)" if e: "e \<in> set flag_table" for e
  proof -
    have "letter flags' e = letter flags e" using S' e by (metis map_eq_conv)
    then show ?thesis using flag_letters e by (auto simp: letter_def split: if_splits)
  qed
  have "bit flags' n = bit flags n" if n: "n < 64" for n
    using known_or_unknown [OF n] same no no' by force
  then show "flags' = flags" by (intro bit_word_eqI) simp
qed

theorem page_flag_name_correct_witness:
  "page_flag_name (BIT 27) = Inl 1 \<and> page_flag_name (BIT 6) \<noteq> page_flag_name (BIT 5)"
proof -
  have five: "page_flag_name (BIT 5) = Inr (map (letter (BIT 5)) flag_table)"
    by (simp add: page_flag_name_eq bit_BIT unknown_bits_def)
  have "BIT 6 \<noteq> BIT 5" using bit_BIT [of 5 5] bit_BIT [of 6 5] by auto
  then have "page_flag_name (BIT 6) \<noteq> page_flag_name (BIT 5)"
    using page_flag_name_correct [of "BIT 5"] five by auto
  then show ?thesis
    using page_flag_name_correct [of "BIT 27"] by (auto simp: bit_BIT unknown_bits_def)
qed

lemma kpageflags_known:
  assumes "\<forall>j \<in> set unknown_bits. \<not> bit flags j"
  shows "\<forall>j \<in> set unknown_bits. \<not> bit (kpageflags_flags flags pme) j"
proof
  fix j assume j: "j \<in> set unknown_bits"
  then have "j \<notin> {1, 6, 7, 8, 9, 35, 40, 48, 49, 50, 51, 61, 62, 63}"
    by (auto simp: unknown_bits_def)
  then have "bit (kpageflags_flags flags pme) j = bit flags j"
    unfolding kpageflags_flags_def Let_def KPF_defs and_BIT and_PM
    by (simp add: bit_two bit_set)
  then show "\<not> bit (kpageflags_flags flags pme) j" using assms j by simp
qed

lemma show_page_known:
  assumes "\<forall>j \<in> set unknown_bits. \<not> bit flags j"
  shows "\<exists>line. show_page voffset offset (kpageflags_flags flags pme) cnt = Inr line"
  using kpageflags_known [OF assms, of pme] by (simp add: show_page_def page_flag_name_eq)

lemma walk_swap_prints: "\<exists>line. walk_swap voffset pme = Inr line"
  using show_page_known [of 0] by (simp add: walk_swap_def)

text \<open>
  If the kernel reports named flags only, the flags computed from them have a name too, for
  every pagemap entry: \<open>print_page_flags_cnt\<close> prints a line and does not end the program. In
  particular \<open>walk_swap\<close>, which starts from no flags, never does.
\<close>

theorem known_flags_print:
  assumes "\<forall>j \<in> set unknown_bits. \<not> bit flags j"
  shows "(\<exists>line. print_page_flags_cnt voffset offset flags cnt pme = Inr line) \<and>
    (\<exists>line. walk_swap voffset pme = Inr line)"
  using show_page_known [OF assms] walk_swap_prints by (simp add: print_page_flags_cnt_def)

theorem known_flags_print_witness:
  "(\<exists>line. print_page_flags_cnt 1 2 (BIT 5) 3 (BIT 55) = Inr line) \<and> (\<exists>line. walk_swap 7 (BIT 62) = Inr line)"
  using known_flags_print [of "BIT 5" 1 2 3 "BIT 55"] known_flags_print [of "BIT 5" 7 2 3 "BIT 62"]
  by (simp add: bit_BIT unknown_bits_def)

lemma pframe_bound: "unat (val AND PM_PFRAME_MASK) < 2 ^ 55"
proof -
  have m: "PM_PFRAME_MASK = mask 55"
    by (simp add: PM_PFRAME_MASK_def PM_PFRAME_BITS_def mask_eq_exp_minus_1)
  show ?thesis
    unfolding m using take_bit_nat_less_exp [of 55 "unat val"]
    by (simp add: take_bit_eq_mask [symmetric] unsigned_take_bit_eq)
qed

lemma pagemap_pfn_bound: "unat (pagemap_pfn val) < 2 ^ 55"
  using pframe_bound [of val] by (simp add: pagemap_pfn_def PM_PFRAME_def)

text \<open>
  A page frame number read from a pagemap entry is below 2^55, a swap offset below 2^50, and
  both are 0 unless the present bit or the swap bit is set; so the byte offset of a frame in
  \<open>/proc/kpageflags\<close> never overflows a signed 64-bit \<open>off_t\<close>.
\<close>

theorem pagemap_fields_bounded:
  "unat (pagemap_pfn val) < 2 ^ 55 \<and> unat (pagemap_swap_offset val) < 2 ^ 50 \<and>
   (\<not> bit val 63 \<longrightarrow> pagemap_pfn val = 0) \<and> (\<not> bit val 62 \<longrightarrow> pagemap_swap_offset val = 0) \<and>
   unat (pagemap_pfn val) * 8 < 2 ^ 63"
proof -
  note f = pframe_bound [of val]
  have "unat (PM_SWAP_OFFSET val) = unat (val AND PM_PFRAME_MASK) div 2 ^ 5"
    by (simp add: PM_SWAP_OFFSET_def MAX_SWAPFILES_SHIFT_def unsigned_drop_bit_eq drop_bit_eq_div unat_div_distrib)
  with f have "unat (PM_SWAP_OFFSET val) < 2 ^ 50" by simp
  with f show ?thesis
    by (auto simp: pagemap_pfn_def pagemap_swap_offset_def PM_PFRAME_def and_PM)
qed

theorem pagemap_fields_bounded_witness:
  "pagemap_pfn (BIT 62 OR 77) = 0 \<and> unat (pagemap_pfn (BIT 63 OR 77)) * 8 < 2 ^ 63"
  using pagemap_fields_bounded [of "BIT 62 OR 77"] pagemap_fields_bounded [of "BIT 63 OR 77"]
  by (simp add: bit_or_iff bit_BIT)

end
