(* ===== verification/Page_Hash.thy ===== *)
theory Page_Hash
  imports Prelude
begin

unbundle bit_operations_syntax

text \<open>
  The page hash of \<open>mem.c\<close>, Jenkins' one-at-a-time hash over the bytes of a page, and the
  hash of the all-zero page that marks a page as empty.
\<close>

section \<open>Definitions\<close>

text \<open>One round of the loop; additions wrap and shifts drop bits, as on \<open>uint32_t\<close>.\<close>

definition hash_round :: "u32 \<Rightarrow> u8 \<Rightarrow> u32" where
  "hash_round hash byte =
     (let hash = hash + ucast byte;
          hash = hash + push_bit 10 hash;
          hash = hash XOR drop_bit 6 hash
      in hash)"

fun hash_loop :: "u8 list \<Rightarrow> u32 \<Rightarrow> u32" where
  "hash_loop [] hash = hash"
| "hash_loop (byte # page) hash = hash_loop page (hash_round hash byte)"

definition page_hash :: "u8 list \<Rightarrow> u32" where
  "page_hash page =
     (let hash = hash_loop page 0;
          hash = hash + push_bit 3 hash;
          hash = hash XOR drop_bit 11 hash;
          hash = hash + push_bit 15 hash
      in hash)"

definition pageSize :: nat where
  "pageSize = 4096"

text \<open>The global \<open>zero_page_hash\<close> as \<open>init_zero_page_hash\<close> sets it.\<close>

definition zero_page_hash :: u32 where
  "zero_page_hash = page_hash (replicate pageSize 0)"

section \<open>Every step can be undone\<close>

text \<open>
  Adding a left shift multiplies by an odd number, and \<open>x XOR (x >> k)\<close> keeps the top bits,
  from which the others follow.
\<close>

lemma inj_odd_mult:
  assumes "u * v = (1 :: 'a::len word)"
  shows "inj (\<lambda>h. h * u)"
proof (rule injI)
  fix x y assume "x * u = y * u"
  then have "x * (u * v) = y * (u * v)" by (metis mult.assoc)
  then show "x = y" using assms by simp
qed

lemma inj_add_shift:
  "inj (\<lambda>h :: u32. h + push_bit 10 h)" "inj (\<lambda>h :: u32. h + push_bit 3 h)"
  "inj (\<lambda>h :: u32. h + push_bit 15 h)"
proof -
  have m: "h + push_bit 10 h = h * 1025" "h + push_bit 3 h = h * 9" "h + push_bit 15 h = h * 32769"
    for h :: u32
    by (simp_all add: push_bit_eq_mult)
  show "inj (\<lambda>h :: u32. h + push_bit 10 h)"
    unfolding m by (rule inj_odd_mult [of _ 3222273025]) simp
  show "inj (\<lambda>h :: u32. h + push_bit 3 h)"
    unfolding m by (rule inj_odd_mult [of _ 954437177]) simp
  show "inj (\<lambda>h :: u32. h + push_bit 15 h)"
    unfolding m by (rule inj_odd_mult [of _ 1073709057]) simp
qed

lemma inj_xor_shift:
  assumes "0 < k"
  shows "inj (\<lambda>h :: 'a::len word. h XOR drop_bit k h)"
proof (rule injI)
  fix x y :: "'a word" assume eq: "x XOR drop_bit k x = y XOR drop_bit k y"
  have "bit x n = bit y n" for n
  proof (induction "LENGTH('a) - n" arbitrary: n rule: less_induct)
    case less
    show ?case
    proof (cases "n < LENGTH('a)")
      case True
      then have "bit x (k + n) = bit y (k + n)"
        using less assms by simp
      moreover have "bit (x XOR drop_bit k x) n = bit (y XOR drop_bit k y) n" using eq by simp
      ultimately show ?thesis by (auto simp: bit_xor_iff bit_drop_bit_eq)
    next
      case False
      then show ?thesis using bit_imp_le_length by blast
    qed
  qed
  then show "x = y" by (intro bit_word_eqI) simp
qed

lemma hash_round_inj: "hash_round h b = hash_round h' b \<longleftrightarrow> h = h'"
proof -
  let ?f = "(\<lambda>h :: u32. h XOR drop_bit 6 h) \<circ> (\<lambda>h. h + push_bit 10 h) \<circ> (\<lambda>h. h + ucast b)"
  have f: "hash_round h b = ?f h" for h
    by (simp add: hash_round_def Let_def)
  have "inj (\<lambda>h :: u32. h + ucast b)" by (simp add: inj_def)
  then have "inj ?f"
    by (intro inj_compose inj_add_shift inj_xor_shift) simp
  then show ?thesis unfolding f by (rule inj_eq)
qed

lemma hash_round_byte: "hash_round h b = hash_round h b' \<longleftrightarrow> b = b'"
proof -
  have "hash_round h b = hash_round (h + ucast b - ucast b') b'"
    by (simp add: hash_round_def)
  then have "hash_round h b = hash_round h b' \<longleftrightarrow> h + ucast b - ucast b' = h"
    by (simp add: hash_round_inj)
  also have "\<dots> \<longleftrightarrow> (ucast b :: u32) = ucast b'" by (simp add: algebra_simps)
  also have "\<dots> \<longleftrightarrow> b = b'"
  proof
    assume "(ucast b :: u32) = ucast b'"
    then have "unat (ucast b :: u32) = unat (ucast b' :: u32)" by simp
    moreover have "unat (ucast x :: u32) = unat x" for x :: u8
    proof -
      have "unat x < 2 ^ 8" using unsigned_less [of x] by simp
      then show ?thesis by (simp add: unsigned_ucast_eq take_bit_nat_eq_self)
    qed
    ultimately show "b = b'" by (simp add: word_eq_iff_unsigned [where ?'a = nat])
  qed simp
  finally show ?thesis .
qed

lemma hash_loop_inj: "hash_loop page h = hash_loop page h' \<longleftrightarrow> h = h'"
  by (induction page arbitrary: h h') (auto simp: hash_round_inj)

lemma hash_loop_append: "hash_loop (xs @ ys) h = hash_loop ys (hash_loop xs h)"
  by (induction xs arbitrary: h) auto

lemma page_hash_inj: "page_hash p = page_hash q \<longleftrightarrow> hash_loop p 0 = hash_loop q 0"
proof -
  let ?f = "(\<lambda>h :: u32. h + push_bit 15 h) \<circ> (\<lambda>h. h XOR drop_bit 11 h) \<circ> (\<lambda>h. h + push_bit 3 h)"
  have f: "page_hash p = ?f (hash_loop p 0)" for p
    by (simp add: page_hash_def Let_def)
  have "inj ?f"
    by (intro inj_compose inj_add_shift inj_xor_shift) simp
  then show ?thesis unfolding f by (rule inj_eq)
qed

section \<open>Zero pages\<close>

lemma hash_round_zero [simp]: "hash_round 0 0 = 0"
  by (simp add: hash_round_def)

lemma hash_loop_zeros [simp]: "hash_loop (replicate n 0) 0 = 0"
  by (induction n) auto

lemma page_hash_zero_iff: "page_hash p = 0 \<longleftrightarrow> hash_loop p 0 = 0"
proof -
  have "page_hash [] = 0" by (simp add: page_hash_def)
  then show ?thesis using page_hash_inj [of p "[]"] by simp
qed

lemma zero_page_hash_eq: "zero_page_hash = 0"
  by (simp add: zero_page_hash_def page_hash_zero_iff)

text \<open>
  The hash of the all-zero page, and of every all-zero buffer, is 0; in particular the
  initial value of the global \<open>zero_page_hash\<close> is already the right one.
\<close>

theorem zero_page_hash_correct:
  "zero_page_hash = 0 \<and> page_hash (replicate n 0) = 0"
  by (simp add: zero_page_hash_eq page_hash_zero_iff)

text \<open>
  C21: Two pages that differ in exactly one byte, wherever it is, never have the same hash.
\<close>

theorem page_hash_one_byte:
  assumes "b \<noteq> b'"
  shows "page_hash (xs @ b # ys) \<noteq> page_hash (xs @ b' # ys)"
  using assms by (simp add: page_hash_inj hash_loop_append hash_loop_inj hash_round_byte)

theorem page_hash_one_byte_witness:
  "page_hash ([1, 2] @ 3 # [4]) \<noteq> page_hash ([1, 2] @ 7 # [4])"
  by (rule page_hash_one_byte) simp

text \<open>
  C22: Not only the zero page has hash 0: four bytes that return the state to 0 may stand
  anywhere in an otherwise empty page, at each of 4093 offsets, and \<open>page_is_zero\<close> takes such a
  page for an empty one.
\<close>

theorem page_hash_zero_collision:
  assumes "n \<le> pageSize - 4"
  shows "\<exists>page. length page = pageSize \<and> page ! n = 31 \<and> page_hash page = zero_page_hash"
proof (intro exI conjI)
  let ?page = "replicate n 0 @ [31, 75, 173, 178] @ replicate (pageSize - 4 - n) (0 :: u8)"
  show "length ?page = pageSize" using assms by (simp add: pageSize_def)
  show "?page ! n = 31" by (simp add: nth_append)
  have "hash_loop [31, 75, 173, 178] 0 = 0" by code_simp
  then show "page_hash ?page = zero_page_hash"
    by (simp only: zero_page_hash_eq page_hash_zero_iff hash_loop_append hash_loop_zeros)
qed

theorem page_hash_zero_collision_witness:
  "\<exists>page. length page = pageSize \<and> page ! 100 = 31 \<and> page_hash page = zero_page_hash"
  by (rule page_hash_zero_collision) (simp add: pageSize_def)

end
