(* ===== verification/Mem.thy ===== *)
theory Mem
  imports Outcome Page_Hash
begin

text \<open>
  The data of \<open>mem.c\<close>: processes, memory regions and pages, their accessors, and the services
  of the operating system the readers call.
\<close>

section \<open>Processes, regions, pages\<close>

text \<open>
  Arrays come from \<open>malloc\<close>, so a field of a page is \<open>None\<close> until it is written; reading it
  before is \<open>Undefined\<close>.
\<close>

record page =
  pg_hash :: "u32 option"
  pg_share :: "int option"

definition fresh_page :: page where
  "fresh_page = \<lparr>pg_hash = None, pg_share = None\<rparr>"

record mem_reg =
  mr_start :: u64
  mr_end :: u64
  pathname :: string
  mr_pages :: "page list"
  mr_r :: char
  mr_w :: char
  mr_x :: char
  mr_s :: char

text \<open>
  The regions \<open>maps[0 .. maps_size - 1]\<close> and the capacity of their array exist once the maps
  file was parsed. The open files are the text of the maps file, the state of the memory
  stream and a descriptor.
\<close>

record 'f process =
  pr_pid :: int
  pr_maps :: "mem_reg list option"
  maps_cap :: nat
  pMapsFile :: "string option"
  pMemFile :: "'f option"
  pagemap_fd :: int
  no_name_cnt :: int

section \<open>The operating system\<close>

text \<open>
  \<open>k_maps\<close> and \<open>k_mem\<close> open the two proc files, \<open>k_fseeko\<close> and \<open>k_fread\<close> act on a memory stream
  (a read asks for one page and yields the bytes it got), \<open>k_open\<close> picks a descriptor given
  those in use, \<open>k_pread\<close> reads the 64-bit words of a file from a byte offset and returns what
  the call returns, \<open>k_malloc\<close> says whether a block of a size is granted, \<open>k_clock n\<close> is what
  the \<open>n\<close>-th call of \<open>clock\<close> returns, \<open>k_strerror\<close> is the text \<open>perror\<close> has for \<open>errno\<close> when a read
  leaves the memory stream in that state.
\<close>

record 'f kernel =
  k_maps :: "int \<Rightarrow> string option"
  k_mem :: "int \<Rightarrow> 'f option"
  k_fseeko :: "u64 \<Rightarrow> 'f \<Rightarrow> 'f"
  k_fread :: "'f \<Rightarrow> u8 list \<times> 'f"
  k_open :: "string \<Rightarrow> int set \<Rightarrow> int"
  k_pread :: "string \<Rightarrow> nat \<Rightarrow> nat \<Rightarrow> int \<times> u64 list"
  k_malloc :: "nat \<Rightarrow> bool"
  k_clock :: "nat \<Rightarrow> int"
  k_strerror :: "'f \<Rightarrow> string"

section \<open>Accessors\<close>

text \<open>The conversion of an unsigned long to \<open>int\<close> keeps the low 32 bits.\<close>

definition to_int :: "u64 \<Rightarrow> int" where
  "to_int w = sint (ucast w :: 32 word)"

definition mr_page_num :: "mem_reg \<Rightarrow> int" where
  "mr_page_num mr = to_int ((mr_end mr - mr_start mr) div of_nat pageSize)"

definition mr_get_page :: "mem_reg \<Rightarrow> int \<Rightarrow> page outcome" where
  "mr_get_page mr index =
     (if 0 \<le> index \<and> nat index < length (mr_pages mr) then Returns (mr_pages mr ! nat index)
      else Undefined)"

definition mr_get_name :: "mem_reg \<Rightarrow> string" where
  "mr_get_name mr = pathname mr"

definition mr_get_start :: "mem_reg \<Rightarrow> u64" where
  "mr_get_start mr = mr_start mr"

definition mr_get_perm :: "mem_reg \<Rightarrow> string" where
  "mr_get_perm mr = [mr_r mr, mr_w mr, mr_x mr, mr_s mr]"

definition mr_is_anon :: "mem_reg \<Rightarrow> bool" where
  "mr_is_anon mr = (case pathname mr of [] \<Rightarrow> False | c # _ \<Rightarrow> c = CHR ''['')"

definition page_to_u32 :: "page \<Rightarrow> u32 outcome" where
  "page_to_u32 p = defined (pg_hash p)"

definition page_is_zero :: "page \<Rightarrow> bool outcome" where
  "page_is_zero p = continue (defined (pg_hash p)) (\<lambda>h. Returns (h = zero_page_hash))"

definition page_count :: "page \<Rightarrow> int outcome" where
  "page_count p = defined (pg_share p)"

definition proc_mr_num :: "'f process \<Rightarrow> int outcome" where
  "proc_mr_num p = continue (defined (pr_maps p)) (\<lambda>maps. Returns (to_int (of_nat (length maps))))"

definition proc_get_mr :: "'f process \<Rightarrow> int \<Rightarrow> mem_reg outcome" where
  "proc_get_mr p index = continue (defined (pr_maps p)) (\<lambda>maps.
     if 0 \<le> index \<and> nat index < length maps then Returns (maps ! nat index) else Undefined)"

definition proc_get_pid :: "'f process \<Rightarrow> int" where
  "proc_get_pid p = pr_pid p"

definition proc_init :: "int \<Rightarrow> 'f process" where
  "proc_init pid = \<lparr>pr_pid = pid, pr_maps = None, maps_cap = 0, pMapsFile = None, pMemFile = None,
     pagemap_fd = - 1, no_name_cnt = 0\<rparr>"

section \<open>Sizes\<close>

lemma to_int_small:
  assumes "unat w < 2 ^ 31"
  shows "to_int w = int (unat w)"
proof -
  have less: "uint w < 2 ^ 31"
    using assms by (metis of_nat_less_iff of_nat_numeral of_nat_power uint_nat)
  have "uint (ucast w :: 32 word) = take_bit 32 (uint w)"
    by (simp only: unsigned_ucast_eq) simp
  also have "\<dots> = uint w" using less by (intro take_bit_int_eq_self) simp_all
  finally have u: "uint (ucast w :: 32 word) = uint w" .
  have "sint (ucast w :: 32 word) = signed_take_bit 31 (uint (ucast w :: 32 word))"
    by (simp only: sint_uint) simp
  also have "\<dots> = uint w"
    unfolding u using less uint_ge_0 [of w] by (intro signed_take_bit_int_eq_self) linarith+
  finally show ?thesis by (simp only: to_int_def uint_nat)
qed

text \<open>The pages of a region as a natural number, and what makes \<open>mr_page_num\<close> exact.\<close>

definition page_total :: "mem_reg \<Rightarrow> nat" where
  "page_total mr = unat (mr_end mr - mr_start mr) div pageSize"

lemma unat_pages: "unat ((mr_end mr - mr_start mr) div of_nat pageSize) = page_total mr"
  by (simp add: page_total_def pageSize_def unat_div_distrib)

lemma mr_page_num_exact: "page_total mr < 2 ^ 31 \<Longrightarrow> mr_page_num mr = int (page_total mr)"
  unfolding mr_page_num_def by (subst to_int_small) (simp_all add: unat_pages)

lemma to_int_large:
  assumes "2 ^ 31 \<le> unat w" and "unat w < 2 ^ 32"
  shows "to_int w = int (unat w) - 2 ^ 32"
proof -
  have u: "uint (ucast w :: 32 word) = uint w"
  proof -
    have "uint w < 2 ^ 32" using assms(2) by (metis of_nat_less_iff of_nat_numeral of_nat_power uint_nat)
    then show ?thesis by (simp only: unsigned_ucast_eq) (simp add: take_bit_int_eq_self)
  qed
  have "sint (ucast w :: 32 word) = signed_take_bit 31 (uint (ucast w :: 32 word))"
    by (simp only: sint_uint) simp
  also have "\<dots> = uint w - 2 ^ 32"
  proof -
    have r: "2 ^ 31 \<le> uint w" "uint w < 2 ^ 32"
      using assms by (metis of_nat_le_iff of_nat_less_iff of_nat_numeral of_nat_power uint_nat)+
    have "(uint w + 2 ^ 31) mod 2 ^ 32 = ((uint w - 2 ^ 31) + 2 ^ 32) mod 2 ^ 32"
      by (simp add: add.commute)
    also have "\<dots> = uint w - 2 ^ 31"
      unfolding mod_add_self2 using r by (intro mod_pos_pos_trivial) simp_all
    finally have "take_bit 32 (uint w + 2 ^ 31) = uint w - 2 ^ 31" by (simp only: take_bit_eq_mod)
    then show ?thesis unfolding u by (simp add: signed_take_bit_eq_take_bit_shift)
  qed
  finally show ?thesis by (simp only: to_int_def uint_nat)
qed

end
