(* ===== verification/Scanf.thy ===== *)
theory Scanf
  imports Format
begin

text \<open>
  The part of \<open>sscanf\<close> the program uses: white space, literal characters, and the conversions
  \<open>%lx\<close>, \<open>%llx\<close>, \<open>%x\<close>, \<open>%lu\<close>, \<open>%c\<close> and \<open>%[^\n]\<close>.
\<close>

section \<open>The interpreter\<close>

text \<open>A number conversion has a base and the width in bits of the object it writes.\<close>

datatype directive = Blank | Lit char | Number nat nat | AnyChar | Line

datatype scanned = Num nat | Chr char | Str string

definition newline :: char where
  "newline = CHR 0x0A"

definition is_space :: "char \<Rightarrow> bool" where
  "is_space c \<longleftrightarrow> c \<in> {CHR 0x20, CHR 0x09, CHR 0x0A, CHR 0x0B, CHR 0x0C, CHR 0x0D}"

definition skip_space :: "string \<Rightarrow> string" where
  "skip_space s = dropWhile is_space s"

fun scan_sign :: "string \<Rightarrow> bool \<times> string" where
  "scan_sign (CHR ''-'' # s) = (True, s)"
| "scan_sign (CHR ''+'' # s) = (False, s)"
| "scan_sign s = (False, s)"

definition skip_0x :: "string \<Rightarrow> string" where
  "skip_0x s =
     (case s of
        z # x # h # t \<Rightarrow>
          if z = CHR ''0'' \<and> (x = CHR ''x'' \<or> x = CHR ''X'') \<and> digit_value 16 h \<noteq> None
          then h # t else s
      | _ \<Rightarrow> s)"

text \<open>
  As \<open>strtoul\<close>: optional white space, sign and prefix, then digits; the value saturates at
  \<open>ULONG_MAX\<close>, a sign negates it modulo 2^64, and the object keeps the low bits.
\<close>

definition scan_number :: "nat \<Rightarrow> nat \<Rightarrow> string \<Rightarrow> (nat \<times> string) option" where
  "scan_number b w s =
     (let (neg, s) = scan_sign (skip_space s);
          s = (if b = 16 then skip_0x s else s)
      in case scan_base b s of
           None \<Rightarrow> None
         | Some (n, rest) \<Rightarrow>
             let v = (if n \<ge> 2 ^ 64 then 2 ^ 64 - 1 else if neg then (2 ^ 64 - n) mod 2 ^ 64 else n)
             in Some (v mod 2 ^ w, rest))"

text \<open>The values assigned before the first directive that fails.\<close>

fun scan :: "directive list \<Rightarrow> string \<Rightarrow> scanned list" where
  "scan [] s = []"
| "scan (Blank # ds) s = scan ds (skip_space s)"
| "scan (Lit c # ds) s = (case s of [] \<Rightarrow> [] | d # t \<Rightarrow> if d = c then scan ds t else [])"
| "scan (Number b w # ds) s =
     (case scan_number b w s of None \<Rightarrow> [] | Some (v, t) \<Rightarrow> Num v # scan ds t)"
| "scan (AnyChar # ds) s = (case s of [] \<Rightarrow> [] | c # t \<Rightarrow> Chr c # scan ds t)"
| "scan (Line # ds) s =
     (let l = takeWhile (\<lambda>c. c \<noteq> newline) s in
      if l = [] then [] else Str l # scan ds (dropWhile (\<lambda>c. c \<noteq> newline) s))"

section \<open>Padded numbers\<close>

definition print_padded :: "nat \<Rightarrow> nat \<Rightarrow> nat \<Rightarrow> string" where
  "print_padded k b n = replicate (k - length (digits b n)) (CHR ''0'') @ print_base b n"

definition digit_string :: "nat \<Rightarrow> string \<Rightarrow> bool" where
  "digit_string b s \<longleftrightarrow> s \<noteq> [] \<and> (\<forall>c \<in> set s. \<exists>d < b. c = digit_char d)"

lemma print_padded_eq:
  "print_padded k b n = map digit_char (replicate (k - length (digits b n)) 0 @ digits b n)"
proof -
  have "digit_char 0 = CHR ''0''" by (simp add: digit_char_def digit_chars)
  then show ?thesis by (simp add: print_padded_def print_base_def)
qed

lemma digit_string_padded: "1 < b \<Longrightarrow> digit_string b (print_padded k b n)"
  unfolding digit_string_def print_padded_eq
  using digits_less [of b _ n] by (auto intro: exI [of _ 0])

lemma foldl_zeros: "foldl (\<lambda>a d. a * b + d) 0 (replicate k 0 @ ds) = foldl (\<lambda>a d. a * b + d) (0::nat) ds"
  by (induction k) auto

lemma scan_base_padded:
  assumes "1 < b" "b \<le> 16" "stops b rest"
  shows "scan_base b (print_padded k b n @ rest) = Some (n, rest)"
proof -
  let ?ds = "replicate (k - length (digits b n)) 0 @ digits b n"
  have lt: "\<forall>d \<in> set ?ds. d < b" using digits_less [OF assms(1)] assms(1) by auto
  obtain d ds where ds: "?ds = d # ds"
    by (cases ?ds) auto
  with lt have "digit_value b (digit_char d) = Some d"
    using digit_round_trip assms(2) by simp
  then have "scan_base b (print_padded k b n @ rest) = Some (scan_digits b 0 (map digit_char ?ds @ rest))"
    unfolding print_padded_eq ds by (simp add: scan_base_def)
  also have "\<dots> = Some (n, rest)"
    unfolding scan_digits_map [OF assms(2) lt] foldl_zeros foldl_digits
    by (simp add: scan_digits_stops [OF assms(3)])
  finally show ?thesis .
qed

lemma digit_chars_16:
  "d < 16 \<Longrightarrow> digit_char d \<in> set ''0123456789abcdef''"
proof -
  have "\<forall>d \<in> set [0..<16]. digit_char d \<in> set ''0123456789abcdef''" by code_simp
  then show "d < 16 \<Longrightarrow> ?thesis" by simp
qed

lemma digit_string_16:
  "digit_string b s \<Longrightarrow> b \<le> 16 \<Longrightarrow> c \<in> set s \<Longrightarrow> c \<in> set ''0123456789abcdef''"
  using digit_chars_16 unfolding digit_string_def by fastforce

lemma digit_string_plain:
  assumes "digit_string b s" "b \<le> 16"
  shows "skip_space (s @ rest) = s @ rest" "scan_sign (s @ rest) = (False, s @ rest)"
proof -
  obtain c t where s: "s = c # t" using assms(1) by (auto simp: digit_string_def neq_Nil_conv)
  then have c: "c \<in> set ''0123456789abcdef''" using digit_string_16 [OF assms, of c] by simp
  show "skip_space (s @ rest) = s @ rest"
    using c by (auto simp: s skip_space_def is_space_def)
  show "scan_sign (s @ rest) = (False, s @ rest)"
    using c by (auto simp: s)
qed

text \<open>The prefix rule does not apply where an \<open>x\<close> follows no number.\<close>

lemma skip_0x_digits:
  assumes "digit_string 16 s" "rest = [] \<or> hd rest \<notin> {CHR ''x'', CHR ''X''}"
  shows "skip_0x (s @ rest) = s @ rest"
proof (cases "s @ rest")
  case (Cons z u)
  show ?thesis
  proof (cases u)
    case Cons2: (Cons x v)
    have "x \<noteq> CHR ''x'' \<and> x \<noteq> CHR ''X''"
    proof (cases "tl s")
      case Nil
      with Cons Cons2 assms show ?thesis
        by (cases s) (auto simp: digit_string_def)
    next
      case (Cons y ys)
      with \<open>s @ rest = z # u\<close> Cons2 have "x \<in> set s" by (cases s) auto
      then show ?thesis using digit_string_16 [OF assms(1), of x] by auto
    qed
    with Cons Cons2 show ?thesis by (auto simp: skip_0x_def split: list.splits)
  qed (simp add: Cons skip_0x_def)
qed (simp add: skip_0x_def)

lemma scan_number_padded:
  assumes "b \<in> {10, 16}" "n < 2 ^ w" "w \<le> 64" "stops b rest"
    and "rest = [] \<or> hd rest \<notin> {CHR ''x'', CHR ''X''}"
  shows "scan_number b w (print_padded k b n @ rest) = Some (n, rest)"
proof -
  have b: "1 < b" "b \<le> 16" using assms(1) by auto
  note d = digit_string_padded [OF b(1), of k n]
  have "(2::nat) ^ w \<le> 2 ^ 64" using assms(3) by (intro power_increasing) auto
  then have n: "n < 2 ^ 64" using assms(2) by linarith
  have "(if b = 16 then skip_0x (print_padded k b n @ rest) else print_padded k b n @ rest)
      = print_padded k b n @ rest"
    using skip_0x_digits [of "print_padded k 16 n" rest] digit_string_padded [of 16 k n] assms(5) by auto
  with scan_base_padded [OF b assms(4), of k n] digit_string_plain [OF d b(2)] n assms(2)
  show ?thesis by (simp add: scan_number_def)
qed

end
