(* ===== verification/Maps.thy ===== *)
theory Maps
  imports Mem Scanf
begin

text \<open>
  Reading \<open>/proc/<pid>/maps\<close>: one line by \<open>parse_maps_line\<close>, the file by \<open>parse_maps\<close> with its
  growing array of regions. The lines the kernel writes are read back exactly.
\<close>

section \<open>One line\<close>

text \<open>The format \<open>"%lx-%lx %c%c%c%c %llx %x:%x %lu %[^\n]\n"\<close>.\<close>

definition maps_format :: "directive list" where
  "maps_format =
    [Number 16 64, Lit CHR ''-'', Number 16 64, Blank, AnyChar, AnyChar, AnyChar, AnyChar, Blank,
     Number 16 64, Blank, Number 16 32, Lit CHR '':'', Number 16 32, Blank, Number 10 64, Blank,
     Line, Blank]"

text \<open>The name made for a region without one: \<open>"[0x%lx]"\<close>.\<close>

definition made_name :: "u64 \<Rightarrow> string" where
  "made_name start = ''[0x'' @ fmt_lx start @ '']''"

text \<open>
  The slot of the array a line is parsed into is \<open>None\<close> while its memory was never written. A
  line with fewer than ten items is reported and leaves the slot as it is.
\<close>

definition parse_maps_line :: "string \<Rightarrow> mem_reg option \<Rightarrow> mem_reg option" where
  "parse_maps_line line slot =
     (case scan maps_format line of
        Num start # Num stop # Chr r # Chr w # Chr x # Chr s # Num pgoff # Num major # Num minor
          # Num inode # items \<Rightarrow>
          let path = (case items of [Str p] \<Rightarrow> p | _ \<Rightarrow> '''')
          in Some \<lparr>mr_start = of_nat start, mr_end = of_nat stop,
               pathname = (if path \<noteq> '''' then path else made_name (of_nat start)),
               mr_pages = (case slot of None \<Rightarrow> [] | Some mr \<Rightarrow> mr_pages mr),
               mr_r = r, mr_w = w, mr_x = x, mr_s = s\<rparr>
      | _ \<Rightarrow> slot)"

section \<open>The file\<close>

text \<open>\<open>fgets(line, 256, f)\<close>: up to 255 characters, or to the end of the line.\<close>

fun get_line :: "nat \<Rightarrow> string \<Rightarrow> string \<times> string" where
  "get_line 0 s = ([], s)"
| "get_line (Suc n) [] = ([], [])"
| "get_line (Suc n) (c # cs) =
     (if c = newline then ([c], cs) else let (l, rest) = get_line n cs in (c # l, rest))"

lemma get_line_shorter: "s \<noteq> [] \<Longrightarrow> 0 < n \<Longrightarrow> length (snd (get_line n s)) < length s"
proof -
  have "length (snd (get_line n s)) \<le> length s" for n s
    by (induction n s rule: get_line.induct) (auto simp: Let_def split: prod.splits)
  then show "s \<noteq> [] \<Longrightarrow> 0 < n \<Longrightarrow> ?thesis"
    by (cases n; cases s) (auto simp: Let_def less_Suc_eq_le split: prod.splits, metis snd_conv)
qed

text \<open>\<open>sizeof(struct MemReg)\<close> on a 64-bit target.\<close>

definition mem_reg_size :: nat where
  "mem_reg_size = 48"

text \<open>
  The loop of \<open>parse_maps\<close>. The array has room for \<open>cap\<close> regions, of which \<open>accepted\<close> are in
  use; \<open>slot\<close> is the memory of the next one.
\<close>

function parse_maps_loop :: "'f kernel \<Rightarrow> bool \<Rightarrow> int \<Rightarrow> string \<Rightarrow> nat \<Rightarrow> mem_reg list \<Rightarrow>
    mem_reg option \<Rightarrow> (mem_reg list \<times> nat) outcome" where
  "parse_maps_loop K filter_anon minsize text cap accepted slot =
     (if text = [] then Returns (accepted, cap)
      else
        let (line, text') = get_line 255 text;
            grow = (cap = length accepted + 1);
            cap' = (if grow then cap * 2 else cap)
        in if grow \<and> \<not> k_malloc K (cap' * mem_reg_size) then Undefined
           else if length accepted \<ge> cap' then Undefined
           else case parse_maps_line line slot of
                  None \<Rightarrow> Undefined
                | Some mr \<Rightarrow>
                    if filter_anon \<and> \<not> mr_is_anon mr \<or> mr_page_num mr \<le> minsize
                    then parse_maps_loop K filter_anon minsize text' cap' accepted (Some mr)
                    else parse_maps_loop K filter_anon minsize text' cap' (accepted @ [mr]) None)"
  by pat_completeness auto
termination
proof (relation "measure (\<lambda>(K, f, m, text, cap, acc, slot). length text)", goal_cases)
  case (2 K f m inp cap acc slot x line inp')
  then have "inp \<noteq> []" "inp' = snd (get_line 255 inp)" by (simp_all add: prod_eq_iff)
  then show ?case using get_line_shorter [of inp 255] by simp
next
  case (3 K f m inp cap acc slot x line inp')
  then have "inp \<noteq> []" "inp' = snd (get_line 255 inp)" by (simp_all add: prod_eq_iff)
  then show ?case using get_line_shorter [of inp 255] by simp
qed simp

declare parse_maps_loop.simps [simp del]

definition parse_maps :: "'f kernel \<Rightarrow> bool \<Rightarrow> int \<Rightarrow> 'f process \<Rightarrow> 'f process outcome" where
  "parse_maps K filter_anon minsize p =
     (if \<not> k_malloc K (4 * mem_reg_size) then Undefined
      else continue (defined (pMapsFile p)) (\<lambda>text.
        continue (parse_maps_loop K filter_anon minsize text 4 [] None) (\<lambda>(maps, cap).
        Returns (p\<lparr>pr_maps := Some maps, maps_cap := cap, pMapsFile := Some ''''\<rparr>))))"

section \<open>The lines the kernel writes\<close>

text \<open>
  One entry of the file, and its line: \<open>"%08lx-%08lx %c%c%c%c %08llx %02x:%02x %lu"\<close>, blanks up to
  the name column, the name.
\<close>

record maps_entry =
  e_start :: u64
  e_end :: u64
  e_r :: char
  e_w :: char
  e_x :: char
  e_s :: char
  e_pgoff :: nat
  e_major :: nat
  e_minor :: nat
  e_inode :: nat
  e_pad :: nat
  e_path :: string

definition show_entry :: "maps_entry \<Rightarrow> string" where
  "show_entry e =
     print_padded 8 16 (unat (e_start e)) @ ''-'' @ print_padded 8 16 (unat (e_end e)) @ '' '' @
     [e_r e, e_w e, e_x e, e_s e] @ '' '' @ print_padded 8 16 (e_pgoff e) @ '' '' @
     print_padded 2 16 (e_major e) @ '':'' @ print_padded 2 16 (e_minor e) @ '' '' @
     print_padded 0 10 (e_inode e) @ '' '' @ replicate (e_pad e) (CHR '' '') @ e_path e @ [newline]"

definition entry_ok :: "maps_entry \<Rightarrow> bool" where
  "entry_ok e \<longleftrightarrow> \<not> is_space (e_r e) \<and> e_pgoff e < 2 ^ 64 \<and> e_major e < 2 ^ 32 \<and> e_minor e < 2 ^ 32 \<and>
     e_inode e < 2 ^ 64 \<and> newline \<notin> set (e_path e) \<and> (e_path e \<noteq> [] \<longrightarrow> \<not> is_space (hd (e_path e))) \<and>
     newline \<notin> {e_r e, e_w e, e_x e, e_s e} \<and> length (show_entry e) \<le> 255"

definition region_of :: "maps_entry \<Rightarrow> mem_reg" where
  "region_of e = \<lparr>mr_start = e_start e, mr_end = e_end e,
     pathname = (if e_path e \<noteq> [] then e_path e else made_name (e_start e)),
     mr_pages = [], mr_r = e_r e, mr_w = e_w e, mr_x = e_x e, mr_s = e_s e\<rparr>"

lemma stops_here [simp]:
  "stops b (CHR ''-'' # s)" "stops b (CHR '' '' # s)" "stops b (CHR '':'' # s)"
  by (simp_all add: stops_def digit_value_def)

lemma skip_space_blank [simp]: "skip_space (CHR '' '' # s) = skip_space s"
  by (simp add: skip_space_def is_space_def)

lemma skip_space_replicate [simp]: "skip_space (replicate n (CHR '' '') @ s) = skip_space s"
  by (induction n) auto

lemma skip_space_number [simp]: "1 < b \<Longrightarrow> b \<le> 16 \<Longrightarrow>
    skip_space (print_padded k b n @ s) = print_padded k b n @ s"
  by (rule digit_string_plain) (simp_all add: digit_string_padded)

lemma skip_space_nonspace [simp]: "\<not> is_space c \<Longrightarrow> skip_space (c # s) = c # s"
  by (simp add: skip_space_def)

lemma skip_space_path:
  "e_path e \<noteq> [] \<longrightarrow> \<not> is_space (hd (e_path e)) \<Longrightarrow>
   skip_space (e_path e @ [newline]) = (if e_path e = [] then [] else e_path e @ [newline])"
  by (cases "e_path e") (auto simp: skip_space_def is_space_def newline_def)

lemma takeWhile_path:
  "newline \<notin> set p \<Longrightarrow> takeWhile (\<lambda>c. c \<noteq> newline) (p @ [newline]) = p"
  by (induction p) auto

lemma unat_less_64: "unat (w :: u64) < 2 ^ 64"
  using unsigned_less [of w] by simp

lemma scan_entry:
  assumes "entry_ok e"
  shows "scan maps_format (show_entry e) =
    [Num (unat (e_start e)), Num (unat (e_end e)), Chr (e_r e), Chr (e_w e), Chr (e_x e), Chr (e_s e),
     Num (e_pgoff e), Num (e_major e), Num (e_minor e), Num (e_inode e)] @
    (if e_path e = [] then [] else [Str (e_path e)])"
proof -
  note num16 = scan_number_padded [of 16]
  note num10 = scan_number_padded [of 10]
  have ok: "\<not> is_space (e_r e)" "e_pgoff e < 2 ^ 64" "e_major e < 2 ^ 32" "e_minor e < 2 ^ 32"
    "e_inode e < 2 ^ 64" "newline \<notin> set (e_path e)"
    "e_path e \<noteq> [] \<longrightarrow> \<not> is_space (hd (e_path e))"
    using assms by (auto simp: entry_ok_def)
  show ?thesis
    unfolding show_entry_def maps_format_def
    using ok unat_less_64 [of "e_start e"] unat_less_64 [of "e_end e"]
    by (simp add: num16 num10 skip_space_path takeWhile_path Let_def del: replicate.simps)
qed

lemma parse_maps_line_entry:
  assumes "entry_ok e" and "slot = None \<or> mr_pages (the slot) = []"
  shows "parse_maps_line (show_entry e) slot = Some (region_of e)"
  using assms(2)
  by (auto simp: parse_maps_line_def scan_entry [OF assms(1)] region_of_def split: option.splits)

lemma get_line_whole:
  "newline \<notin> set l \<Longrightarrow> length l < n \<Longrightarrow> get_line n (l @ newline # rest) = (l @ [newline], rest)"
proof (induction l arbitrary: n)
  case Nil
  then show ?case by (cases n) auto
next
  case (Cons c l)
  then show ?case by (cases n) auto
qed

lemma newline_not_digit: "newline \<notin> set (print_padded k b n)" if "1 < b" "b \<le> 16"
  using digit_string_16 [OF digit_string_padded [OF that(1)] that(2), of newline]
  by (auto simp: newline_def)

lemma show_entry_line: "\<exists>l. show_entry e = l @ [newline] \<and> (entry_ok e \<longrightarrow> newline \<notin> set l)"
proof -
  let ?l = "print_padded 8 16 (unat (e_start e)) @ ''-'' @ print_padded 8 16 (unat (e_end e)) @ '' '' @
     [e_r e, e_w e, e_x e, e_s e] @ '' '' @ print_padded 8 16 (e_pgoff e) @ '' '' @
     print_padded 2 16 (e_major e) @ '':'' @ print_padded 2 16 (e_minor e) @ '' '' @
     print_padded 0 10 (e_inode e) @ '' '' @ replicate (e_pad e) (CHR '' '') @ e_path e"
  have "newline \<noteq> CHR ''-'' \<and> newline \<noteq> CHR '' '' \<and> newline \<noteq> CHR '':''" by (simp add: newline_def)
  then have "entry_ok e \<Longrightarrow> newline \<notin> set ?l"
    by (auto simp: entry_ok_def newline_not_digit)
  moreover have "show_entry e = ?l @ [newline]" by (simp add: show_entry_def)
  ultimately show ?thesis by blast
qed

lemma get_line_entry:
  assumes "entry_ok e"
  shows "get_line 255 (show_entry e @ rest) = (show_entry e, rest)"
proof -
  obtain l where "show_entry e = l @ [newline]" "newline \<notin> set l"
    using show_entry_line assms by blast
  with assms get_line_whole [of l 255 rest] show ?thesis by (simp add: entry_ok_def)
qed

definition keep_region :: "bool \<Rightarrow> int \<Rightarrow> mem_reg \<Rightarrow> bool" where
  "keep_region filter_anon minsize mr \<longleftrightarrow> (filter_anon \<longrightarrow> mr_is_anon mr) \<and> minsize < mr_page_num mr"

definition clean :: "mem_reg option \<Rightarrow> bool" where
  "clean slot \<longleftrightarrow> (case slot of None \<Rightarrow> True | Some mr \<Rightarrow> mr_pages mr = [])"

lemma parse_maps_loop_entries:
  assumes "\<forall>e \<in> set es. entry_ok e" and "\<forall>n. k_malloc K n"
    and "clean slot" and "length accepted < cap" and "cap \<le> max 4 (2 * (length accepted + 1))"
  shows "\<exists>cap'. parse_maps_loop K fa m (concat (map show_entry es)) cap accepted slot
      = Returns (accepted @ filter (keep_region fa m) (map region_of es), cap') \<and>
    length (accepted @ filter (keep_region fa m) (map region_of es)) < cap' \<and>
    cap' \<le> max 4 (2 * (length (accepted @ filter (keep_region fa m) (map region_of es)) + 1))"
  using assms
proof (induction es arbitrary: slot accepted cap)
  case Nil
  then show ?case by (simp add: parse_maps_loop.simps)
next
  case (Cons e es)
  let ?rest = "concat (map show_entry es)"
  let ?cap = "if cap = length accepted + 1 then cap * 2 else cap"
  have e: "entry_ok e" using Cons.prems(1) by simp
  have "show_entry e \<noteq> []" using show_entry_line [of e] by auto
  moreover have "parse_maps_line (show_entry e) slot = Some (region_of e)"
    using parse_maps_line_entry [OF e] Cons.prems(3) by (auto simp: clean_def split: option.splits)
  ultimately have step: "parse_maps_loop K fa m (show_entry e @ ?rest) cap accepted slot =
    (if keep_region fa m (region_of e)
     then parse_maps_loop K fa m ?rest ?cap (accepted @ [region_of e]) None
     else parse_maps_loop K fa m ?rest ?cap accepted (Some (region_of e)))"
    using Cons.prems(2,4) get_line_entry [OF e, of ?rest]
    by (subst parse_maps_loop.simps) (auto simp: keep_region_def Let_def)
  have c: "length accepted + 1 < ?cap" "?cap \<le> max 4 (2 * (length accepted + 1))"
    using Cons.prems(4,5) by auto
  have cl: "clean (Some (region_of e))" "clean None" by (simp_all add: clean_def region_of_def)
  have es: "\<forall>e \<in> set es. entry_ok e" using Cons.prems(1) by simp
  show ?case
  proof (cases "keep_region fa m (region_of e)")
    case True
    with step Cons.IH [OF es Cons.prems(2) cl(2), of "accepted @ [region_of e]" ?cap] c
    show ?thesis by simp
  next
    case False
    with step Cons.IH [OF es Cons.prems(2) cl(1), of accepted ?cap] c
    show ?thesis by simp
  qed
qed

end
