(* ===== verification/Read_Mem.thy ===== *)
theory Read_Mem
  imports Maps
begin

text \<open>
  \<open>read_mem\<close>: one hash per page of every region, read through a stream positioned at the start
  of the region. The stream is a parameter: each read yields the bytes it got, a page or less.
\<close>

section \<open>Definitions\<close>

text \<open>\<open>numPages\<close>, one more than the whole pages of the region.\<close>

definition numPages :: "mem_reg \<Rightarrow> u64" where
  "numPages mr = (mr_end mr - mr_start mr) div of_nat pageSize + 1"

definition page_size_of :: nat where
  "page_size_of = 8"

text \<open>
  What a short read prints, and what the loop prints when the array is full.
\<close>

definition short_text :: "'f kernel \<Rightarrow> 'f \<Rightarrow> string" where
  "short_text K f = ''fread error at /proc/pid/mem/: '' @ k_strerror K f @ [newline] @
     ''try again may solve the question'' @ [newline]"

definition full_text :: string where
  "full_text = ''read_mem:pages size too small'' @ [newline]"

text \<open>
  The loop over the addresses of a region. A short read goes on with the next address but
  not with the next index; the loop also ends when the array is full. \<open>out\<close> is what was printed.
\<close>

partial_function (option) read_loop :: "'f kernel \<Rightarrow> u64 \<Rightarrow> u64 \<Rightarrow> u64 \<Rightarrow> nat \<Rightarrow> page list \<Rightarrow> 'f \<Rightarrow> string \<Rightarrow>
    (page list \<times> 'f \<times> string) option" where
  "read_loop K addr stop num idx pages f out =
     (if \<not> addr < stop then Some (pages, f, out)
      else
        let (bytes, f') = k_fread K f in
        if length bytes \<noteq> pageSize
        then read_loop K (addr + of_nat pageSize) stop num idx pages f' (out @ short_text K f')
        else if idx \<ge> length pages then None
        else
          let pages' = pages[idx := (pages ! idx)\<lparr>pg_hash := Some (page_hash bytes)\<rparr>] in
          if int (idx + 1) = to_int num then Some (pages', f', out @ full_text)
          else read_loop K (addr + of_nat pageSize) stop num (idx + 1) pages' f' out)"

text \<open>One region: allocate, seek, read. A failed allocation leaves an array without elements.\<close>

definition read_region :: "'f kernel \<Rightarrow> mem_reg \<Rightarrow> 'f \<Rightarrow> string \<Rightarrow> (mem_reg \<times> 'f \<times> string) outcome" where
  "read_region K mr f out =
     (let num = numPages mr;
          pages = (if k_malloc K (page_size_of * unat num) then replicate (unat num) fresh_page else []);
          f = k_fseeko K (mr_start mr) f
      in continue (defined (read_loop K (mr_start mr) (mr_end mr) num 0 pages f out)) (\<lambda>(pages, f, out).
         Returns (mr\<lparr>mr_pages := pages\<rparr>, f, out)))"

definition read_mem :: "'f kernel \<Rightarrow> 'f process \<Rightarrow> ('f process \<times> string) outcome" where
  "read_mem K p =
     continue (defined (pr_maps p)) (\<lambda>maps.
     continue (defined (pMemFile p)) (\<lambda>f.
     continue (for_all maps (\<lambda>mr (mrs, f, out).
         continue (read_region K mr f out) (\<lambda>(mr, f, out). Returns (mrs @ [mr], f, out))) ([], f, [])) (\<lambda>(mrs, f, out).
     Returns (p\<lparr>pr_maps := Some mrs, pMemFile := Some f\<rparr>, out))))"

section \<open>What the reads leave\<close>

text \<open>The results of \<open>n\<close> reads in a row, and the stream after them.\<close>

fun reads :: "'f kernel \<Rightarrow> nat \<Rightarrow> 'f \<Rightarrow> u8 list list" where
  "reads K 0 f = []"
| "reads K (Suc n) f = (let (bytes, f') = k_fread K f in bytes # reads K n f')"

fun after_reads :: "'f kernel \<Rightarrow> nat \<Rightarrow> 'f \<Rightarrow> 'f" where
  "after_reads K 0 f = f"
| "after_reads K (Suc n) f = after_reads K n (snd (k_fread K f))"

text \<open>What they print: a report for each one that falls short.\<close>

fun read_errors :: "'f kernel \<Rightarrow> nat \<Rightarrow> 'f \<Rightarrow> string" where
  "read_errors K 0 f = []"
| "read_errors K (Suc n) f = (let (bytes, f') = k_fread K f in
     (if length bytes \<noteq> pageSize then short_text K f' else []) @ read_errors K n f')"

definition whole :: "u8 list list \<Rightarrow> u8 list list" where
  "whole bs = filter (\<lambda>b. length b = pageSize) bs"

text \<open>The array after storing the hashes of \<open>bs\<close> at the front of \<open>n\<close> fresh elements.\<close>

definition hashed :: "u8 list list \<Rightarrow> nat \<Rightarrow> page list" where
  "hashed bs n = map (\<lambda>b. \<lparr>pg_hash = Some (page_hash b), pg_share = None\<rparr>) bs
     @ replicate (n - length bs) fresh_page"

lemma hashed_step:
  assumes "length bs < n"
  shows "(hashed bs n)[length bs := (hashed bs n ! length bs)\<lparr>pg_hash := Some (page_hash b)\<rparr>]
    = hashed (bs @ [b]) n"
proof -
  obtain m where "n - length bs = Suc m" using assms by (cases "n - length bs") auto
  moreover then have "n - Suc (length bs) = m" by simp
  ultimately show ?thesis
    by (simp add: hashed_def nth_append list_update_append fresh_page_def)
qed

lemma length_reads [simp]: "length (reads K n f) = n"
  by (induction n arbitrary: f) (auto simp: Let_def split: prod.splits)

text \<open>An aligned region: the loop runs once per page and never fills the array.\<close>

lemma read_loop_pages:
  assumes "unat num = N" and "N < 2 ^ 31"
    and "unat addr + pageSize * n = unat stop" and "length bs + n < N"
  shows "read_loop K addr stop num (length bs) (hashed bs N) f out
    = Some (hashed (bs @ whole (reads K n f)) N, after_reads K n f, out @ read_errors K n f)"
  using assms(3,4)
proof (induction n arbitrary: addr bs f out)
  case 0
  then have "\<not> addr < stop" by (simp add: word_less_nat_alt)
  then show ?case by (subst read_loop.simps) (simp add: whole_def)
next
  case (Suc n)
  have lt: "addr < stop" using Suc.prems(1) by (simp add: word_less_nat_alt pageSize_def)
  have "unat addr + pageSize < 2 ^ 64"
    using Suc.prems(1) unsigned_less [of stop, where ?'a = nat] by (simp add: pageSize_def)
  then have next_addr: "unat (addr + of_nat pageSize) = unat addr + pageSize"
    by (simp add: pageSize_def unat_add_lem [THEN iffD1])
  have step: "unat (addr + of_nat pageSize) + pageSize * n = unat stop"
    using Suc.prems(1) next_addr by simp
  obtain b f' where bf: "k_fread K f = (b, f')" by (cases "k_fread K f")
  show ?case
  proof (cases "length b = pageSize")
    case False
    with lt bf Suc.IH [OF step] Suc.prems(2) show ?thesis
      by (subst read_loop.simps) (simp add: whole_def)
  next
    case True
    have idx: "length bs < length (hashed bs N)" using Suc.prems(2) by (simp add: hashed_def)
    have num: "to_int num = int N" using to_int_small [of num] assms(1,2) by simp
    have "read_loop K addr stop num (length bs) (hashed bs N) f out
        = read_loop K (addr + of_nat pageSize) stop num (length (bs @ [b])) (hashed (bs @ [b]) N) f' out"
      using lt bf True idx Suc.prems(2) num hashed_step [of bs N b]
      by (subst read_loop.simps) simp
    with Suc.IH [OF step, of "bs @ [b]" f' out] Suc.prems(2) bf True show ?thesis
      by (simp add: whole_def)
  qed
qed

text \<open>A region of \<open>n\<close> whole pages, small enough for the int conversions.\<close>

definition page_aligned :: "mem_reg \<Rightarrow> nat \<Rightarrow> bool" where
  "page_aligned mr n \<longleftrightarrow> unat (mr_start mr) + pageSize * n = unat (mr_end mr) \<and> n + 1 < 2 ^ 31"

lemma page_total_aligned: "page_aligned mr n \<Longrightarrow> page_total mr = n"
proof -
  assume a: "page_aligned mr n"
  then have "mr_start mr \<le> mr_end mr" by (simp add: page_aligned_def word_le_nat_alt)
  then have "unat (mr_end mr - mr_start mr) = unat (mr_end mr) - unat (mr_start mr)"
    by (rule unat_sub)
  also have "\<dots> = pageSize * n"
    using a unfolding page_aligned_def by linarith
  finally have "unat (mr_end mr - mr_start mr) = pageSize * n" .
  then show ?thesis by (simp add: page_total_def pageSize_def)
qed

lemma numPages_aligned: "page_aligned mr n \<Longrightarrow> unat (numPages mr) = n + 1"
proof -
  assume a: "page_aligned mr n"
  let ?q = "(mr_end mr - mr_start mr) div of_nat pageSize :: u64"
  have q: "unat ?q = n" using unat_pages page_total_aligned [OF a] by metis
  moreover have "n + 1 < 2 ^ 64" using a by (simp add: page_aligned_def)
  ultimately have "unat (?q + 1) = n + 1"
    by (simp add: unat_add_lem [THEN iffD1])
  then show ?thesis by (simp add: numPages_def)
qed

lemma hashed_Nil: "hashed [] n = replicate n fresh_page"
  by (simp add: hashed_def)

lemma read_region_aligned:
  assumes "page_aligned mr n" and "k_malloc K (page_size_of * (n + 1))"
  shows "read_region K mr f out = Returns
    (mr\<lparr>mr_pages := hashed (whole (reads K n (k_fseeko K (mr_start mr) f))) (n + 1)\<rparr>,
     after_reads K n (k_fseeko K (mr_start mr) f), out @ read_errors K n (k_fseeko K (mr_start mr) f))"
proof -
  note N = numPages_aligned [OF assms(1)]
  have "read_loop K (mr_start mr) (mr_end mr) (numPages mr) 0 (hashed [] (n + 1)) g out
      = Some (hashed (whole (reads K n g)) (n + 1), after_reads K n g, out @ read_errors K n g)" for g
    using read_loop_pages [OF N, of "mr_start mr" n "mr_end mr" "[]" K g out] assms(1)
    by (simp add: page_aligned_def)
  then show ?thesis
    using assms(2) by (simp add: read_region_def Let_def N hashed_Nil)
qed

lemma length_whole: "length (whole bs) \<le> length bs"
  by (simp add: whole_def)

lemma hashed_nth:
  "i < length bs \<Longrightarrow> hashed bs n ! i = \<lparr>pg_hash = Some (page_hash (bs ! i)), pg_share = None\<rparr>"
  "length bs \<le> i \<Longrightarrow> i < n \<Longrightarrow> hashed bs n ! i = fresh_page"
  by (simp_all add: hashed_def nth_append)

lemma length_hashed: "length bs \<le> n \<Longrightarrow> length (hashed bs n) = n"
  by (simp add: hashed_def)

section \<open>All regions\<close>

text \<open>What \<open>read_mem\<close> makes of one region.\<close>

definition region_read :: "'f kernel \<Rightarrow> mem_reg \<Rightarrow> mem_reg \<Rightarrow> bool" where
  "region_read K mr mr' \<longleftrightarrow> (\<exists>f n. page_aligned mr n \<and>
     mr' = mr\<lparr>mr_pages := hashed (whole (reads K n (k_fseeko K (mr_start mr) f))) (n + 1)\<rparr>)"

text \<open>The stream as it stands at the start of each region, and the region with what is read there.\<close>

fun streams :: "'f kernel \<Rightarrow> mem_reg list \<Rightarrow> 'f \<Rightarrow> 'f list" where
  "streams K [] f = []"
| "streams K (mr # mrs) f =
     (let g = k_fseeko K (mr_start mr) f in g # streams K mrs (after_reads K (page_total mr) g))"

definition filled :: "'f kernel \<Rightarrow> mem_reg \<Rightarrow> 'f \<Rightarrow> mem_reg" where
  "filled K mr g = mr\<lparr>mr_pages := hashed (whole (reads K (page_total mr) g)) (page_total mr + 1)\<rparr>"

lemma length_streams [simp]: "length (streams K mrs f) = length mrs"
  by (induction mrs arbitrary: f) (simp_all add: Let_def)

lemma streams_at: "g \<in> set (zip mrs (streams K mrs f)) \<Longrightarrow> \<exists>h. snd g = k_fseeko K (mr_start (fst g)) h"
  by (induction mrs arbitrary: f) (auto simp: Let_def)

lemma read_regions:
  fixes K :: "'f kernel"
  assumes "\<forall>mr \<in> set maps. \<exists>n. page_aligned mr n" and "\<forall>n. k_malloc K n"
  shows "\<exists>f'. for_all maps (\<lambda>mr (mrs, f, out).
      continue (read_region K mr f out) (\<lambda>(mr, f, out). Returns (mrs @ [mr], f, out))) (done, f, out)
    = Returns (done @ map2 (filled K) maps (streams K maps f), f',
        out @ concat (map2 (\<lambda>mr. read_errors K (page_total mr)) maps (streams K maps f)))"
  using assms(1)
proof (induction maps arbitrary: "done" f out)
  case (Cons mr maps)
  let ?g = "k_fseeko K (mr_start mr) f"
  obtain n where n: "page_aligned mr n" using Cons.prems by auto
  have "read_region K mr f out = Returns (filled K mr ?g, after_reads K (page_total mr) ?g,
      out @ read_errors K (page_total mr) ?g)"
    using read_region_aligned [OF n, of K f out] assms(2) page_total_aligned [OF n] by (simp add: filled_def)
  then show ?case
    using Cons.IH [of "done @ [filled K mr ?g]" "after_reads K (page_total mr) ?g" "out @ read_errors K (page_total mr) ?g"]
      Cons.prems by (simp add: Let_def)
qed simp

lemma read_mem_streams:
  fixes K :: "'f kernel"
  assumes "pr_maps p = Some maps" and "pMemFile p = Some f"
    and "\<forall>mr \<in> set maps. \<exists>n. page_aligned mr n" and "\<forall>n. k_malloc K n"
  shows "\<exists>f'. read_mem K p = Returns
    (p\<lparr>pr_maps := Some (map2 (filled K) maps (streams K maps f)), pMemFile := Some f'\<rparr>,
     concat (map2 (\<lambda>mr. read_errors K (page_total mr)) maps (streams K maps f)))"
  using read_regions [OF assms(3,4), of "[]" f "[]"] assms(1,2) by (auto simp: read_mem_def)

lemma read_mem_regions:
  fixes K :: "'f kernel"
  assumes "pr_maps p = Some maps" and "pMemFile p = Some f"
    and "\<forall>mr \<in> set maps. \<exists>n. page_aligned mr n" and "\<forall>n. k_malloc K n"
  shows "\<exists>mrs f' out. read_mem K p = Returns (p\<lparr>pr_maps := Some mrs, pMemFile := Some f'\<rparr>, out) \<and>
    list_all2 (region_read K) maps mrs"
proof -
  have "region_read K mr (filled K mr g)" if m: "(mr, g) \<in> set (zip maps (streams K maps f))" for mr g
  proof -
    obtain n where n: "page_aligned mr n" using assms(3) set_zip_leftD [OF m] by blast
    obtain h where "g = k_fseeko K (mr_start mr) h" using streams_at [OF m] by auto
    then show ?thesis
      using n by (auto simp: region_read_def filled_def page_total_aligned [OF n])
  qed
  then have "list_all2 (region_read K) maps (map2 (filled K) maps (streams K maps f))"
    by (auto simp: list_all2_conv_all_nth in_set_zip)
  with read_mem_streams [OF assms] show ?thesis by blast
qed

section \<open>A memory image\<close>

text \<open>
  A stream, and those it turns into, that serve the pages of one memory image: seeking goes to an
  address, and a read there yields the page and moves on to the next.
\<close>

definition serves_memory :: "'f kernel \<Rightarrow> 'f \<Rightarrow> (u64 \<Rightarrow> u8 list) \<Rightarrow> bool" where
  "serves_memory K f mem \<longleftrightarrow> (\<exists>pos. (\<forall>a. k_fseeko K a f = pos a) \<and>
     (\<forall>a b. k_fseeko K a (pos b) = pos a) \<and>
     (\<forall>a. k_fread K (pos a) = (mem a, pos (a + of_nat pageSize)))) \<and> (\<forall>a. length (mem a) = pageSize)"

definition page_addr :: "mem_reg \<Rightarrow> nat \<Rightarrow> u64" where
  "page_addr mr j = mr_start mr + of_nat (pageSize * j)"

text \<open>A region with the hashes of its memory; the spare element has none.\<close>

definition with_image :: "(u64 \<Rightarrow> u8 list) \<Rightarrow> mem_reg \<Rightarrow> mem_reg" where
  "with_image mem mr = mr\<lparr>mr_pages :=
     map (\<lambda>j. \<lparr>pg_hash = Some (page_hash (mem (page_addr mr j))), pg_share = None\<rparr>) [0..<page_total mr]
     @ [fresh_page]\<rparr>"

lemma reads_memory:
  assumes "\<forall>a. k_fread K (pos a) = (mem a, pos (a + of_nat pageSize))"
  shows "reads K n (pos a) = map (\<lambda>j. mem (a + of_nat (pageSize * j))) [0..<n]"
proof (induction n arbitrary: a)
  case (Suc n)
  have "[0..<Suc n] = 0 # map Suc [0..<n]" by (simp add: map_Suc_upt upt_conv_Cons del: upt_Suc)
  then show ?case using assms Suc.IH by (simp add: algebra_simps del: upt_Suc)
qed simp

lemma after_reads_memory:
  "\<forall>a. k_fread K (pos a) = (mem a, pos (a + of_nat pageSize)) \<Longrightarrow> \<exists>b. after_reads K n (pos a) = pos b"
  by (induction n arbitrary: a) auto

lemma read_errors_memory:
  assumes "\<forall>a. k_fread K (pos a) = (mem a, pos (a + of_nat pageSize))" and "\<forall>a. length (mem a) = pageSize"
  shows "read_errors K n (pos a) = []"
  using assms by (induction n arbitrary: a) simp_all

text \<open>Then every page of every region has the hash of its memory, and nothing is printed.\<close>

lemma read_mem_image:
  fixes K :: "'f kernel"
  assumes "pr_maps p = Some maps" and "pMemFile p = Some f"
    and "\<forall>mr \<in> set maps. \<exists>n. page_aligned mr n" and "\<forall>n. k_malloc K n" and "serves_memory K f mem"
  shows "\<exists>f'. read_mem K p = Returns (p\<lparr>pr_maps := Some (map (with_image mem) maps), pMemFile := Some f'\<rparr>, [])"
proof -
  obtain pos where pos: "\<forall>a. k_fseeko K a f = pos a" "\<forall>a b. k_fseeko K a (pos b) = pos a"
    "\<forall>a. k_fread K (pos a) = (mem a, pos (a + of_nat pageSize))" and len: "\<forall>a. length (mem a) = pageSize"
    using assms(5) unfolding serves_memory_def by blast
  have st: "streams K ms g = map (\<lambda>mr. pos (mr_start mr)) ms" if "\<forall>a. k_fseeko K a g = pos a" for ms g
    using that
  proof (induction ms arbitrary: g)
    case (Cons mr ms)
    obtain b where b: "after_reads K (page_total mr) (pos (mr_start mr)) = pos b"
      using after_reads_memory [OF pos(3)] by blast
    have "streams K ms (pos b) = map (\<lambda>mr. pos (mr_start mr)) ms" using Cons.IH pos(2) by blast
    with b Cons.prems show ?case by simp
  qed simp
  have "filled K mr (pos (mr_start mr)) = with_image mem mr" if "mr \<in> set maps" for mr
  proof -
    have "whole (reads K n (pos (mr_start mr))) = map (\<lambda>j. mem (page_addr mr j)) [0..<n]" for n
      using len by (simp add: reads_memory [OF pos(3)] whole_def page_addr_def filter_map comp_def)
    then show ?thesis by (simp add: filled_def hashed_def with_image_def)
  qed
  then have "map2 (filled K) maps (streams K maps f) = map (with_image mem) maps"
    unfolding st [OF pos(1)] by (intro nth_equalityI) auto
  moreover have "map2 (\<lambda>mr. read_errors K (page_total mr)) maps (streams K maps f) = map (\<lambda>mr. []) maps"
    unfolding st [OF pos(1)] read_errors_memory [OF pos(3) len, symmetric]
    by (intro nth_equalityI) (simp_all add: read_errors_memory [OF pos(3) len])
  moreover have no_text: "concat (map (\<lambda>mr. []) maps) = ([] :: string)" by simp
  ultimately show ?thesis using read_mem_streams [OF assms(1-4)] by (simp only: no_text)
qed

end
