(* ===== verification/Ptrace.thy ===== *)
theory Ptrace
  imports Prelude
begin

text \<open>
  The protocol of \<open>ptrace\<close> as far as \<open>mem.c\<close> uses it: what a process is to the tool, which requests
  are granted, and how they change it. \<open>ptrace\<close> itself is a parameter of the model.
\<close>

section \<open>Requests and answers\<close>

datatype ptrace_request = Attach | Cont | Detach

text \<open>A process that is traced has stopped, or runs until its next signal.\<close>

datatype tracee = Untraced | Stopped | Running

text \<open>
  The requests so far, each with the process it went to and the answer, and \<open>ptrace\<close> as a function
  of them, of the request and of the process.
\<close>

type_synonym history = "(ptrace_request \<times> int \<times> int) list"

type_synonym ptrace_fun = "history \<Rightarrow> ptrace_request \<Rightarrow> int \<Rightarrow> int"

text \<open>
  One request: 0 where it is granted, -1 and no change where it is not. A process can be attached
  to when it is not traced already, and even then it may be refused. To go on and to be detached
  it has to be stopped. Attaching stops it, which the tool waits for; that a signal stops it
  in between is left out.
\<close>

inductive ptrace_step :: "tracee \<Rightarrow> ptrace_request \<Rightarrow> int \<Rightarrow> tracee \<Rightarrow> bool" where
  attach: "ptrace_step Untraced Attach 0 Stopped"
| attach_refused: "ptrace_step t Attach (- 1) t"
| cont: "ptrace_step Stopped Cont 0 Running"
| cont_refused: "t \<noteq> Stopped \<Longrightarrow> ptrace_step t Cont (- 1) t"
| detach: "ptrace_step Stopped Detach 0 Untraced"
| detach_refused: "t \<noteq> Stopped \<Longrightarrow> ptrace_step t Detach (- 1) t"

code_pred ptrace_step .

inductive_simps ptrace_step_simps [simp]:
  "ptrace_step t Attach a t'" "ptrace_step t Cont a t'" "ptrace_step t Detach a t'"

inductive_cases ptrace_stepE: "ptrace_step t r a t'"

section \<open>The state of a process\<close>

text \<open>What a process is after a request, and after a history.\<close>

fun answered :: "tracee \<Rightarrow> ptrace_request \<Rightarrow> int \<Rightarrow> tracee" where
  "answered t r a = (if a < 0 then t else case r of Attach \<Rightarrow> Stopped | Cont \<Rightarrow> Running | Detach \<Rightarrow> Untraced)"

fun tracee_after :: "int \<Rightarrow> history \<Rightarrow> tracee \<Rightarrow> tracee" where
  "tracee_after pid [] t = t"
| "tracee_after pid ((r, p, a) # h) t = tracee_after pid h (if p = pid then answered t r a else t)"

definition tracee_of :: "history \<Rightarrow> int \<Rightarrow> tracee" where
  "tracee_of h pid = tracee_after pid h Untraced"

lemma ptrace_step_answered: "ptrace_step t r a t' \<Longrightarrow> t' = answered t r a"
  by (auto elim: ptrace_stepE)

lemma ptrace_step_deterministic: "ptrace_step t r a t' \<Longrightarrow> ptrace_step t r a t'' \<Longrightarrow> t' = t''"
  by (auto dest: ptrace_step_answered)

lemma tracee_after_append: "tracee_after pid (h @ h') t = tracee_after pid h' (tracee_after pid h t)"
  by (induction h arbitrary: t) auto

lemma tracee_of_append: "tracee_of (h @ h') pid = tracee_after pid h' (tracee_of h pid)"
  by (simp add: tracee_of_def tracee_after_append)

lemma tracee_after_other: "(\<And>r p a. (r, p, a) \<in> set h \<Longrightarrow> p \<noteq> pid) \<Longrightarrow> tracee_after pid h t = t"
  by (induction h arbitrary: t) force+

section \<open>The documented behaviour\<close>

definition ptrace_ok :: "ptrace_fun \<Rightarrow> bool" where
  "ptrace_ok ptrace \<longleftrightarrow>
     (\<forall>h r pid. \<exists>t. ptrace_step (tracee_of h pid) r (ptrace h r pid) t)"

text \<open>A process that the tool is allowed to trace, and one that it is not.\<close>

definition may_attach :: "ptrace_fun \<Rightarrow> int \<Rightarrow> bool" where
  "may_attach ptrace pid \<longleftrightarrow> (\<forall>h. tracee_of h pid = Untraced \<longrightarrow> ptrace h Attach pid = 0)"

definition refuses :: "ptrace_fun \<Rightarrow> int \<Rightarrow> bool" where
  "refuses ptrace pid \<longleftrightarrow> (\<forall>h. ptrace h Attach pid < 0)"

lemma ptrace_answers:
  assumes "ptrace_ok ptrace"
  shows "tracee_of h pid \<noteq> Untraced \<Longrightarrow> ptrace h Attach pid = - 1"
    and "ptrace h Cont pid = (if tracee_of h pid = Stopped then 0 else - 1)"
    and "ptrace h Detach pid = (if tracee_of h pid = Stopped then 0 else - 1)"
proof -
  have s: "\<exists>t. ptrace_step (tracee_of h pid) r (ptrace h r pid) t" for r
    using assms by (simp add: ptrace_ok_def)
  show "tracee_of h pid \<noteq> Untraced \<Longrightarrow> ptrace h Attach pid = - 1"
    "ptrace h Cont pid = (if tracee_of h pid = Stopped then 0 else - 1)"
    "ptrace h Detach pid = (if tracee_of h pid = Stopped then 0 else - 1)"
    using s [of Attach] s [of Cont] s [of Detach] by auto
qed

text \<open>A \<open>ptrace\<close> that grants whatever can be granted to the processes allowed.\<close>

fun granting :: "(int \<Rightarrow> bool) \<Rightarrow> ptrace_fun" where
  "granting allowed h Attach pid = (if tracee_of h pid = Untraced \<and> allowed pid then 0 else - 1)"
| "granting allowed h Cont pid = (if tracee_of h pid = Stopped then 0 else - 1)"
| "granting allowed h Detach pid = (if tracee_of h pid = Stopped then 0 else - 1)"

lemma granting_ok: "ptrace_ok (granting allowed)"
  unfolding ptrace_ok_def
proof (intro allI)
  fix h r pid
  show "\<exists>t. ptrace_step (tracee_of h pid) r (granting allowed h r pid) t" by (cases r) auto
qed

lemma granting_attach: "allowed pid \<Longrightarrow> may_attach (granting allowed) pid" "\<not> allowed pid \<Longrightarrow> refuses (granting allowed) pid"
  by (simp_all add: may_attach_def refuses_def)

end
