(* ===== verification/Pagemap.thy ===== *)
theory Pagemap
  imports Read_Mem Page_Flags Ptrace
begin

unbundle bit_operations_syntax

text \<open>
  How often the pages of a region are mapped: \<open>mr_parse_pagemap\<close> finds the page frames in
  \<open>/proc/<pid>/pagemap\<close>, \<open>walk_pfn\<close> looks their counts up in \<open>/proc/kpagecount\<close>.
\<close>

section \<open>Files of 64-bit words\<close>

text \<open>
  The open descriptors, the two global ones, what was printed to \<open>stderr\<close>, the requests made
  through \<open>ptrace\<close>, with the process each went to and the answer, the global stop watch, and how
  often \<open>clock\<close> was called.
\<close>

record timer =
  t_start :: int
  t_total :: int

record env =
  fds :: "int \<rightharpoonup> string"
  kpageflags_fd :: int
  kpagecount_fd :: int
  err :: string
  traced :: history
  watch :: timer
  ticks :: nat

text \<open>Printing to \<open>stderr\<close>.\<close>

definition say :: "string \<Rightarrow> env \<Rightarrow> env" where
  "say txt E = E\<lparr>err := err E @ txt\<rparr>"

lemma say_simps [simp]:
  "fds (say txt E) = fds E" "err (say txt E) = err E @ txt" "traced (say txt E) = traced E"
  "watch (say txt E) = watch E" "ticks (say txt E) = ticks E" "say [] E = E"
  by (simp_all add: say_def)

definition word_at :: "u64 list \<Rightarrow> nat \<Rightarrow> u64 outcome" where
  "word_at buf i = (if i < length buf then Returns (buf ! i) else Undefined)"

text \<open>
  \<open>do_u64_read\<close> returns the number of words and the buffer. The product \<open>(off_t)index * 8\<close> is
  signed and overflows from index 2^60 on; a read on a descriptor that is not open fails.
\<close>

definition do_u64_read :: "'f kernel \<Rightarrow> env \<Rightarrow> int \<Rightarrow> u64 \<Rightarrow> u64 \<Rightarrow> (u64 \<times> u64 list) outcome" where
  "do_u64_read K E fd index num =
     (if index > - 1 div 8 then Exits EXIT_FAILURE
      else if unat index \<ge> 2 ^ 60 then Undefined
      else case fds E fd of
          None \<Rightarrow> Exits EXIT_FAILURE
        | Some file \<Rightarrow>
            let (bytes, buf) = k_pread K file (unat (num * 8)) (unat index * 8) in
            if bytes < 0 then Exits EXIT_FAILURE
            else if bytes > int (unat (num * 8)) then Undefined
            else if bytes mod 8 \<noteq> 0 then Exits EXIT_FAILURE
            else Returns (word_of_int (bytes div 8), buf))"

definition pagemap_read :: "'f kernel \<Rightarrow> env \<Rightarrow> int \<Rightarrow> u64 \<Rightarrow> u64 \<Rightarrow> (u64 \<times> u64 list) outcome" where
  "pagemap_read K E fd index pages = do_u64_read K E fd index pages"

definition kpageflags_read :: "'f kernel \<Rightarrow> env \<Rightarrow> u64 \<Rightarrow> u64 \<Rightarrow> (u64 \<times> u64 list) outcome" where
  "kpageflags_read K E index pages = do_u64_read K E (kpageflags_fd E) index pages"

definition kpagecount_read :: "'f kernel \<Rightarrow> env \<Rightarrow> u64 \<Rightarrow> u64 \<Rightarrow> (u64 \<times> u64 list) outcome" where
  "kpagecount_read K E index pages =
     (if kpagecount_fd E < 0 then Returns (pages, [])
      else do_u64_read K E (kpagecount_fd E) index pages)"

section \<open>Walking page frames\<close>

text \<open>Round \<open>i\<close> of the inner loop of \<open>walk_pfn\<close>: the count goes to the page at \<open>voffset + i\<close>.\<close>

definition feed_count :: "u64 \<Rightarrow> u64 list \<Rightarrow> nat \<Rightarrow> mem_reg \<Rightarrow> mem_reg outcome" where
  "feed_count voffset cnt i mr =
     (let vaddr = (voffset + of_nat i) * of_nat pageSize;
          page_off = unat ((vaddr - mr_start mr) div of_nat pageSize)
      in if page_off \<ge> length (mr_pages mr) then Undefined
         else continue (word_at cnt i) (\<lambda>c. Returns
           (mr\<lparr>mr_pages := (mr_pages mr)[page_off := (mr_pages mr ! page_off)\<lparr>pg_share := Some (to_int c)\<rparr>]\<rparr>)))"

definition min_t :: "u64 \<Rightarrow> u64 \<Rightarrow> u64" where
  "min_t x y = (if x < y then x else y)"

lemma min_t_eq [simp]: "min_t x y = min x y"
  by (auto simp: min_t_def min_def)

text \<open>\<open>fatal\<close> prints its message and ends the program.\<close>

definition fatal :: "'a outcome" where
  "fatal = Exits EXIT_FAILURE"

definition KPAGEFLAGS_BATCH :: u64 where
  "KPAGEFLAGS_BATCH = push_bit 10 64"

lemma unat_small: "m < 2 ^ 64 \<Longrightarrow> unat (word_of_nat m :: u64) = m"
  by (simp add: unsigned_of_nat take_bit_nat_eq_self)

lemma do_u64_read_le:
  assumes "do_u64_read K E fd index num = Returns (n, buf)" and "unat num < 2 ^ 60"
  shows "n \<le> num"
proof -
  obtain bytes where b: "n = word_of_int (bytes div 8)" "0 \<le> bytes" "bytes \<le> int (unat (num * 8))"
    using assms(1) by (auto simp: do_u64_read_def Let_def split: if_splits option.splits prod.splits)
  have "unat (num * 8) = unat num * 8"
    using assms(2) by (simp add: unat_mult_lem [THEN iffD1])
  with b have "bytes div 8 \<le> int (unat num)" "0 \<le> bytes div 8" by auto
  then obtain m where m: "bytes div 8 = int m" "m \<le> unat num"
    by (metis nonneg_int_cases of_nat_le_iff)
  then have "unat n = m" using b(1) assms(2) by (simp add: unat_small)
  with m show ?thesis by (simp add: word_le_nat_alt)
qed

lemma batch_small: "unat (min num KPAGEFLAGS_BATCH) < 2 ^ 60"
proof -
  have "unat KPAGEFLAGS_BATCH = 65536" by (simp add: KPAGEFLAGS_BATCH_def push_bit_eq_mult)
  moreover have "unat (min num KPAGEFLAGS_BATCH) \<le> unat KPAGEFLAGS_BATCH"
    by (simp add: word_le_nat_alt [symmetric])
  ultimately show ?thesis by simp
qed

lemma pages_left:
  assumes "n \<le> min num b" and "n \<noteq> 0"
  shows "unat (num - n) < unat num"
proof -
  have "n \<le> num" using assms(1) by simp
  then have "unat (num - n) = unat num - unat n" by (rule unat_sub)
  moreover have "0 < unat n" using assms(2) by (simp add: unat_gt_0)
  moreover have "unat n \<le> unat num" using \<open>n \<le> num\<close> by (simp add: word_le_nat_alt)
  ultimately show ?thesis by linarith
qed

text \<open>
  Each round reads at most a batch and stops at the end of the file; the count of words can only
  shrink, so the loop ends. \<open>index\<close> advances by the words read, \<open>voffset\<close> does not.
\<close>

function walk_pfn :: "'f kernel \<Rightarrow> env \<Rightarrow> u64 \<Rightarrow> u64 \<Rightarrow> u64 \<Rightarrow> mem_reg \<Rightarrow> mem_reg outcome" where
  "walk_pfn K E voffset index num mr =
     (if num = 0 then Returns mr
      else let batch = min_t num KPAGEFLAGS_BATCH in
        continue (kpageflags_read K E index batch) (\<lambda>(pages, buf).
        if pages = 0 then Returns mr
        else continue (kpagecount_read K E index pages) (\<lambda>(n, cnt).
          if n \<noteq> pages then fatal
          else continue (for_all [0..<unat pages] (feed_count voffset cnt) mr) (\<lambda>mr.
            walk_pfn K E voffset (index + pages) (num - pages) mr))))"
  by pat_completeness auto
termination
proof (relation "measure (\<lambda>(K, E, voffset, index, num, mr). unat num)", goal_cases)
  case (2 K E voffset index num mr x y pages buf)
  then have "do_u64_read K E (kpageflags_fd E) index (min num KPAGEFLAGS_BATCH) = Returns (pages, buf)"
    "pages \<noteq> 0"
    by (auto simp: kpageflags_read_def)
  from pages_left [OF do_u64_read_le [OF this(1) batch_small] this(2)] show ?case by simp
qed simp

declare walk_pfn.simps [simp del]

definition PAGEMAP_BATCH :: u64 where
  "PAGEMAP_BATCH = push_bit 8 64"

lemma pagemap_batch_small: "unat (min num PAGEMAP_BATCH) < 2 ^ 60"
proof -
  have "unat PAGEMAP_BATCH = 16384" by (simp add: PAGEMAP_BATCH_def push_bit_eq_mult)
  moreover have "unat (min num PAGEMAP_BATCH) \<le> unat PAGEMAP_BATCH"
    by (simp add: word_le_nat_alt [symmetric])
  ultimately show ?thesis by simp
qed

text \<open>One pagemap entry: a present page feeds its count, a swapped one is printed.\<close>

definition pagemap_entry :: "'f kernel \<Rightarrow> u64 \<Rightarrow> u64 list \<Rightarrow> nat \<Rightarrow> mem_reg \<times> env \<Rightarrow> (mem_reg \<times> env) outcome" where
  "pagemap_entry K index buf i = (\<lambda>(mr, E).
     continue (word_at buf i) (\<lambda>val.
     continue (let pfn = pagemap_pfn val in
               if pfn \<noteq> 0 then walk_pfn K E (index + of_nat i) pfn 1 mr else Returns mr) (\<lambda>mr.
     if val AND PM_SWAP \<noteq> 0
     then case walk_swap (index + of_nat i) val of
            Inl status \<Rightarrow> Exits status
          | Inr line \<Rightarrow> Returns (mr, E\<lparr>err := err E @ line\<rparr>)
     else Returns (mr, E))))"

function pagemap_loop :: "'f kernel \<Rightarrow> int \<Rightarrow> u64 \<Rightarrow> u64 \<Rightarrow> mem_reg \<Rightarrow> env \<Rightarrow> (mem_reg \<times> env) outcome" where
  "pagemap_loop K fd index num mr E =
     (if num = 0 then Returns (mr, E)
      else let batch = min_t num PAGEMAP_BATCH in
        continue (pagemap_read K E fd index batch) (\<lambda>(pages, buf).
        if pages = 0 then Returns (mr, E)
        else continue (for_all [0..<unat pages] (pagemap_entry K index buf) (mr, E)) (\<lambda>(mr, E).
          pagemap_loop K fd (index + pages) (num - pages) mr E)))"
  by pat_completeness auto
termination
proof (relation "measure (\<lambda>(K, fd, index, num, mr, E). unat num)", goal_cases)
  case (2 K fd index num mr E x y pages buf z mr' E')
  then have "do_u64_read K E fd index (min num PAGEMAP_BATCH) = Returns (pages, buf)" "pages \<noteq> 0"
    by (auto simp: pagemap_read_def)
  from pages_left [OF do_u64_read_le [OF this(1) pagemap_batch_small] this(2)] show ?case by simp
qed simp

declare pagemap_loop.simps [simp del]

definition mr_parse_pagemap :: "'f kernel \<Rightarrow> mem_reg \<Rightarrow> int \<Rightarrow> env \<Rightarrow> (mem_reg \<times> env) outcome" where
  "mr_parse_pagemap K mr fd E =
     (let num = (mr_end mr - mr_start mr) div of_nat pageSize;
          index = mr_start mr div of_nat pageSize
      in pagemap_loop K fd index num mr E)"

section \<open>The whole process\<close>

definition checked_open :: "'f kernel \<Rightarrow> string \<Rightarrow> env \<Rightarrow> (int \<times> env) outcome" where
  "checked_open K file E =
     (let fd = k_open K file (dom (fds E)) in
      if fd < 0 then Exits EXIT_FAILURE else Returns (fd, E\<lparr>fds := (fds E)(fd \<mapsto> file)\<rparr>))"

text \<open>Closing a descriptor that is not open fails and changes nothing.\<close>

definition close_fd :: "int \<Rightarrow> env \<Rightarrow> env" where
  "close_fd fd E = E\<lparr>fds := (fds E)(fd := None)\<rparr>"

definition proc_parse_pagemap :: "'f kernel \<Rightarrow> 'f process \<Rightarrow> env \<Rightarrow> ('f process \<times> env) outcome" where
  "proc_parse_pagemap K p E =
     continue (checked_open K ''/proc/kpageflags'' E) (\<lambda>(fd, E).
     continue (checked_open K ''/proc/kpagecount'' (E\<lparr>kpageflags_fd := fd\<rparr>)) (\<lambda>(fd, E).
     continue (defined (pr_maps p)) (\<lambda>maps.
     continue (for_all maps (\<lambda>mr (mrs, E).
         continue (mr_parse_pagemap K mr (pagemap_fd p) E) (\<lambda>(mr, E). Returns (mrs @ [mr], E)))
       ([], E\<lparr>kpagecount_fd := fd\<rparr>)) (\<lambda>(mrs, E).
     Returns (p\<lparr>pr_maps := Some mrs\<rparr>, close_fd (kpagecount_fd E) (close_fd (kpagecount_fd E) E))))))"

section \<open>Files that serve their content\<close>

text \<open>
  A file of 64-bit words as the kernel documents it: a read within the file returns at least one
  word and at most as many as asked for, and they are the content from the offset on. How a
  read is cut short is left open.
\<close>

definition serves :: "'f kernel \<Rightarrow> string \<Rightarrow> (nat \<Rightarrow> u64) \<Rightarrow> bool" where
  "serves K file content \<longleftrightarrow> (\<forall>n off. 0 < n \<longrightarrow> (\<exists>m. 0 < m \<and> m \<le> n \<and>
     k_pread K file (8 * n) (8 * off) = (int (8 * m), map content [off..<off + m])))"

lemma do_u64_read_serves:
  assumes "serves K file content" and "fds E fd = Some file"
    and "0 < unat num" "unat num < 2 ^ 60" "unat index < 2 ^ 60"
  shows "\<exists>m. 0 < m \<and> m \<le> unat num \<and>
    do_u64_read K E fd index num = Returns (of_nat m, map content [unat index..<unat index + m])"
proof -
  obtain m where m: "0 < m" "m \<le> unat num"
    "k_pread K file (8 * unat num) (8 * unat index) = (int (8 * m), map content [unat index..<unat index + m])"
    using assms(1,3) unfolding serves_def by blast
  have n8: "unat (num * 8) = 8 * unat num"
    using assms(4) by (simp add: unat_mult_lem [THEN iffD1])
  have "\<not> index > - 1 div 8"
    using assms(5) by (simp add: word_less_nat_alt unat_div_distrib)
  moreover have "int m \<le> int (unat num)" using m(2) by (rule of_nat_mono)
  ultimately have "do_u64_read K E fd index num
      = Returns (of_nat m, map content [unat index..<unat index + m])"
    using assms(2,5) m n8 by (simp add: do_u64_read_def mult.commute zdiv_int [symmetric])
  with m show ?thesis by blast
qed

text \<open>The descriptors and files of a run, and the region that is parsed.\<close>

definition proc_files :: "'f kernel \<Rightarrow> env \<Rightarrow> int \<Rightarrow> (nat \<Rightarrow> u64) \<Rightarrow> (nat \<Rightarrow> u64) \<Rightarrow> bool" where
  "proc_files K E fd pm kc \<longleftrightarrow>
     (\<exists>f1 f2 f3 kf. fds E fd = Some f1 \<and> serves K f1 pm \<and>
       fds E (kpageflags_fd E) = Some f2 \<and> serves K f2 kf \<and>
       fds E (kpagecount_fd E) = Some f3 \<and> serves K f3 kc \<and> 0 \<le> kpagecount_fd E)"

lemma proc_files_err [simp]: "proc_files K (E\<lparr>err := s\<rparr>) fd pm kc = proc_files K E fd pm kc"
  by (simp add: proc_files_def)

definition set_share :: "nat \<Rightarrow> u64 \<Rightarrow> page list \<Rightarrow> page list" where
  "set_share j c pages = pages[j := (pages ! j)\<lparr>pg_share := Some (to_int c)\<rparr>]"

text \<open>Page \<open>j\<close> of a region that starts at page number \<open>i0\<close> of the address space.\<close>

lemma page_offset:
  fixes start :: u64
  assumes "unat start = pageSize * i0" and "i0 + j < 2 ^ 52"
  shows "unat ((word_of_nat (i0 + j) * of_nat pageSize - start) div of_nat pageSize) = j"
proof -
  let ?v = "word_of_nat (i0 + j) * of_nat pageSize :: u64"
  have w: "unat (word_of_nat (i0 + j) :: u64) = i0 + j"
    by (rule unat_small) (use assms(2) in simp)
  then have v: "unat ?v = (i0 + j) * pageSize"
    using assms(2) by (simp add: pageSize_def unat_mult_lem [THEN iffD1] del: of_nat_add)
  then have "start \<le> ?v" using assms(1) by (simp add: word_le_nat_alt pageSize_def)
  then have "unat (?v - start) = pageSize * j"
    using v assms(1) by (simp add: unat_sub algebra_simps del: of_nat_add)
  then show ?thesis by (simp add: unat_div_distrib pageSize_def del: of_nat_add)
qed

lemma walk_pfn_one:
  assumes "proc_files K E fd pm kc" and "unat (mr_start mr) = pageSize * i0" and "i0 + j < 2 ^ 52"
    and "j < length (mr_pages mr)" and "unat pfn < 2 ^ 55"
  shows "walk_pfn K E (word_of_nat (i0 + j)) pfn 1 mr
    = Returns (mr\<lparr>mr_pages := set_share j (kc (unat pfn)) (mr_pages mr)\<rparr>)"
proof -
  obtain f2 kf f3 where f: "fds E (kpageflags_fd E) = Some f2" "serves K f2 kf"
    "fds E (kpagecount_fd E) = Some f3" "serves K f3 kc" "0 \<le> kpagecount_fd E"
    using assms(1) by (auto simp: proc_files_def)
  have bound: "unat pfn < 2 ^ 60" using assms(5) by simp
  have "min (1 :: u64) KPAGEFLAGS_BATCH = 1"
    by (simp add: KPAGEFLAGS_BATCH_def push_bit_eq_mult min_def word_le_nat_alt)
  moreover have "kpageflags_read K E pfn 1 = Returns (1, [kf (unat pfn)])"
    using do_u64_read_serves [OF f(2,1), of 1 pfn] bound by (auto simp: kpageflags_read_def le_Suc_eq)
  moreover have "kpagecount_read K E pfn 1 = Returns (1, [kc (unat pfn)])"
    using do_u64_read_serves [OF f(4,3), of 1 pfn] bound f(5)
    by (auto simp: kpagecount_read_def le_Suc_eq)
  moreover have "feed_count (word_of_nat (i0 + j)) [kc (unat pfn)] 0 mr
      = Returns (mr\<lparr>mr_pages := set_share j (kc (unat pfn)) (mr_pages mr)\<rparr>)"
    using page_offset [OF assms(2,3)] assms(4)
    by (simp add: feed_count_def word_at_def set_share_def del: of_nat_add)
  moreover have "walk_pfn K E v p 0 m = Returns m" for v p m
    by (subst walk_pfn.simps) simp
  ultimately show ?thesis by (subst walk_pfn.simps) simp
qed

section \<open>The loop\<close>

text \<open>
  After \<open>d\<close> entries: the pages among the first \<open>d\<close> that are present have their count, all other
  fields are as before, and a line was printed for every swapped page.
\<close>

definition counted :: "(nat \<Rightarrow> u64) \<Rightarrow> (nat \<Rightarrow> u64) \<Rightarrow> nat \<Rightarrow> nat \<Rightarrow> page list \<Rightarrow> page list" where
  "counted pm kc i0 d pages = map (\<lambda>j.
     if j < d \<and> pagemap_pfn (pm (i0 + j)) \<noteq> 0
     then (pages ! j)\<lparr>pg_share := Some (to_int (kc (unat (pagemap_pfn (pm (i0 + j))))))\<rparr>
     else pages ! j) [0..<length pages]"

definition swap_text :: "nat \<Rightarrow> u64 \<Rightarrow> string" where
  "swap_text v val =
     (if val AND PM_SWAP \<noteq> 0
      then (case walk_swap (of_nat v) val of Inl _ \<Rightarrow> [] | Inr line \<Rightarrow> line) else [])"

definition swap_texts :: "(nat \<Rightarrow> u64) \<Rightarrow> nat \<Rightarrow> nat \<Rightarrow> string" where
  "swap_texts pm i0 d = concat (map (\<lambda>j. swap_text (i0 + j) (pm (i0 + j))) [0..<d])"

lemma length_counted [simp]: "length (counted pm kc i0 d pages) = length pages"
  by (simp add: counted_def)

lemma counted_0: "counted pm kc i0 0 pages = pages"
  by (simp add: counted_def map_nth)

lemma counted_Suc:
  assumes "d < length pages"
  shows "counted pm kc i0 (Suc d) pages =
    (if pagemap_pfn (pm (i0 + d)) \<noteq> 0
     then set_share d (kc (unat (pagemap_pfn (pm (i0 + d))))) (counted pm kc i0 d pages)
     else counted pm kc i0 d pages)"
proof (rule nth_equalityI)
  fix j assume "j < length (counted pm kc i0 (Suc d) pages)"
  then show "counted pm kc i0 (Suc d) pages ! j = (if pagemap_pfn (pm (i0 + d)) \<noteq> 0
     then set_share d (kc (unat (pagemap_pfn (pm (i0 + d))))) (counted pm kc i0 d pages)
     else counted pm kc i0 d pages) ! j"
    using assms by (cases "j = d") (auto simp: counted_def set_share_def nth_list_update less_Suc_eq)
qed (simp add: set_share_def)

lemma swap_texts_Suc: "swap_texts pm i0 (Suc d) = swap_texts pm i0 d @ swap_text (i0 + d) (pm (i0 + d))"
  by (simp add: swap_texts_def)

text \<open>The state after \<open>d\<close> entries of a region.\<close>

definition after_entries :: "(nat \<Rightarrow> u64) \<Rightarrow> (nat \<Rightarrow> u64) \<Rightarrow> nat \<Rightarrow> mem_reg \<Rightarrow> env \<Rightarrow> nat \<Rightarrow> mem_reg \<times> env" where
  "after_entries pm kc i0 mr E d =
     (mr\<lparr>mr_pages := counted pm kc i0 d (mr_pages mr)\<rparr>, E\<lparr>err := err E @ swap_texts pm i0 d\<rparr>)"

lemma pagemap_entry_step:
  assumes F: "proc_files K E fd pm kc" and s: "unat (mr_start mr) = pageSize * i0"
    and d: "d + i < length (mr_pages mr)" "i0 + (d + i) < 2 ^ 52"
    and buf: "i < length buf" "buf ! i = pm (i0 + (d + i))"
  shows "pagemap_entry K (word_of_nat (i0 + d)) buf i (after_entries pm kc i0 mr E (d + i))
    = Returns (after_entries pm kc i0 mr E (Suc (d + i)))"
proof -
  let ?val = "pm (i0 + (d + i))" and ?mr = "mr\<lparr>mr_pages := counted pm kc i0 (d + i) (mr_pages mr)\<rparr>"
  let ?E = "E\<lparr>err := err E @ swap_texts pm i0 (d + i)\<rparr>"
  have idx: "(word_of_nat (i0 + d) + word_of_nat i :: u64) = word_of_nat (i0 + (d + i))"
    by (simp add: add.assoc)
  have walk: "(let pfn = pagemap_pfn ?val in
      if pfn \<noteq> 0 then walk_pfn K ?E (word_of_nat (i0 + (d + i))) pfn 1 ?mr else Returns ?mr)
    = Returns (mr\<lparr>mr_pages := counted pm kc i0 (Suc (d + i)) (mr_pages mr)\<rparr>)"
    using walk_pfn_one [of K ?E fd pm kc ?mr i0 "d + i" "pagemap_pfn ?val"] F s d
      pagemap_pfn_bound [of ?val] counted_Suc [OF d(1), of pm kc i0]
    by (simp add: Let_def del: of_nat_add)
  obtain line where line: "walk_swap (word_of_nat (i0 + (d + i))) ?val = Inr line"
    using walk_swap_prints by blast
  show ?thesis
    unfolding pagemap_entry_def idx using buf walk line
    by (simp add: after_entries_def word_at_def swap_texts_Suc swap_text_def del: of_nat_add)
qed

lemma pagemap_entries:
  assumes F: "proc_files K E fd pm kc" and s: "unat (mr_start mr) = pageSize * i0"
    and "d + m \<le> length (mr_pages mr)" "i0 + (d + m) < 2 ^ 52"
  shows "for_all [0..<m] (pagemap_entry K (word_of_nat (i0 + d)) (map pm [i0 + d..<i0 + d + m]))
      (after_entries pm kc i0 mr E d) = Returns (after_entries pm kc i0 mr E (d + m))"
proof -
  let ?buf = "map pm [i0 + d..<i0 + d + m]"
  have "for_all [0..<k] (pagemap_entry K (word_of_nat (i0 + d)) ?buf) (after_entries pm kc i0 mr E d)
      = Returns (after_entries pm kc i0 mr E (d + k))" if "k \<le> m" for k
    using that
  proof (induction k)
    case (Suc k)
    have "pagemap_entry K (word_of_nat (i0 + d)) ?buf k (after_entries pm kc i0 mr E (d + k))
        = Returns (after_entries pm kc i0 mr E (Suc (d + k)))"
      using assms Suc.prems by (intro pagemap_entry_step) (auto simp: add.assoc)
    with Suc show ?case by (simp add: for_all_append del: of_nat_add)
  qed simp
  then show ?thesis by simp
qed

lemma pagemap_loop_counts:
  assumes F: "proc_files K E fd pm kc" and s: "unat (mr_start mr) = pageSize * i0"
    and n: "n \<le> length (mr_pages mr)" "i0 + n < 2 ^ 52"
  shows "d + k = n \<Longrightarrow> pagemap_loop K fd (word_of_nat (i0 + d)) (word_of_nat k)
      (fst (after_entries pm kc i0 mr E d)) (snd (after_entries pm kc i0 mr E d))
    = Returns (after_entries pm kc i0 mr E n)"
proof (induction k arbitrary: d rule: less_induct)
  case (less k)
  let ?S = "after_entries pm kc i0 mr E"
  show ?case
  proof (cases "k = 0")
    case True
    with less.prems show ?thesis by (subst pagemap_loop.simps) simp
  next
    case False
    let ?num = "word_of_nat k :: u64" and ?index = "word_of_nat (i0 + d) :: u64"
    have u: "unat ?num = k" "unat ?index = i0 + d"
      using less.prems n(2) by (auto intro!: unat_small simp del: of_nat_add)
    have k: "?num \<noteq> 0" using u(1) False by auto
    obtain f1 where f1: "fds (snd (?S d)) fd = Some f1" "serves K f1 pm"
      using F by (auto simp: proc_files_def after_entries_def)
    have b: "0 < unat (min ?num PAGEMAP_BATCH)" "unat (min ?num PAGEMAP_BATCH) \<le> k"
      using k u(1) by (auto simp: min_def unat_gt_0 word_le_nat_alt PAGEMAP_BATCH_def push_bit_eq_mult)
    have ix: "unat ?index < 2 ^ 60" using u(2) less.prems n(2) by simp
    obtain m where m: "0 < m" "m \<le> k" "pagemap_read K (snd (?S d)) fd ?index (min ?num PAGEMAP_BATCH)
        = Returns (word_of_nat m, map pm [i0 + d..<i0 + d + m])"
      using do_u64_read_serves [OF f1(2,1) b(1) pagemap_batch_small ix] u(2) b(2)
      by (auto simp: pagemap_read_def simp del: of_nat_add)
    have um: "unat (word_of_nat m :: u64) = m"
      using m(2) less.prems n(2) by (intro unat_small) simp
    have m0: "(word_of_nat m :: u64) \<noteq> 0" using um m(1) by auto
    have next_args: "?index + word_of_nat m = word_of_nat (i0 + (d + m))" "?num - word_of_nat m = word_of_nat (k - m)"
      using m(2) by (simp_all add: add.assoc of_nat_diff)
    have body: "for_all [0..<m] (pagemap_entry K ?index (map pm [i0 + d..<i0 + d + m]))
        (fst (?S d), snd (?S d)) = Returns (?S (d + m))"
      using pagemap_entries [OF F s, of d m] m(2) less.prems n by simp
    have rest: "pagemap_loop K fd (word_of_nat (i0 + (d + m))) (word_of_nat (k - m))
        (fst (?S (d + m))) (snd (?S (d + m))) = Returns (?S n)"
      using less.IH [of "k - m" "d + m"] m(1,2) less.prems by simp
    show ?thesis
      using k m0 m(3) um body rest
      by (subst pagemap_loop.simps)
        (simp add: Let_def next_args case_prod_unfold del: of_nat_add of_nat_diff)
  qed
qed

lemma word_eq_of_nat: "unat w = n \<Longrightarrow> w = word_of_nat n" for w :: u64
  by (drule sym) simp

lemma mr_parse_pagemap_counts:
  assumes "proc_files K E fd pm kc" and "unat (mr_start mr) = pageSize * i0" and "page_aligned mr n"
    and "n \<le> length (mr_pages mr)" and "i0 + n < 2 ^ 52"
  shows "mr_parse_pagemap K mr fd E = Returns (after_entries pm kc i0 mr E n)"
proof -
  have num: "(mr_end mr - mr_start mr) div of_nat pageSize = (word_of_nat n :: u64)"
    using unat_pages [of mr] page_total_aligned [OF assms(3)] by (intro word_eq_of_nat) simp
  have "unat (mr_start mr div of_nat pageSize) = i0"
    using assms(2) by (simp add: pageSize_def unat_div_distrib)
  then have index: "mr_start mr div of_nat pageSize = (word_of_nat i0 :: u64)"
    by (rule word_eq_of_nat)
  have start: "mr = fst (after_entries pm kc i0 mr E 0)" "E = snd (after_entries pm kc i0 mr E 0)"
    by (simp_all add: after_entries_def counted_0 swap_texts_def)
  show ?thesis
    using pagemap_loop_counts [OF assms(1,2,4,5), of 0 n] start
    unfolding mr_parse_pagemap_def num index by simp
qed

section \<open>All regions\<close>

text \<open>A region with its counts, and the lines printed for its swapped pages.\<close>

definition with_counts :: "(nat \<Rightarrow> u64) \<Rightarrow> (nat \<Rightarrow> u64) \<Rightarrow> mem_reg \<Rightarrow> mem_reg" where
  "with_counts pm kc mr = mr\<lparr>mr_pages :=
     counted pm kc (unat (mr_start mr) div pageSize) (page_total mr) (mr_pages mr)\<rparr>"

definition region_swaps :: "(nat \<Rightarrow> u64) \<Rightarrow> mem_reg \<Rightarrow> string" where
  "region_swaps pm mr = swap_texts pm (unat (mr_start mr) div pageSize) (page_total mr)"

text \<open>A region of whole pages, with an element of its array for each.\<close>

definition countable_region :: "mem_reg \<Rightarrow> bool" where
  "countable_region mr \<longleftrightarrow> page_aligned mr (page_total mr) \<and> page_total mr \<le> length (mr_pages mr) \<and>
     unat (mr_start mr) mod pageSize = 0"

lemma mr_parse_pagemap_region:
  assumes "proc_files K E fd pm kc" and "countable_region mr"
  shows "mr_parse_pagemap K mr fd E = Returns (with_counts pm kc mr, E\<lparr>err := err E @ region_swaps pm mr\<rparr>)"
proof -
  let ?i0 = "unat (mr_start mr) div pageSize" and ?n = "page_total mr"
  have r: "page_aligned mr ?n" "?n \<le> length (mr_pages mr)" "unat (mr_start mr) = pageSize * ?i0"
    using assms(2) by (auto simp: countable_region_def)
  have "pageSize * (?i0 + ?n) = unat (mr_end mr)"
    using r(1,3) by (simp add: page_aligned_def distrib_left)
  also have "\<dots> < 2 ^ 64" using unsigned_less [of "mr_end mr", where ?'a = nat] by simp
  finally have "?i0 + ?n < 2 ^ 52" by (simp add: pageSize_def)
  with mr_parse_pagemap_counts [OF assms(1) r(3,1,2)] show ?thesis
    by (simp add: after_entries_def with_counts_def region_swaps_def)
qed

text \<open>All regions of a process; the descriptor of \<open>/proc/kpageflags\<close> stays open.\<close>

lemma proc_parse_pagemap_counts:
  assumes "pr_maps p = Some maps" and "fds E (pagemap_fd p) = Some file" and "serves K file pm"
    and "serves K ''/proc/kpageflags'' kf" and "serves K ''/proc/kpagecount'' kc"
    and "k_open K ''/proc/kpageflags'' (dom (fds E)) = fd1" and "fd1 \<notin> dom (fds E)" and "0 \<le> fd1"
    and "k_open K ''/proc/kpagecount'' (insert fd1 (dom (fds E))) = fd2"
    and "fd2 \<notin> insert fd1 (dom (fds E))" and "0 \<le> fd2"
    and "\<forall>mr \<in> set maps. countable_region mr"
  shows "proc_parse_pagemap K p E = Returns (p\<lparr>pr_maps := Some (map (with_counts pm kc) maps)\<rparr>,
    E\<lparr>fds := (fds E)(fd1 \<mapsto> ''/proc/kpageflags''), kpageflags_fd := fd1, kpagecount_fd := fd2,
      err := err E @ concat (map (region_swaps pm) maps)\<rparr>)"
proof -
  let ?F = "(fds E)(fd1 \<mapsto> ''/proc/kpageflags'', fd2 \<mapsto> ''/proc/kpagecount'')"
  let ?E2 = "E\<lparr>kpageflags_fd := fd1, fds := ?F, kpagecount_fd := fd2\<rparr>"
  let ?body = "\<lambda>mr (mrs, E). continue (mr_parse_pagemap K mr (pagemap_fd p) E) (\<lambda>(mr, E). Returns (mrs @ [mr], E))"
  let ?I = "\<lambda>done (r :: mem_reg list \<times> env). r = (map (with_counts pm kc) done,
    ?E2\<lparr>err := err E @ concat (map (region_swaps pm) done)\<rparr>)"
  have "pagemap_fd p \<noteq> fd1" "pagemap_fd p \<noteq> fd2" "fd1 \<noteq> fd2" using assms(2,7,10) by auto
  then have F: "proc_files K ?E2 (pagemap_fd p) pm kc"
    using assms by (auto simp: proc_files_def)
  have "\<exists>r. for_all maps ?body ([], ?E2) = Returns r \<and> ?I maps r"
  proof (rule for_all_invariant [where I = ?I])
    fix as mr bs and r :: "mem_reg list \<times> env"
    assume m: "maps = as @ mr # bs" and I: "?I as r"
    have "countable_region mr" using assms(12) m by simp
    from mr_parse_pagemap_region [OF _ this, of K "snd r" "pagemap_fd p" pm kc] F I
    show "\<exists>t. ?body mr r = Returns t \<and> ?I (as @ [mr]) t" by simp
  qed simp
  then obtain E3 where loop: "for_all maps ?body ([], ?E2) = Returns (map (with_counts pm kc) maps, E3)"
    and E3: "E3 = ?E2\<lparr>err := err E @ concat (map (region_swaps pm) maps)\<rparr>"
    by simp
  have "proc_parse_pagemap K p E = Returns (p\<lparr>pr_maps := Some (map (with_counts pm kc) maps)\<rparr>,
      close_fd (kpagecount_fd E3) (close_fd (kpagecount_fd E3) E3))"
    using assms(1,6,8,9,11) loop by (simp add: proc_parse_pagemap_def checked_open_def)
  moreover have "?F(fd2 := None) = (fds E)(fd1 \<mapsto> ''/proc/kpageflags'')"
    using assms(10) by (auto simp: fun_eq_iff)
  ultimately show ?thesis by (simp add: E3 close_fd_def del: fun_upd_apply)
qed

end
