(* ===== verification/Timer.thy ===== *)
theory Timer
  imports Pagemap
begin

text \<open>
  The stop watch of \<open>mem.c\<close> around \<open>read_mem\<close>, and its report. Every call of \<open>clock\<close> takes the next
  of the kernel's times.
\<close>

section \<open>Definitions\<close>

text \<open>\<open>clock_t\<close> is a signed 64-bit number; \<open>CLOCKS_PER_SEC\<close> is a million on every POSIX system.\<close>

definition is_long :: "int \<Rightarrow> bool" where
  "is_long i \<longleftrightarrow> - (2 ^ 63) \<le> i \<and> i < 2 ^ 63"

definition CLOCKS_PER_SEC :: int where
  "CLOCKS_PER_SEC = 1000000"

definition time_start :: "'f kernel \<Rightarrow> env \<Rightarrow> env" where
  "time_start K E = E\<lparr>watch := (watch E)\<lparr>t_start := k_clock K (ticks E)\<rparr>, ticks := ticks E + 1\<rparr>"

definition time_end :: "'f kernel \<Rightarrow> env \<Rightarrow> env option" where
  "time_end K E =
     (let spent = k_clock K (ticks E) - t_start (watch E);
          total = t_total (watch E) + spent
      in if is_long spent \<and> is_long total
         then Some (E\<lparr>watch := \<lparr>t_start = 0, t_total = total\<rparr>, ticks := ticks E + 1\<rparr>) else None)"

text \<open>
  \<open>%lf\<close> of the quotient: six decimals. For a total below \<open>2 ^ 52\<close>, a hundred years, the rounding of
  the quotient to a double does not reach them.
\<close>

definition fmt_seconds :: "int \<Rightarrow> string" where
  "fmt_seconds t =
     (if t < 0 then ''-'' else []) @ fmt_d (\<bar>t\<bar> div CLOCKS_PER_SEC) @ ''.'' @
     print_padded 6 10 (nat (\<bar>t\<bar> mod CLOCKS_PER_SEC))"

definition time_line :: "int \<Rightarrow> string" where
  "time_line t = ''read_mem time : '' @ fmt_seconds t @ '' s'' @ [newline]"

definition mem_time_report :: "env \<Rightarrow> env" where
  "mem_time_report E = E\<lparr>err := err E @ time_line (t_total (watch E))\<rparr>"

section \<open>A clock that never goes back\<close>

definition clock_ok :: "'f kernel \<Rightarrow> bool" where
  "clock_ok K \<longleftrightarrow> mono (k_clock K) \<and> (\<forall>n. 0 \<le> k_clock K n \<and> k_clock K n < 2 ^ 63)"

text \<open>The watch has not counted more than the time that has passed.\<close>

definition watch_ok :: "'f kernel \<Rightarrow> env \<Rightarrow> bool" where
  "watch_ok K E \<longleftrightarrow> 0 \<le> t_total (watch E) \<and> t_total (watch E) \<le> k_clock K (ticks E)"

text \<open>One measurement.\<close>

definition spent :: "'f kernel \<Rightarrow> nat \<Rightarrow> int" where
  "spent K n = k_clock K (n + 1) - k_clock K n"

definition timed :: "'f kernel \<Rightarrow> env \<Rightarrow> env" where
  "timed K E = E\<lparr>watch := \<lparr>t_start = 0, t_total = t_total (watch E) + spent K (ticks E)\<rparr>, ticks := ticks E + 2\<rparr>"

lemma timed_simps [simp]:
  "fds (timed K E) = fds E" "err (timed K E) = err E" "traced (timed K E) = traced E"
  "ticks (timed K E) = ticks E + 2" "t_total (watch (timed K E)) = t_total (watch E) + spent K (ticks E)"
  "kpageflags_fd (timed K E) = kpageflags_fd E" "kpagecount_fd (timed K E) = kpagecount_fd E"
  by (simp_all add: timed_def)

lemma watch_ok_cong: "watch E = watch E' \<Longrightarrow> ticks E = ticks E' \<Longrightarrow> watch_ok K E = watch_ok K E'"
  by (simp add: watch_ok_def)

lemma spent_bounds:
  assumes "clock_ok K" and "watch_ok K E"
  shows "0 \<le> spent K (ticks E)" "0 \<le> t_total (watch E) + spent K (ticks E)"
    and "t_total (watch E) + spent K (ticks E) \<le> k_clock K (ticks E + 1)"
proof -
  have "k_clock K (ticks E) \<le> k_clock K (ticks E + 1)"
    using assms(1) monoD [of "k_clock K" "ticks E" "ticks E + 1"] by (simp add: clock_ok_def)
  then show "0 \<le> spent K (ticks E)" "0 \<le> t_total (watch E) + spent K (ticks E)"
    "t_total (watch E) + spent K (ticks E) \<le> k_clock K (ticks E + 1)"
    using assms(2) by (simp_all add: watch_ok_def spent_def)
qed

lemma time_end_start:
  assumes "clock_ok K" and "watch_ok K E"
  shows "time_end K (time_start K E) = Some (timed K E)"
proof -
  have top: "k_clock K (ticks E + 1) < 2 ^ 63" using assms(1) by (simp add: clock_ok_def)
  have "t_total (watch E) + spent K (ticks E) < 2 ^ 63" by (rule le_less_trans [OF spent_bounds(3) [OF assms] top])
  moreover have "spent K (ticks E) < 2 ^ 63"
    using calculation assms(2) by (simp add: watch_ok_def)
  ultimately have "is_long (spent K (ticks E))" "is_long (t_total (watch E) + spent K (ticks E))"
    using spent_bounds(1,2) [OF assms] by (simp_all add: is_long_def)
  then show ?thesis by (simp add: time_end_def time_start_def timed_def spent_def Let_def)
qed

lemma time_start_say: "say txt (time_start K E) = time_start K (say txt E)"
  by (simp add: time_start_def say_def)

lemma watch_ok_say [simp]: "watch_ok K (say txt E) = watch_ok K E"
  by (simp add: watch_ok_def)

lemma watch_ok_timed:
  assumes "clock_ok K" and "watch_ok K E"
  shows "watch_ok K (timed K E)"
proof -
  have "k_clock K (ticks E + 1) \<le> k_clock K (ticks E + 2)"
    using assms(1) monoD [of "k_clock K" "ticks E + 1" "ticks E + 2"] by (simp add: clock_ok_def)
  then have "t_total (watch E) + spent K (ticks E) \<le> k_clock K (ticks E + 2)"
    using spent_bounds(3) [OF assms] by linarith
  then show ?thesis using spent_bounds(2) [OF assms] by (simp add: watch_ok_def)
qed

end
