(* ===== verification/Proc.thy ===== *)
theory Proc
  imports Timer
begin

text \<open>
  The operations of \<open>mem.h\<close> that put the readers together: opening the files of a process,
  \<open>proc_do\<close>, \<open>proc_do_maps\<close>, \<open>proc_del\<close>, attaching, and printing regions and pages.
\<close>

section \<open>Opening and closing\<close>

definition proc_path :: "int \<Rightarrow> string \<Rightarrow> string" where
  "proc_path pid file = ''/proc/'' @ fmt_d pid @ ''/'' @ file"

text \<open>\<open>open_proc_file\<close> ends the program when the file cannot be opened.\<close>

definition open_proc_file :: "'a option \<Rightarrow> 'a outcome" where
  "open_proc_file f = (case f of None \<Rightarrow> Exits EXIT_FAILURE | Some x \<Rightarrow> Returns x)"

definition open_file_maps :: "'f kernel \<Rightarrow> 'f process \<Rightarrow> 'f process outcome" where
  "open_file_maps K p =
     continue (open_proc_file (k_maps K (pr_pid p))) (\<lambda>maps. Returns (p\<lparr>pMapsFile := Some maps\<rparr>))"

definition open_proc_files :: "'f kernel \<Rightarrow> 'f process \<Rightarrow> env \<Rightarrow> ('f process \<times> env) outcome" where
  "open_proc_files K p E =
     continue (open_proc_file (k_maps K (pr_pid p))) (\<lambda>maps.
     continue (open_proc_file (k_mem K (pr_pid p))) (\<lambda>mem.
     continue (checked_open K (proc_path (pr_pid p) ''pagemap'') E) (\<lambda>(fd, E).
     Returns (p\<lparr>pMapsFile := Some maps, pMemFile := Some mem, pagemap_fd := fd\<rparr>, E))))"

text \<open>\<open>proc_del\<close> closes the files and frees the arrays; it needs the maps to be parsed.\<close>

definition proc_del :: "'f process \<Rightarrow> env \<Rightarrow> env outcome" where
  "proc_del p E =
     (let E = (if pagemap_fd p \<noteq> - 1 then close_fd (pagemap_fd p) E else E)
      in continue (proc_mr_num p) (\<lambda>n. Returns E))"

text \<open>A call of \<open>ptrace\<close>: the answer, which is recorded.\<close>

definition request :: "ptrace_fun \<Rightarrow> ptrace_request \<Rightarrow> int \<Rightarrow> env \<Rightarrow> int \<times> env" where
  "request ptrace r pid E =
     (let a = ptrace (traced E) r pid in (a, E\<lparr>traced := traced E @ [(r, pid, a)]\<rparr>))"

text \<open>The process that was attached to has stopped when \<open>proc_attach\<close> returns.\<close>

definition proc_attach :: "ptrace_fun \<Rightarrow> 'f process \<Rightarrow> env \<Rightarrow> (int \<times> env) outcome" where
  "proc_attach ptrace p E =
     (let (ptraceResult, E) = request ptrace Attach (pr_pid p) E
      in if ptraceResult < 0 then Exits EXIT_FAILURE else Returns (0, E))"

text \<open>The answers to the two requests of \<open>proc_detach\<close> are ignored.\<close>

definition proc_detach :: "ptrace_fun \<Rightarrow> 'f process \<Rightarrow> env \<Rightarrow> env" where
  "proc_detach ptrace p E =
     (let (_, E) = request ptrace Cont (pr_pid p) E;
          (_, E) = request ptrace Detach (pr_pid p) E
      in E)"

section \<open>Reading a process\<close>

definition proc_do_maps :: "'f kernel \<Rightarrow> 'f process \<Rightarrow> 'f process outcome" where
  "proc_do_maps K p = continue (open_file_maps K p) (parse_maps K False 0)"

definition proc_do :: "'f kernel \<Rightarrow> 'f process \<Rightarrow> env \<Rightarrow> ('f process \<times> env) outcome" where
  "proc_do K p E =
     continue (open_proc_files K p E) (\<lambda>(p, E).
     continue (parse_maps K True 0 p) (\<lambda>p.
     let E = time_start K E in
     continue (read_mem K p) (\<lambda>(p, out).
     continue (defined (time_end K (say out E))) (\<lambda>E. Returns (p, E)))))"

section \<open>Printing\<close>

text \<open>The indices a loop over the regions runs through, as ints.\<close>

definition upto_int :: "int \<Rightarrow> int list" where
  "upto_int n = map int [0..<nat n]"

definition fmt_lx_padded :: "nat \<Rightarrow> u64 \<Rightarrow> string" where
  "fmt_lx_padded k w = print_padded k 16 (unat w)"

definition proc_print_maps :: "'f process \<Rightarrow> string outcome" where
  "proc_print_maps p =
     continue (proc_mr_num p) (\<lambda>n.
     for_all (upto_int n) (\<lambda>i out.
       continue (proc_get_mr p i) (\<lambda>mr. Returns
         (out @ fmt_lx_padded 8 (mr_start mr) @ ''-'' @ fmt_lx_padded 8 (mr_end mr) @ '' '' @
          fmt_d (mr_page_num mr) @ '' '' @ [CHR 0x09] @ '' '' @ pathname mr @ [newline])))
       (''start     -     end  nr_page '' @ [CHR 0x09] @ '' name'' @ [newline]))"

text \<open>
  The loop of \<open>mem_print_pages\<close>: a line for every page that is mapped, in address order. Its
  index runs beside the address.
\<close>

partial_function (option) print_pages_loop :: "u64 \<Rightarrow> u64 \<Rightarrow> nat \<Rightarrow> page list \<Rightarrow> string \<Rightarrow> string option" where
  "print_pages_loop addr stop i pages out =
     (if \<not> addr < stop then Some out
      else if i \<ge> length pages then None
      else do {
        share \<leftarrow> pg_share (pages ! i);
        if share = 0 then print_pages_loop (addr + of_nat pageSize) stop (i + 1) pages out
        else do {
          h \<leftarrow> pg_hash (pages ! i);
          print_pages_loop (addr + of_nat pageSize) stop (i + 1) pages
            (out @ fmt_d share @ ''  '' @ fmt_lx_padded 12 addr @ '': '' @ print_padded 8 16 (unat h)
              @ [newline]) } })"

definition mem_print_pages :: "mem_reg \<Rightarrow> string \<Rightarrow> string outcome" where
  "mem_print_pages mr out = defined (print_pages_loop (mr_start mr) (mr_end mr) 0 (mr_pages mr) out)"

definition proc_print_pages :: "'f process \<Rightarrow> string outcome" where
  "proc_print_pages p =
     continue (proc_mr_num p) (\<lambda>n.
     for_all (upto_int n) (\<lambda>i out.
       continue (proc_get_mr p i) (\<lambda>mr.
         mem_print_pages mr (out @ fmt_lx_padded 12 (mr_start mr) @ ''-'' @ fmt_lx_padded 12 (mr_end mr)
           @ '' '' @ [CHR 0x09] @ '' '' @ pathname mr @ [newline]))) [])"

section \<open>Saving and loading\<close>

text \<open>Both are stubs: nothing is saved, and what is loaded is the null pointer.\<close>

definition proc_save :: "string \<Rightarrow> env \<Rightarrow> env" where
  "proc_save filename E = E"

definition proc_load :: "string \<Rightarrow> 'f process option" where
  "proc_load filename = None"

section \<open>Accessors of a parsed process\<close>

lemma proc_mr_num_maps:
  assumes "pr_maps p = Some maps" and "length maps < 2 ^ 31"
  shows "proc_mr_num p = Returns (int (length maps))"
  using assms to_int_small [of "word_of_nat (length maps)"] unat_small [of "length maps"]
  by (simp add: proc_mr_num_def)

lemma for_all_upto: "for_all (upto_int n) body s = for_all [0..<nat n] (\<lambda>i. body (int i)) s"
  by (simp add: upto_int_def for_all_map)

text \<open>
  Regions and pages are both reached by number: a loop over the first numbers is a loop over the
  elements.
\<close>

locale indexed =
  fixes elem_at :: "'c \<Rightarrow> int \<Rightarrow> 'a outcome" and elems :: "'c \<Rightarrow> 'a list" and present :: "'c \<Rightarrow> bool"
  assumes elem: "present c \<Longrightarrow> i < length (elems c) \<Longrightarrow> elem_at c (int i) = Returns (elems c ! i)"
begin

lemma loop:
  assumes "present c" and "num \<le> length (elems c)"
  shows "for_all [0..<num] (\<lambda>i s. continue (elem_at c (int i)) (\<lambda>x. body x s)) s
    = for_all (take num (elems c)) body s"
proof -
  have "take num (elems c) = map ((!) (elems c)) [0..<num]"
    using assms(2) by (intro nth_equalityI) auto
  then have "for_all (take num (elems c)) body s = for_all [0..<num] (\<lambda>i. body (elems c ! i)) s"
    by (simp add: for_all_map)
  also have "\<dots> = for_all [0..<num] (\<lambda>i s. continue (elem_at c (int i)) (\<lambda>x. body x s)) s"
    using assms by (intro for_all_cong) (auto simp: elem)
  finally show ?thesis by simp
qed

end

interpretation regions: indexed proc_get_mr "\<lambda>p. the (pr_maps p)" "\<lambda>p. pr_maps p \<noteq> None"
  by unfold_locales (auto simp: proc_get_mr_def)

interpretation pages: indexed mr_get_page mr_pages "\<lambda>mr. True"
  by unfold_locales (simp add: mr_get_page_def)

lemma for_all_regions:
  assumes "pr_maps p = Some maps"
  shows "for_all [0..<length maps] (\<lambda>i s. continue (proc_get_mr p (int i)) (\<lambda>mr. body mr s)) s
    = for_all maps body s"
  using regions.loop [of p "length maps" body s] assms by simp

lemmas for_all_pages = pages.loop [OF TrueI]

section \<open>Reading a process whose files are in order\<close>

text \<open>
  The maps file in the kernel's format, a descriptor for the pagemap, memory for the arrays: the
  anonymous regions are kept and read.
\<close>

definition anon_regions :: "maps_entry list \<Rightarrow> mem_reg list" where
  "anon_regions es = filter (\<lambda>mr. mr_is_anon mr \<and> 0 < page_total mr) (map region_of es)"

definition entries_ok :: "maps_entry list \<Rightarrow> bool" where
  "entries_ok es \<longleftrightarrow> (\<forall>e \<in> set es. entry_ok e \<and> (\<exists>n. page_aligned (region_of e) n))"

lemma anon_regions_aligned: "entries_ok es \<Longrightarrow> mr \<in> set (anon_regions es) \<Longrightarrow> page_aligned mr (page_total mr)"
  using page_total_aligned by (fastforce simp: entries_ok_def anon_regions_def)

lemma length_anon_regions: "length (anon_regions es) \<le> length es"
  unfolding anon_regions_def by (metis length_filter_le length_map)

lemma proc_do_parses:
  assumes "k_maps K (pr_pid p) = Some (concat (map show_entry es))" and "k_mem K (pr_pid p) = Some f"
    and "0 \<le> k_open K (proc_path (pr_pid p) ''pagemap'') (dom (fds E))"
    and "entries_ok es" and "\<forall>n. k_malloc K n" and "clock_ok K" and "watch_ok K E"
  shows "\<exists>q. pr_maps q = Some (anon_regions es) \<and> pMemFile q = Some f \<and> pr_pid q = pr_pid p \<and>
    pagemap_fd q = k_open K (proc_path (pr_pid p) ''pagemap'') (dom (fds E)) \<and>
    proc_do K p E = continue (read_mem K q) (\<lambda>(p', out). Returns (p',
      timed K (say out (E\<lparr>fds := (fds E)(pagemap_fd q \<mapsto> proc_path (pr_pid p) ''pagemap'')\<rparr>))))"
proof -
  let ?fd = "k_open K (proc_path (pr_pid p) ''pagemap'') (dom (fds E))"
  let ?p = "p\<lparr>pMapsFile := Some (concat (map show_entry es)), pMemFile := Some f, pagemap_fd := ?fd\<rparr>"
  have op: "open_proc_files K p E = Returns (?p, E\<lparr>fds := (fds E)(?fd \<mapsto> proc_path (pr_pid p) ''pagemap'')\<rparr>)"
    using assms(1-3) by (simp add: open_proc_files_def open_proc_file_def checked_open_def Let_def)
  have small: "page_total mr < 2 ^ 31" if m: "mr \<in> region_of ` set es" for mr
  proof -
    obtain n where n: "page_aligned mr n" using m assms(4) by (auto simp: entries_ok_def)
    then show ?thesis using page_total_aligned [OF n] by (simp add: page_aligned_def)
  qed
  have "filter (keep_region True 0) (map region_of es) = anon_regions es"
    unfolding anon_regions_def
    using small mr_page_num_exact by (intro filter_cong) (auto simp: keep_region_def)
  moreover have "clean None" "length [] < (4::nat)" "(4::nat) \<le> max 4 (2 * (length [] + 1))"
    by (simp_all add: clean_def)
  ultimately obtain cap where
    "parse_maps_loop K True 0 (concat (map show_entry es)) 4 [] None = Returns (anon_regions es, cap)"
    using parse_maps_loop_entries [of es K None "[]" 4 True 0] assms(4,5) by (auto simp: entries_ok_def)
  then have "parse_maps K True 0 ?p
      = Returns (?p\<lparr>pr_maps := Some (anon_regions es), maps_cap := cap, pMapsFile := Some []\<rparr>)"
    using assms(5) by (simp add: parse_maps_def)
  moreover have "watch_ok K (say out (E\<lparr>fds := F\<rparr>))" for out F using assms(7) by (simp add: watch_ok_def)
  note time_end_start [OF assms(6) this]
  ultimately show ?thesis
    by (intro exI [of _ "?p\<lparr>pr_maps := Some (anon_regions es), maps_cap := cap, pMapsFile := Some []\<rparr>"])
      (simp add: proc_do_def op time_start_say case_prod_beta)
qed

lemma proc_do_regions:
  assumes "k_maps K (pr_pid p) = Some (concat (map show_entry es))" and "k_mem K (pr_pid p) = Some f"
    and "0 \<le> k_open K (proc_path (pr_pid p) ''pagemap'') (dom (fds E))"
    and "entries_ok es" and "\<forall>n. k_malloc K n" and "clock_ok K" and "watch_ok K E"
  shows "\<exists>p' mrs out. proc_do K p E = Returns (p',
      timed K (say out (E\<lparr>fds := (fds E)(pagemap_fd p' \<mapsto> proc_path (pr_pid p) ''pagemap'')\<rparr>))) \<and>
    pr_maps p' = Some mrs \<and> list_all2 (region_read K) (anon_regions es) mrs"
proof -
  obtain q where q: "pr_maps q = Some (anon_regions es)" "pMemFile q = Some f"
    "proc_do K p E = continue (read_mem K q) (\<lambda>(p', out). Returns (p',
      timed K (say out (E\<lparr>fds := (fds E)(pagemap_fd q \<mapsto> proc_path (pr_pid p) ''pagemap'')\<rparr>))))"
    using proc_do_parses [OF assms] by blast
  have "\<forall>mr \<in> set (anon_regions es). \<exists>n. page_aligned mr n"
    using anon_regions_aligned [OF assms(4)] by blast
  from read_mem_regions [OF q(1,2) this assms(5)] q(3) show ?thesis by auto
qed

text \<open>The same for a memory that can be read.\<close>

lemma proc_do_image:
  assumes "k_maps K (pr_pid p) = Some (concat (map show_entry es))" and "k_mem K (pr_pid p) = Some f"
    and "0 \<le> k_open K (proc_path (pr_pid p) ''pagemap'') (dom (fds E))"
    and "entries_ok es" and "\<forall>n. k_malloc K n" and "clock_ok K" and "watch_ok K E" and "serves_memory K f img"
  shows "\<exists>p'. proc_do K p E = Returns (p',
      timed K (E\<lparr>fds := (fds E)(pagemap_fd p' \<mapsto> proc_path (pr_pid p) ''pagemap'')\<rparr>)) \<and>
    pagemap_fd p' = k_open K (proc_path (pr_pid p) ''pagemap'') (dom (fds E)) \<and>
    pr_pid p' = pr_pid p \<and> pr_maps p' = Some (map (with_image img) (anon_regions es))"
proof -
  obtain q where q: "pr_maps q = Some (anon_regions es)" "pMemFile q = Some f" "pr_pid q = pr_pid p"
    "pagemap_fd q = k_open K (proc_path (pr_pid p) ''pagemap'') (dom (fds E))"
    "proc_do K p E = continue (read_mem K q) (\<lambda>(p', out). Returns (p',
      timed K (say out (E\<lparr>fds := (fds E)(pagemap_fd q \<mapsto> proc_path (pr_pid p) ''pagemap'')\<rparr>))))"
    using proc_do_parses [OF assms(1-7)] by blast
  have "\<forall>mr \<in> set (anon_regions es). \<exists>n. page_aligned mr n"
    using anon_regions_aligned [OF assms(4)] by blast
  from read_mem_image [OF q(1,2) this assms(5,8)] q(3-5) show ?thesis by auto
qed

section \<open>The pages printed\<close>

text \<open>The line of a page, empty when no page table refers to it; and when it can be printed.\<close>

definition page_line :: "u64 \<Rightarrow> page \<Rightarrow> string" where
  "page_line addr pg =
     (if pg_share pg = Some 0 then []
      else fmt_d (the (pg_share pg)) @ ''  '' @ fmt_lx_padded 12 addr @ '': '' @
        print_padded 8 16 (unat (the (pg_hash pg))) @ [newline])"

definition printable :: "page \<Rightarrow> bool" where
  "printable pg \<longleftrightarrow> pg_share pg \<noteq> None \<and> (pg_share pg \<noteq> Some 0 \<longrightarrow> pg_hash pg \<noteq> None)"

lemma print_pages_loop_eq:
  assumes "unat addr + pageSize * n = unat stop" and "i + n \<le> length pages"
  shows "print_pages_loop addr stop i pages out =
    (if list_all printable (take n (drop i pages))
     then Some (out @ concat (map (\<lambda>j. page_line (addr + of_nat (pageSize * j)) (pages ! (i + j))) [0..<n]))
     else None)"
  using assms
proof (induction n arbitrary: addr i out)
  case 0
  then have "\<not> addr < stop" by (simp add: word_less_nat_alt)
  then show ?case by (subst print_pages_loop.simps) simp
next
  case (Suc n)
  have lt: "addr < stop" using Suc.prems(1) by (simp add: word_less_nat_alt pageSize_def)
  have "unat addr + pageSize < 2 ^ 64"
    using Suc.prems(1) unsigned_less [of stop, where ?'a = nat] by (simp add: pageSize_def)
  then have next_addr: "unat (addr + of_nat pageSize) = unat addr + pageSize"
    by (simp add: pageSize_def unat_add_lem [THEN iffD1])
  have IH: "print_pages_loop (addr + of_nat pageSize) stop (i + 1) pages out' =
    (if list_all printable (take n (drop (i + 1) pages))
     then Some (out' @ concat (map (\<lambda>j. page_line (addr + of_nat (pageSize * Suc j)) (pages ! (i + Suc j))) [0..<n]))
     else None)" for out'
    using Suc.IH [of "addr + of_nat pageSize" "i + 1" out'] Suc.prems next_addr
    by (simp add: algebra_simps)
  have i: "i < length pages" using Suc.prems(2) by simp
  then have tk: "take (Suc n) (drop i pages) = pages ! i # take n (drop (i + 1) pages)"
    by (simp add: Cons_nth_drop_Suc [symmetric])
  have up: "[0..<Suc n] = 0 # map Suc [0..<n]" by (simp add: map_Suc_upt upt_conv_Cons del: upt_Suc)
  show ?case
  proof (cases "printable (pages ! i)")
    case True
    then have "print_pages_loop addr stop i pages out
        = print_pages_loop (addr + of_nat pageSize) stop (i + 1) pages (out @ page_line addr (pages ! i))"
      using lt i by (subst print_pages_loop.simps) (auto simp: printable_def page_line_def)
    with IH True show ?thesis by (simp add: tk up comp_def del: upt_Suc of_nat_mult mult_Suc_right)
  next
    case False
    then have "print_pages_loop addr stop i pages out = None"
      using lt i
      by (subst print_pages_loop.simps) (cases "pg_share (pages ! i)"; auto simp: printable_def)
    with False show ?thesis by (simp add: tk)
  qed
qed

end
