(* ===== verification/Mem_Spec.thy ===== *)
theory Mem_Spec
  imports Proc
begin

text \<open>
  What the readers of \<open>mem.c\<close> promise: the regions of the maps file, the hashes of the pages, the
  map counts; and where they fail.
\<close>

section \<open>The maps file\<close>

text \<open>
  C25: Parsing the text the kernel writes for a list of regions gives back exactly these regions,
  in order, without those that are filtered out; the array always has room for one more
  region, and its capacity is at most twice the number of regions, or four.
\<close>

theorem parse_maps_correct:
  assumes "pMapsFile p = Some (concat (map show_entry es))" and "\<forall>e \<in> set es. entry_ok e"
    and "\<forall>n. k_malloc K n"
  shows "\<exists>p'. parse_maps K filter_anon minsize p = Returns p' \<and>
    pr_maps p' = Some (filter (keep_region filter_anon minsize) (map region_of es)) \<and>
    length (the (pr_maps p')) < maps_cap p' \<and> maps_cap p' \<le> max 4 (2 * (length (the (pr_maps p')) + 1))"
proof -
  have "clean None" "length [] < (4::nat)" "(4::nat) \<le> max 4 (2 * (length [] + 1))"
    by (simp_all add: clean_def)
  from parse_maps_loop_entries [OF assms(2,3) this, of filter_anon minsize] assms(1,3)
  show ?thesis by (auto simp: parse_maps_def)
qed

text \<open>A kernel for the examples: memory is always granted and reads as zero pages.\<close>

definition sample_kernel :: "u64 kernel" where
  "sample_kernel = \<lparr>k_maps = (\<lambda>pid. None), k_mem = (\<lambda>pid. None), k_fseeko = (\<lambda>a f. a),
     k_fread = (\<lambda>f. (replicate pageSize 0, f + of_nat pageSize)), k_open = (\<lambda>file used. if 3 \<in> used then 4 else 3),
     k_pread = (\<lambda>file n off. (int n, replicate (n div 8) 0)), k_malloc = (\<lambda>n. True), k_clock = (\<lambda>n. 250 * int (min n 1000)),
     k_strerror = (\<lambda>f. ''Success'')\<rparr>"

definition sample_entry :: maps_entry where
  "sample_entry = \<lparr>e_start = 4096, e_end = 12288, e_r = CHR ''r'', e_w = CHR ''w'', e_x = CHR ''-'',
     e_s = CHR ''p'', e_pgoff = 0, e_major = 0, e_minor = 0, e_inode = 0, e_pad = 0, e_path = []\<rparr>"

lemma sample_entry_ok: "entry_ok sample_entry"
proof -
  have "length (show_entry sample_entry) \<le> 255"
    by (simp add: show_entry_def sample_entry_def print_padded_def print_base_def digits.simps)
  then show ?thesis by (simp add: entry_ok_def sample_entry_def is_space_def newline_def)
qed

theorem parse_maps_correct_witness:
  "\<exists>p'. parse_maps sample_kernel False 0
      ((proc_init 7)\<lparr>pMapsFile := Some (concat (map show_entry [sample_entry, sample_entry]))\<rparr>) = Returns p' \<and>
    pr_maps p' = Some (filter (keep_region False 0) (map region_of [sample_entry, sample_entry]))"
  using parse_maps_correct [of "(proc_init 7)\<lparr>pMapsFile := Some (concat (map show_entry [sample_entry, sample_entry]))\<rparr>"
      "[sample_entry, sample_entry]" sample_kernel False 0] sample_entry_ok
  by (auto simp: sample_kernel_def)

text \<open>
  C26: A line without ten items in front of a slot that was never written is undefined behaviour:
  the loop inspects the region all the same. This happens behind every accepted region whose
  line, with a long name, does not fit the 255 characters \<open>fgets\<close> reads at a time.
\<close>

theorem bad_line_undefined:
  assumes "inp \<noteq> []" and "length (scan maps_format (fst (get_line 255 inp))) < 10"
  shows "parse_maps_loop K filter_anon minsize inp cap accepted None = Undefined"
proof -
  have "parse_maps_line (fst (get_line 255 inp)) None = None"
    using assms(2) by (auto simp: parse_maps_line_def split: list.splits scanned.splits)
  then show ?thesis
    using assms(1) by (subst parse_maps_loop.simps) (simp add: Let_def case_prod_unfold)
qed

theorem bad_line_undefined_witness:
  "parse_maps_loop sample_kernel True 0 ''/system/lib64/libm.so'' 4 [] None = Undefined"
  by (rule bad_line_undefined) (simp, code_simp)

text \<open>
  The number of pages a region reports is exact below 2^31 pages; from 2^31 up to 2^32 pages
  the conversion to \<open>int\<close> makes it negative, and \<open>parse_maps\<close> drops the region.
\<close>

theorem mr_page_num_range:
  assumes "0 \<le> minsize"
  shows "(page_total mr < 2 ^ 31 \<longrightarrow> mr_page_num mr = int (page_total mr)) \<and>
    (2 ^ 31 \<le> page_total mr \<and> page_total mr < 2 ^ 32 \<longrightarrow>
      mr_page_num mr = int (page_total mr) - 2 ^ 32 \<and> \<not> keep_region filter_anon minsize mr)"
proof -
  have neg: "mr_page_num mr = int (page_total mr) - 2 ^ 32"
    if "2 ^ 31 \<le> page_total mr" "page_total mr < 2 ^ 32"
    using that to_int_large [of "(mr_end mr - mr_start mr) div of_nat pageSize"]
    by (simp only: mr_page_num_def unat_pages)
  moreover have "int (page_total mr) - 2 ^ 32 < 0" if "page_total mr < 2 ^ 32"
    using that by simp
  ultimately show ?thesis
    using mr_page_num_exact [of mr] assms by (auto simp: keep_region_def)
qed

theorem mr_page_num_range_witness:
  "mr_page_num (region_of sample_entry) = 2"
  using mr_page_num_range [of 0 "region_of sample_entry"]
  by (simp add: region_of_def sample_entry_def page_total_def pageSize_def)

section \<open>The hashes\<close>

text \<open>
  C27: Reading a process whose regions are page-aligned ends without touching memory outside the
  arrays. Each region of \<open>n\<close> pages gets an array of \<open>n + 1\<close> elements whose first elements hold
  the hashes of the reads that delivered a whole page, in the order of the reads, and whose
  other elements stay uninitialised: after a short read the hashes of all later pages stand
  one place too early. The short reads of all regions are reported, and nothing else is.
\<close>

theorem read_mem_correct:
  assumes "pr_maps p = Some maps" and "pMemFile p = Some f"
    and "\<forall>mr \<in> set maps. \<exists>n. page_aligned mr n" and "\<forall>n. k_malloc K n"
  shows "\<exists>p' mrs. read_mem K p = Returns (p', concat (map (\<lambda>i. read_errors K (page_total (maps ! i)) (streams K maps f ! i))
      [0..<length maps])) \<and>
    pr_maps p' = Some mrs \<and> length mrs = length maps \<and>
    (\<forall>i < length maps.
      let n = page_total (maps ! i);
          good = filter (\<lambda>bytes. length bytes = pageSize) (reads K n (streams K maps f ! i));
          pages = mr_pages (mrs ! i)
      in mrs ! i = (maps ! i)\<lparr>mr_pages := pages\<rparr> \<and> length pages = n + 1 \<and>
         (\<forall>j < length good. pages ! j = \<lparr>pg_hash = Some (page_hash (good ! j)), pg_share = None\<rparr>) \<and>
         (\<forall>j. length good \<le> j \<longrightarrow> j < n + 1 \<longrightarrow> pages ! j = fresh_page))"
proof -
  let ?mrs = "map2 (filled K) maps (streams K maps f)"
  have texts: "map2 (\<lambda>mr. read_errors K (page_total mr)) maps (streams K maps f)
      = map (\<lambda>i. read_errors K (page_total (maps ! i)) (streams K maps f ! i)) [0..<length maps]"
    by (intro nth_equalityI) simp_all
  obtain f' where r: "read_mem K p = Returns (p\<lparr>pr_maps := Some ?mrs, pMemFile := Some f'\<rparr>,
      concat (map (\<lambda>i. read_errors K (page_total (maps ! i)) (streams K maps f ! i)) [0..<length maps]))"
    using read_mem_streams [OF assms] unfolding texts by blast
  have "length (whole (reads K n g)) \<le> n + 1" for n g
    using length_whole [of "reads K n g"] by simp
  then show ?thesis
    using r by (intro exI [of _ "p\<lparr>pr_maps := Some ?mrs, pMemFile := Some f'\<rparr>"] exI [of _ ?mrs])
      (simp add: Let_def filled_def length_hashed hashed_nth flip: whole_def)
qed

lemma sample_aligned: "page_aligned (region_of sample_entry) 2"
  by (simp add: page_aligned_def region_of_def sample_entry_def pageSize_def)

text \<open>A stream whose first read falls short.\<close>

definition late_kernel :: "u64 kernel" where
  "late_kernel = sample_kernel\<lparr>k_fread := (\<lambda>f. (if f = 4096 then [] else replicate pageSize 0, f + of_nat pageSize))\<rparr>"

theorem read_mem_correct_witness:
  "\<exists>p' mrs. read_mem late_kernel
      ((proc_init 7)\<lparr>pr_maps := Some [region_of sample_entry], pMemFile := Some 0\<rparr>)
      = Returns (p', short_text late_kernel 8192) \<and>
    pr_maps p' = Some mrs \<and> length mrs = 1 \<and>
    mr_pages (mrs ! 0) ! 0 = \<lparr>pg_hash = Some (page_hash (replicate pageSize 0)), pg_share = None\<rparr> \<and>
    mr_pages (mrs ! 0) ! 1 = fresh_page"
proof -
  have start: "mr_start (region_of sample_entry) = 4096" by (simp add: region_of_def sample_entry_def)
  have two: "page_total (region_of sample_entry) = Suc (Suc 0)"
    using page_total_aligned [OF sample_aligned] by simp
  have "reads late_kernel (Suc (Suc 0)) 4096 = [[], replicate pageSize 0]"
    "read_errors late_kernel (Suc (Suc 0)) 4096 = short_text late_kernel 8192"
    by (simp_all add: late_kernel_def sample_kernel_def) (simp_all add: pageSize_def)
  moreover have "k_fseeko late_kernel a g = a" "k_malloc late_kernel n" for a g n
    by (simp_all add: late_kernel_def sample_kernel_def)
  moreover have "([] :: u8 list) \<noteq> replicate pageSize 0" by (simp add: pageSize_def)
  moreover have "length ([] :: u8 list) \<noteq> pageSize" by (simp add: pageSize_def)
  ultimately show ?thesis
    using read_mem_correct [of "(proc_init 7)\<lparr>pr_maps := Some [region_of sample_entry], pMemFile := Some 0\<rparr>"
        "[region_of sample_entry]" 0 late_kernel] sample_aligned
    by (auto simp: Let_def two start)
qed

section \<open>The map counts\<close>

text \<open>
  For files that deliver their content, in reads cut into any pieces, \<open>mr_parse_pagemap\<close> ends
  and gives each present page of the region the map count of its frame, converted to \<open>int\<close>;
  pages that are not present keep the field as it was, hashes are untouched, and one line is
  printed for every swapped page.
\<close>

theorem mr_parse_pagemap_correct:
  assumes "proc_files K E fd pm kc" and "unat (mr_start mr) = pageSize * i0" and "page_aligned mr n"
    and "n \<le> length (mr_pages mr)" and "i0 + n < 2 ^ 52"
  shows "\<exists>mr'. mr_parse_pagemap K mr fd E = Returns (mr', E\<lparr>err := err E @ swap_texts pm i0 n\<rparr>) \<and>
    mr' = mr\<lparr>mr_pages := mr_pages mr'\<rparr> \<and> length (mr_pages mr') = length (mr_pages mr) \<and>
    (\<forall>j < length (mr_pages mr). let pfn = pagemap_pfn (pm (i0 + j)) in
      pg_hash (mr_pages mr' ! j) = pg_hash (mr_pages mr ! j) \<and>
      pg_share (mr_pages mr' ! j) =
        (if j < n \<and> pfn \<noteq> 0 then Some (to_int (kc (unat pfn))) else pg_share (mr_pages mr ! j)))"
proof -
  have "mr_parse_pagemap K mr fd E = Returns (after_entries pm kc i0 mr E n)"
    by (rule mr_parse_pagemap_counts) (use assms in auto)
  then show ?thesis
    by (intro exI [of _ "mr\<lparr>mr_pages := counted pm kc i0 n (mr_pages mr)\<rparr>"])
      (simp add: after_entries_def counted_def Let_def)
qed

lemma sample_serves: "serves sample_kernel file (\<lambda>i. 0)"
proof -
  have "map (\<lambda>i. 0) [off..<off + n] = replicate n (0 :: u64)" for off n
    by (simp add: map_replicate_const)
  then show ?thesis by (auto simp: serves_def sample_kernel_def)
qed

definition sample_env :: env where
  "sample_env = \<lparr>fds = [3 \<mapsto> ''/proc/kpageflags'', 4 \<mapsto> ''/proc/kpagecount'', 5 \<mapsto> ''/proc/7/pagemap''],
     kpageflags_fd = 3, kpagecount_fd = 4, err = [], traced = [], watch = \<lparr>t_start = 0, t_total = 0\<rparr>, ticks = 0\<rparr>"

theorem mr_parse_pagemap_correct_witness:
  "\<exists>mr'. mr_parse_pagemap sample_kernel ((region_of sample_entry)\<lparr>mr_pages := replicate 3 fresh_page\<rparr>)
      5 sample_env = Returns (mr', sample_env\<lparr>err := err sample_env @ swap_texts (\<lambda>i. 0) 1 2\<rparr>) \<and>
    length (mr_pages mr') = 3"
proof -
  have "proc_files sample_kernel sample_env 5 (\<lambda>i. 0) (\<lambda>i. 0)"
    using sample_serves by (auto simp: proc_files_def sample_env_def)
  from mr_parse_pagemap_correct [OF this, of "(region_of sample_entry)\<lparr>mr_pages := replicate 3 fresh_page\<rparr>" 1 2]
    sample_aligned
  show ?thesis
    by (auto simp: page_aligned_def region_of_def sample_entry_def pageSize_def)
qed

section \<open>The whole process\<close>

text \<open>
  \<open>proc_do\<close> on a process whose maps file the kernel wrote opens the files, keeps exactly the
  anonymous regions of at least one page, in order, and reads each of them; every page array
  is one element longer than the region and reflects the reads of that region. What short reads
  report is all it prints.
\<close>

theorem proc_do_correct:
  assumes "k_maps K (pr_pid p) = Some (concat (map show_entry es))" and "k_mem K (pr_pid p) = Some f"
    and "0 \<le> k_open K (proc_path (pr_pid p) ''pagemap'') (dom (fds E))"
    and "\<forall>e \<in> set es. entry_ok e \<and> (\<exists>n. page_aligned (region_of e) n)" and "\<forall>n. k_malloc K n"
    and "clock_ok K" and "watch_ok K E"
  shows "\<exists>p' mrs out. proc_do K p E = Returns (p',
      timed K (say out (E\<lparr>fds := (fds E)(pagemap_fd p' \<mapsto> proc_path (pr_pid p) ''pagemap'')\<rparr>))) \<and>
    pr_maps p' = Some mrs \<and>
    list_all2 (region_read K)
      (filter (\<lambda>mr. mr_is_anon mr \<and> 0 < page_total mr) (map region_of es)) mrs"
  using proc_do_regions [OF assms(1-3) _ assms(5-7)] assms(4) by (simp only: entries_ok_def anon_regions_def)

definition full_kernel :: "u64 kernel" where
  "full_kernel = sample_kernel\<lparr>k_maps := (\<lambda>pid. Some (concat (map show_entry [sample_entry]))),
     k_mem := (\<lambda>pid. Some 0)\<rparr>"

lemma sample_clock: "clock_ok sample_kernel" "watch_ok sample_kernel sample_env"
  by (auto simp: clock_ok_def watch_ok_def sample_kernel_def sample_env_def mono_def)

theorem proc_do_correct_witness:
  "\<exists>p' mrs out. proc_do full_kernel (proc_init 7) sample_env = Returns (p',
      timed full_kernel (say out (sample_env\<lparr>fds := (fds sample_env)(pagemap_fd p' \<mapsto> ''/proc/7/pagemap'')\<rparr>))) \<and>
    pr_maps p' = Some mrs"
proof -
  have "proc_path 7 ''pagemap'' = ''/proc/7/pagemap''"
    by (simp add: proc_path_def fmt_d_eval)
  moreover have "pr_pid (proc_init 7 :: u64 process) = 7" by (simp add: proc_init_def)
  moreover have "k_maps full_kernel 7 = Some (concat (map show_entry [sample_entry]))"
    "k_mem full_kernel 7 = Some 0" "0 \<le> k_open full_kernel fl (dom (fds sample_env))"
    "\<forall>n. k_malloc full_kernel n" for fl
    by (simp_all add: full_kernel_def sample_kernel_def)
  moreover have "\<forall>e \<in> set [sample_entry]. entry_ok e \<and> (\<exists>n. page_aligned (region_of e) n)"
    using sample_entry_ok sample_aligned by auto
  moreover have "clock_ok full_kernel" "watch_ok full_kernel sample_env"
    using sample_clock by (simp_all add: clock_ok_def watch_ok_def full_kernel_def)
  ultimately show ?thesis
    using proc_do_correct [of full_kernel "proc_init 7" "[sample_entry]" 0 sample_env] by fastforce
qed

text \<open>
  C29: \<open>proc_parse_pagemap\<close> counts all regions of the process, but it closes the descriptor of
  \<open>/proc/kpagecount\<close> twice and that of \<open>/proc/kpageflags\<close> never: each call leaves one more
  descriptor open than there were before.
\<close>

theorem proc_parse_pagemap_correct:
  assumes "pr_maps p = Some maps" and "fds E (pagemap_fd p) = Some file" and "serves K file pm"
    and "serves K ''/proc/kpageflags'' kf" and "serves K ''/proc/kpagecount'' kc"
    and "k_open K ''/proc/kpageflags'' (dom (fds E)) = fd1" and "fd1 \<notin> dom (fds E)" and "0 \<le> fd1"
    and "k_open K ''/proc/kpagecount'' (insert fd1 (dom (fds E))) = fd2"
    and "fd2 \<notin> insert fd1 (dom (fds E))" and "0 \<le> fd2"
    and "\<forall>mr \<in> set maps. page_aligned mr (page_total mr) \<and> page_total mr \<le> length (mr_pages mr) \<and>
      unat (mr_start mr) mod pageSize = 0"
  shows "\<exists>p' E'. proc_parse_pagemap K p E = Returns (p', E') \<and>
    pr_maps p' = Some (map (\<lambda>mr. mr\<lparr>mr_pages :=
      counted pm kc (unat (mr_start mr) div pageSize) (page_total mr) (mr_pages mr)\<rparr>) maps) \<and>
    fds E' = (fds E)(fd1 \<mapsto> ''/proc/kpageflags'')"
  using proc_parse_pagemap_counts [OF assms(1-11)] assms(12)
  by (simp add: countable_region_def with_counts_def [abs_def])

theorem proc_parse_pagemap_correct_witness:
  "\<exists>p' E'. proc_parse_pagemap sample_kernel
      ((proc_init 7)\<lparr>pr_maps := Some [(region_of sample_entry)\<lparr>mr_pages := replicate 3 fresh_page\<rparr>],
        pagemap_fd := 5\<rparr>) (sample_env\<lparr>fds := [5 \<mapsto> ''/proc/7/pagemap'']\<rparr>) = Returns (p', E') \<and>
    fds E' = [5 \<mapsto> ''/proc/7/pagemap'', 3 \<mapsto> ''/proc/kpageflags'']"
proof -
  let ?mr = "(region_of sample_entry)\<lparr>mr_pages := replicate 3 fresh_page\<rparr>"
  have "page_total ?mr = 2"
    by (simp add: page_total_def region_of_def sample_entry_def pageSize_def)
  then have "page_aligned ?mr (page_total ?mr) \<and> page_total ?mr \<le> length (mr_pages ?mr) \<and>
      unat (mr_start ?mr) mod pageSize = 0"
    by (simp add: page_aligned_def region_of_def sample_entry_def pageSize_def)
  then show ?thesis
    using proc_parse_pagemap_correct [of "(proc_init 7)\<lparr>pr_maps := Some [?mr], pagemap_fd := 5\<rparr>"
        "[?mr]" "sample_env\<lparr>fds := [5 \<mapsto> ''/proc/7/pagemap'']\<rparr>" "''/proc/7/pagemap''" sample_kernel
        "\<lambda>i. 0" "\<lambda>i. 0" "\<lambda>i. 0" 3 4] sample_serves
    by (auto simp: sample_kernel_def)
qed

text \<open>
  \<open>mem_print_pages\<close> prints one line for every page of the region that some page table refers
  to, in address order, with its count, address and hash, and nothing for the others. It is
  undefined as soon as one page of the region has no count, as every page without a frame.
\<close>

theorem mem_print_pages_correct:
  assumes "page_aligned mr n" and "n \<le> length (mr_pages mr)"
  shows "mem_print_pages mr out =
    (if list_all printable (take n (mr_pages mr))
     then Returns (out @ concat (map (\<lambda>j. page_line (page_addr mr j) (mr_pages mr ! j)) [0..<n]))
     else Undefined)"
  using print_pages_loop_eq [of "mr_start mr" n "mr_end mr" 0 "mr_pages mr" out] assms
  by (simp add: mem_print_pages_def page_aligned_def page_addr_def)

theorem mem_print_pages_correct_witness:
  "mem_print_pages ((region_of sample_entry)\<lparr>mr_pages :=
      [\<lparr>pg_hash = Some 171, pg_share = Some 0\<rparr>, fresh_page, fresh_page]\<rparr>) [] = Undefined"
  using mem_print_pages_correct [of "(region_of sample_entry)\<lparr>mr_pages :=
      [\<lparr>pg_hash = Some 171, pg_share = Some 0\<rparr>, fresh_page, fresh_page]\<rparr>" 2 "[]"] sample_aligned
  by (simp add: page_aligned_def printable_def fresh_page_def numeral_2_eq_2)

end
