(* ===== verification/Setcmp.thy ===== *)
theory Setcmp
  imports Multisets Proc
begin

text \<open>
  The functions of \<open>setcmp.c\<close>: building sets of page hashes for regions and processes, and the
  counts printed from them. \<open>md\<close> is \<open>malloc\<close> for the data; the block \<open>malloc\<close> returns to
  \<open>set_init\<close> is an argument of each function that creates a set. What is printed to \<open>stderr\<close> is
  returned as text.
\<close>

section \<open>Loops over pages and regions\<close>

text \<open>\<open>for (i = 0; i < mr_page_num(mr); i++) { page = mr_get_page(mr, i); ... }\<close>\<close>

definition for_pages :: "mem_reg \<Rightarrow> (page \<Rightarrow> 's \<Rightarrow> 's outcome) \<Rightarrow> 's \<Rightarrow> 's outcome" where
  "for_pages mr body s =
     for_all (upto_int (mr_page_num mr)) (\<lambda>i s. continue (mr_get_page mr i) (\<lambda>page. body page s)) s"

text \<open>\<open>for (i = 0; i < proc_mr_num(p); i++) { mr = proc_get_mr(p, i); ... }\<close>\<close>

definition for_regions :: "'f process \<Rightarrow> (mem_reg \<Rightarrow> 's \<Rightarrow> 's outcome) \<Rightarrow> 's \<Rightarrow> 's outcome" where
  "for_regions p body s =
     continue (proc_mr_num p) (\<lambda>n.
     for_all (upto_int n) (\<lambda>i s. continue (proc_get_mr p i) (\<lambda>mr. body mr s)) s)"

text \<open>Pages that are zero, or else mapped more than once, are passed over.\<close>

definition skipped :: "page \<Rightarrow> bool outcome" where
  "skipped page =
     continue (page_is_zero page) (\<lambda>zero.
     if zero then Returns True else continue (page_count page) (\<lambda>n. Returns (n > 1)))"

section \<open>Building sets\<close>

definition set_add_mr :: "(heap \<Rightarrow> ptr \<times> rb_node) \<Rightarrow> ptr \<Rightarrow> mem_reg \<Rightarrow> heap \<Rightarrow> heap outcome" where
  "set_add_mr md s mr =
     for_pages mr (\<lambda>page H.
       continue (page_is_zero page) (\<lambda>zero.
       if zero then Returns H
       else continue (page_to_u32 page) (\<lambda>v.
         continue (new_data md v H) (\<lambda>(d, H). defined (set_add s d H)))))"

definition cand_set_add_mr :: "(heap \<Rightarrow> ptr \<times> rb_node) \<Rightarrow> ptr \<Rightarrow> mem_reg \<Rightarrow> heap \<Rightarrow> heap outcome" where
  "cand_set_add_mr md s mr =
     for_pages mr (\<lambda>page H.
       continue (skipped page) (\<lambda>skip.
       if skip then Returns H
       else continue (page_to_u32 page) (\<lambda>v.
         continue (new_data md v H) (\<lambda>(d, H). defined (set_add s d H)))))"

definition set_from_mr :: "(heap \<Rightarrow> ptr \<times> rb_node) \<Rightarrow> ptr \<Rightarrow> mem_reg \<Rightarrow> heap \<Rightarrow> (ptr \<times> heap) outcome" where
  "set_from_mr md blk mr H =
     continue (defined (set_init blk H)) (\<lambda>(s, H).
     continue (set_add_mr md s mr H) (\<lambda>H. Returns (s, H)))"

text \<open>The loop body of the two functions that build a set without repetitions.\<close>

definition uniq_add_page :: "(heap \<Rightarrow> ptr \<times> rb_node) \<Rightarrow> ptr \<Rightarrow> page \<Rightarrow> heap \<Rightarrow> heap outcome" where
  "uniq_add_page md s page H =
     continue (skipped page) (\<lambda>skip.
     if skip then Returns H
     else continue (page_to_u32 page) (\<lambda>v.
       continue (new_data md v H) (\<lambda>(d, H).
       continue (defined (set_in s d H)) (\<lambda>there.
       if there then defined (data_free d H) else defined (set_add s d H)))))"

definition uniq_set_from_mr :: "(heap \<Rightarrow> ptr \<times> rb_node) \<Rightarrow> ptr \<Rightarrow> mem_reg \<Rightarrow> heap \<Rightarrow> (ptr \<times> heap) outcome" where
  "uniq_set_from_mr md blk mr H =
     continue (defined (set_init blk H)) (\<lambda>(s, H).
     continue (for_pages mr (uniq_add_page md s) H) (\<lambda>H. Returns (s, H)))"

definition set_from_proc :: "(heap \<Rightarrow> ptr \<times> rb_node) \<Rightarrow> ptr \<Rightarrow> 'f process \<Rightarrow> heap \<Rightarrow> (ptr \<times> heap) outcome" where
  "set_from_proc md blk p H =
     continue (defined (set_init blk H)) (\<lambda>(s, H).
     continue (for_regions p (set_add_mr md s) H) (\<lambda>H. Returns (s, H)))"

definition cand_set_from_proc :: "(heap \<Rightarrow> ptr \<times> rb_node) \<Rightarrow> ptr \<Rightarrow> 'f process \<Rightarrow> heap \<Rightarrow> (ptr \<times> heap) outcome" where
  "cand_set_from_proc md blk p H =
     continue (defined (set_init blk H)) (\<lambda>(s, H).
     continue (for_regions p (cand_set_add_mr md s) H) (\<lambda>H. Returns (s, H)))"

definition uniq_set_from_proc :: "(heap \<Rightarrow> ptr \<times> rb_node) \<Rightarrow> ptr \<Rightarrow> 'f process \<Rightarrow> heap \<Rightarrow> (ptr \<times> heap) outcome" where
  "uniq_set_from_proc md blk p H =
     continue (defined (set_init blk H)) (\<lambda>(s, H).
     continue (for_regions p (\<lambda>mr. for_pages mr (uniq_add_page md s)) H) (\<lambda>H. Returns (s, H)))"

section \<open>Duplicates within a process\<close>

text \<open>\<open>blk i\<close>: the two blocks \<open>malloc\<close> returns for the sets of process \<open>i\<close>.\<close>

definition print_intra_simi ::
  "(heap \<Rightarrow> ptr \<times> rb_node) \<Rightarrow> (nat \<Rightarrow> ptr \<times> ptr) \<Rightarrow> 'f process list \<Rightarrow> heap \<Rightarrow> (heap \<times> string) outcome" where
  "print_intra_simi md blk procs H =
     for_all (enumerate 0 procs) (\<lambda>(i, p) (H, out).
       continue (set_from_proc md (fst (blk i)) p H) (\<lambda>(all, H).
       continue (uniq_set_from_proc md (snd (blk i)) p H) (\<lambda>(uniq, H).
       continue (defined (set_size all H)) (\<lambda>n.
       continue (defined (set_size uniq H)) (\<lambda>m.
       continue (defined (int_add n (- m))) (\<lambda>diff.
       continue (defined (set_free all H)) (\<lambda>H.
       continue (defined (set_free uniq H)) (\<lambda>H.
       Returns (H, out @ fmt_d diff @ [newline])))))))))
     (H, ''intra proc dup'' @ [newline])"

section \<open>Duplicates between processes\<close>

definition MAX_PID :: nat where
  "MAX_PID = 32"

text \<open>
  The loop of \<open>found_in_other_sets\<close> over the indices; it stops at the first set with the key. The
  elements of the array that were never written are not in the list.
\<close>

fun found_loop :: "ptr list \<Rightarrow> int list \<Rightarrow> ptr \<Rightarrow> int \<Rightarrow> heap \<Rightarrow> int option" where
  "found_loop arr [] d this H = Some 0"
| "found_loop arr (i # is) d this H =
     (if i = this then found_loop arr is d this H
      else if i < 0 \<or> nat i \<ge> length arr then None
      else do {
        there \<leftarrow> set_in (arr ! nat i) d H;
        if there then Some 1 else found_loop arr is d this H })"

definition found_in_other_sets :: "ptr list \<Rightarrow> int \<Rightarrow> ptr \<Rightarrow> int \<Rightarrow> heap \<Rightarrow> int option" where
  "found_in_other_sets arr num d this H = found_loop arr (upto_int num) d this H"

text \<open>\<open>set[i] = build(...)\<close> for a list of objects; the array has room for \<open>cap\<close> elements.\<close>

definition fill_sets ::
  "nat \<Rightarrow> (ptr \<Rightarrow> 'b \<Rightarrow> heap \<Rightarrow> (ptr \<times> heap) outcome) \<Rightarrow> (nat \<Rightarrow> ptr) \<Rightarrow> 'b list \<Rightarrow> heap \<Rightarrow>
    (ptr list \<times> heap) outcome" where
  "fill_sets cap build blk objs H =
     for_all (enumerate 0 objs) (\<lambda>(i, p) (arr, H).
       if i \<ge> cap then Undefined
       else continue (build (blk i) p H) (\<lambda>(s, H). Returns (arr @ [s], H)))
     ([], H)"

text \<open>
  A datum for the hash of a page, counted when another set has it, and freed:
  \<open>d = data_init(page_to_u32(p)); dup += found_in_other_sets(set, num, d, i); data_free(d);\<close>
\<close>

definition count_key :: "(heap \<Rightarrow> ptr \<times> rb_node) \<Rightarrow> ptr list \<Rightarrow> int \<Rightarrow> int \<Rightarrow> u32 \<Rightarrow> heap \<times> int \<Rightarrow> (heap \<times> int) outcome" where
  "count_key md arr num this v = (\<lambda>(H, dup).
     continue (new_data md v H) (\<lambda>(d, H).
     continue (defined (found_in_other_sets arr num d this H)) (\<lambda>found.
     continue (defined (int_add dup found)) (\<lambda>dup.
     continue (defined (data_free d H)) (\<lambda>H. Returns (H, dup))))))"

definition count_page :: "(heap \<Rightarrow> ptr \<times> rb_node) \<Rightarrow> ptr list \<Rightarrow> int \<Rightarrow> int \<Rightarrow> page \<Rightarrow> heap \<times> int \<Rightarrow> (heap \<times> int) outcome" where
  "count_page md arr num this page s =
     continue (page_to_u32 page) (\<lambda>v. count_key md arr num this v s)"

definition free_sets :: "ptr list \<Rightarrow> heap \<Rightarrow> heap outcome" where
  "free_sets arr H = for_all arr (\<lambda>s H. defined (set_free s H)) H"

text \<open>The pages of process \<open>i\<close> that are neither zero nor shared.\<close>

definition inter_process ::
  "(heap \<Rightarrow> ptr \<times> rb_node) \<Rightarrow> ptr list \<Rightarrow> int \<Rightarrow> int \<Rightarrow> 'f process \<Rightarrow> heap \<Rightarrow> (heap \<times> int) outcome" where
  "inter_process md arr num i p H =
     for_regions p (\<lambda>mr. for_pages mr (\<lambda>page s.
       continue (skipped page) (\<lambda>skip.
       if skip then Returns s else count_page md arr num i page s))) (H, 0)"

definition print_inter_simi ::
  "(heap \<Rightarrow> ptr \<times> rb_node) \<Rightarrow> (nat \<Rightarrow> ptr) \<Rightarrow> 'f process list \<Rightarrow> heap \<Rightarrow> (heap \<times> string) outcome" where
  "print_inter_simi md blk procs H =
     continue (fill_sets MAX_PID (set_from_proc md) blk procs H) (\<lambda>(arr, H).
     continue (for_all (enumerate 0 procs) (\<lambda>(i, p) (H, out).
         continue (inter_process md arr (int (length procs)) (int i) p H) (\<lambda>(H, dup).
         Returns (H, out @ fmt_d dup @ '' '' @ [newline])))
       (H, ''inter proc dup'' @ [newline])) (\<lambda>(H, out).
     continue (free_sets arr H) (\<lambda>H. Returns (H, out))))"

text \<open>The matrix; the sets are freed in pairs.\<close>

definition print_simi_matrix ::
  "(heap \<Rightarrow> ptr \<times> rb_node) \<Rightarrow> (nat \<Rightarrow> ptr) \<Rightarrow> (nat \<Rightarrow> ptr) \<Rightarrow> 'f process list \<Rightarrow> heap \<Rightarrow> (heap \<times> string) outcome" where
  "print_simi_matrix md blk cblk procs H =
     continue (fill_sets MAX_PID (set_from_proc md) blk procs H) (\<lambda>(arr, H).
     continue (fill_sets MAX_PID (cand_set_from_proc md) cblk procs H) (\<lambda>(carr, H).
     continue (for_all [0..<length procs] (\<lambda>i out.
         continue (for_all [0..<length procs] (\<lambda>j out.
             if i = j then Returns (out @ ''0 '')
             else continue (defined (set_found_in (carr ! i) (arr ! j) H)) (\<lambda>n.
               Returns (out @ fmt_d n @ '' ''))) out) (\<lambda>out.
         Returns (out @ [newline])))
       (''simi matrix'' @ [newline])) (\<lambda>out.
     continue (for_all (zip arr carr) (\<lambda>(s, c) H.
         continue (defined (set_free s H)) (\<lambda>H. defined (set_free c H))) H) (\<lambda>H.
     Returns (H, out)))))"

section \<open>Duplicates altogether\<close>

text \<open>
  \<open>do dup += found_in_other_sets(uniq_set, num, d, i); while (d = set_next(d), d);\<close>: the test
  comes after the body, which also runs for what \<open>set_first\<close> returns on an empty set.
\<close>

partial_function (option) total_loop :: "ptr list \<Rightarrow> int \<Rightarrow> int \<Rightarrow> heap \<Rightarrow> ptr \<Rightarrow> int \<Rightarrow> int option" where
  "total_loop arr num this H d dup = do {
     found \<leftarrow> found_in_other_sets arr num d this H;
     dup \<leftarrow> int_add dup found;
     d \<leftarrow> set_next d H;
     if d \<noteq> NULL then total_loop arr num this H d dup else Some dup }"

text \<open>The sets are never freed.\<close>

definition print_total_dup ::
  "(heap \<Rightarrow> ptr \<times> rb_node) \<Rightarrow> (nat \<Rightarrow> ptr \<times> ptr) \<Rightarrow> 'f process list \<Rightarrow> heap \<Rightarrow> (heap \<times> string) outcome" where
  "print_total_dup md blk procs H =
     continue (for_all (enumerate 0 procs) (\<lambda>(i, p) (arr, uarr, H).
         if i \<ge> MAX_PID then Undefined
         else continue (set_from_proc md (fst (blk i)) p H) (\<lambda>(s, H).
           continue (uniq_set_from_proc md (snd (blk i)) p H) (\<lambda>(u, H).
           Returns (arr @ [s], uarr @ [u], H)))) ([], [], H)) (\<lambda>(arr, uarr, H).
     continue (for_all [0..<length procs] (\<lambda>i out.
         continue (defined (do {
             d \<leftarrow> set_first (uarr ! i) H;
             total_loop uarr (int (length procs)) (int i) H d 0 })) (\<lambda>dup.
         continue (defined (set_size (arr ! i) H)) (\<lambda>n.
         Returns (out @ fmt_d dup @ '' '' @ fmt_d n @ '' '' @ [newline]))))
       (''total dup'' @ [newline])) (\<lambda>out. Returns (H, out)))"

section \<open>Duplicates by region\<close>

definition mr_dup_inter ::
  "(heap \<Rightarrow> ptr \<times> rb_node) \<Rightarrow> ptr list \<Rightarrow> int \<Rightarrow> mem_reg \<Rightarrow> int \<Rightarrow> heap \<Rightarrow> (heap \<times> int) outcome" where
  "mr_dup_inter md arr num mr this H =
     for_pages mr (\<lambda>page (H, dup).
       continue (page_is_zero page) (\<lambda>zero.
       if zero then Returns (H, dup) else count_page md arr num this page (H, dup))) (H, 0)"

definition mr_nonzero_num :: "mem_reg \<Rightarrow> int outcome" where
  "mr_nonzero_num mr =
     for_pages mr (\<lambda>page n.
       continue (page_is_zero page) (\<lambda>zero. if \<not> zero then defined (int_add n 1) else Returns n)) 0"

text \<open>The sets are not freed here either.\<close>

definition print_inter_simi_mr ::
  "(heap \<Rightarrow> ptr \<times> rb_node) \<Rightarrow> (nat \<Rightarrow> ptr) \<Rightarrow> 'f process list \<Rightarrow> heap \<Rightarrow> (heap \<times> string) outcome" where
  "print_inter_simi_mr md blk procs H =
     continue (fill_sets MAX_PID (set_from_proc md) blk procs H) (\<lambda>(arr, H).
     for_all (enumerate 0 procs) (\<lambda>(i, p).
       for_regions p (\<lambda>mr (H, out).
         continue (mr_dup_inter md arr (int (length procs)) mr (int i) H) (\<lambda>(H, dup).
         if dup = 0 then Returns (H, out)
         else continue (mr_nonzero_num mr) (\<lambda>n.
           Returns (H, out @ fmt_d dup @ '' '' @ fmt_d n @ '' '' @ mr_get_name mr @ [newline])))))
     (H, ''''))"

definition intra_mr_simi ::
  "(heap \<Rightarrow> ptr \<times> rb_node) \<Rightarrow> ptr \<Rightarrow> ptr \<Rightarrow> mem_reg \<Rightarrow> heap \<Rightarrow> (heap \<times> int) outcome" where
  "intra_mr_simi md blk ublk mr H =
     continue (set_from_mr md blk mr H) (\<lambda>(all, H).
     continue (uniq_set_from_mr md ublk mr H) (\<lambda>(uniq, H).
     continue (defined (set_size all H)) (\<lambda>n.
     continue (defined (set_size uniq H)) (\<lambda>m.
     continue (defined (int_add n (- m))) (\<lambda>dup.
     continue (defined (set_free all H)) (\<lambda>H.
     continue (defined (set_free uniq H)) (\<lambda>H. Returns (H, dup))))))))"

text \<open>
  One process: a set per region, in an array of \<open>n_mr\<close> elements (\<open>granted\<close> says whether \<open>malloc\<close>
  yields it), then every page of every region, zero pages and shared ones included, is looked
  up in the sets of the other regions. \<open>blk i\<close> and \<open>rblk i\<close>: the blocks for the set of region \<open>i\<close>
  and for the two sets of \<open>intra_mr_simi\<close>.
\<close>

definition intra_proc_simi_mr ::
  "(heap \<Rightarrow> ptr \<times> rb_node) \<Rightarrow> (nat \<Rightarrow> bool) \<Rightarrow> (nat \<Rightarrow> ptr) \<Rightarrow> (nat \<Rightarrow> ptr \<times> ptr) \<Rightarrow> 'f process \<Rightarrow> heap \<Rightarrow>
    (heap \<times> string) outcome" where
  "intra_proc_simi_mr md granted blk rblk p H =
     continue (proc_mr_num p) (\<lambda>n_mr.
     continue (fill_sets (if granted (8 * nat n_mr) then nat n_mr else 0)
         (\<lambda>s i H. continue (proc_get_mr p i) (\<lambda>mr. set_from_mr md s mr H)) blk (upto_int n_mr) H) (\<lambda>(arr, H).
     continue (for_all (upto_int n_mr) (\<lambda>i (H, out).
         continue (proc_get_mr p i) (\<lambda>mr.
         continue (for_pages mr (count_page md arr n_mr i) (H, 0)) (\<lambda>(H, dup).
         if dup = 0 then Returns (H, out)
         else continue (intra_mr_simi md (fst (rblk (nat i))) (snd (rblk (nat i))) mr H) (\<lambda>(H, intra).
           Returns (H, out @ fmt_d intra @ '' '' @ fmt_d dup @ '' '' @ mr_get_name mr @ [newline])))))
       (H, '''')) (\<lambda>(H, out).
     continue (free_sets arr H) (\<lambda>H. Returns (H, out)))))"

definition print_intra_process_simi_mr ::
  "(heap \<Rightarrow> ptr \<times> rb_node) \<Rightarrow> (nat \<Rightarrow> bool) \<Rightarrow> (nat \<Rightarrow> nat \<Rightarrow> ptr) \<Rightarrow> (nat \<Rightarrow> nat \<Rightarrow> ptr \<times> ptr) \<Rightarrow>
    'f process list \<Rightarrow> heap \<Rightarrow> (heap \<times> string) outcome" where
  "print_intra_process_simi_mr md granted blk rblk procs H =
     for_all (enumerate 0 procs) (\<lambda>(i, p) (H, out).
       continue (intra_proc_simi_mr md granted (blk i) (rblk i) p H) (\<lambda>(H, txt). Returns (H, out @ txt)))
     (H, '''')"

section \<open>The program\<close>

text \<open>\<open>atoi\<close>: blanks, a sign, digits; a value that is no \<open>int\<close> is undefined.\<close>

definition atoi :: "string \<Rightarrow> int outcome" where
  "atoi txt =
     (let (neg, s) = scan_sign (skip_space txt);
          n = int (fst (scan_digits 10 0 s));
          i = (if neg then - n else n)
      in if INT_MIN \<le> i \<and> i \<le> INT_MAX then Returns i else Undefined)"

text \<open>One process is stopped, read, counted and let go.\<close>

definition read_process ::
  "'f kernel \<Rightarrow> ptrace_fun \<Rightarrow> 'f process \<Rightarrow> env \<Rightarrow> ('f process \<times> env) outcome" where
  "read_process K ptrace p E =
     continue (proc_attach ptrace p E) (\<lambda>(_, E).
     continue (proc_do K p E) (\<lambda>(p, E).
     continue (proc_parse_pagemap K p E) (\<lambda>(p, E). Returns (p, proc_detach ptrace p E))))"

text \<open>
  \<open>main\<close> of \<open>setcmp.c\<close>, with the exit status. \<open>b1\<close>, \<open>b2\<close>, \<open>b3\<close> are the blocks for the sets of the
  three reports.
\<close>

definition setcmp_main ::
  "'f kernel \<Rightarrow> ptrace_fun \<Rightarrow> (heap \<Rightarrow> ptr \<times> rb_node) \<Rightarrow> (nat \<Rightarrow> ptr \<times> ptr) \<Rightarrow> (nat \<Rightarrow> ptr) \<Rightarrow> (nat \<Rightarrow> ptr \<times> ptr) \<Rightarrow>
    string list \<Rightarrow> env \<Rightarrow> heap \<Rightarrow> (int \<times> env) outcome" where
  "setcmp_main K ptrace md b1 b2 b3 argv E H =
     (case argv of
        [] \<Rightarrow> Undefined
      | name # args \<Rightarrow>
        if length argv \<le> 2 \<or> length argv \<ge> MAX_PID
        then Returns (- 1, say (name @ '' <pid> <pid> ...  <pid>'' @ [newline]) E)
        else
          continue (for_all args (\<lambda>arg procs.
              continue (atoi arg) (\<lambda>pid. Returns (procs @ [proc_init pid]))) []) (\<lambda>procs.
          continue (for_all procs (\<lambda>p (procs, E).
              continue (read_process K ptrace p E) (\<lambda>(p, E). Returns (procs @ [p], E))) ([], E)) (\<lambda>(procs, E).
          continue (print_intra_simi md b1 procs H) (\<lambda>(H, t1).
          continue (print_inter_simi md b2 procs H) (\<lambda>(H, t2).
          continue (print_total_dup md b3 procs H) (\<lambda>(H, t3).
          continue (for_all procs proc_del (say (t1 @ [newline] @ t2 @ [newline] @ t3 @ [newline]) E)) (\<lambda>E.
          Returns (0, E))))))))"

section \<open>The keys\<close>

text \<open>The pages a region reports, and their hashes.\<close>

definition pages_of :: "mem_reg \<Rightarrow> page list" where
  "pages_of mr = take (page_total mr) (mr_pages mr)"

definition page_key :: "page \<Rightarrow> u32" where
  "page_key pg = the (pg_hash pg)"

definition hashed_page :: "page \<Rightarrow> bool" where
  "hashed_page pg \<longleftrightarrow> pg_hash pg \<noteq> None"

text \<open>A page that is not zero also needs its count.\<close>

definition counted_page :: "page \<Rightarrow> bool" where
  "counted_page pg \<longleftrightarrow> pg_hash pg \<noteq> None \<and> (page_key pg \<noteq> zero_page_hash \<longrightarrow> pg_share pg \<noteq> None)"

definition nonzero :: "page \<Rightarrow> bool" where
  "nonzero pg \<longleftrightarrow> page_key pg \<noteq> zero_page_hash"

definition candidate :: "page \<Rightarrow> bool" where
  "candidate pg \<longleftrightarrow> nonzero pg \<and> the (pg_share pg) \<le> 1"

definition region_ok :: "(page \<Rightarrow> bool) \<Rightarrow> mem_reg \<Rightarrow> bool" where
  "region_ok Q mr \<longleftrightarrow> page_total mr < 2 ^ 31 \<and> page_total mr \<le> length (mr_pages mr) \<and>
     list_all Q (pages_of mr)"

definition process_ok :: "(page \<Rightarrow> bool) \<Rightarrow> 'f process \<Rightarrow> bool" where
  "process_ok Q p \<longleftrightarrow> pr_maps p \<noteq> None \<and> length (the (pr_maps p)) < 2 ^ 31 \<and>
     list_all (region_ok Q) (the (pr_maps p))"

text \<open>The hashes of the selected pages of a region and of a process.\<close>

definition region_keys :: "(page \<Rightarrow> bool) \<Rightarrow> mem_reg \<Rightarrow> u32 list" where
  "region_keys sel mr = map page_key (filter sel (pages_of mr))"

definition process_keys :: "(page \<Rightarrow> bool) \<Rightarrow> 'f process \<Rightarrow> u32 list" where
  "process_keys sel p = concat (map (region_keys sel) (the (pr_maps p)))"

lemma for_pages_eq:
  "region_ok Q mr \<Longrightarrow> for_pages mr body s = for_all (pages_of mr) body s"
  by (simp add: for_pages_def region_ok_def for_all_upto mr_page_num_exact for_all_pages pages_of_def)

lemma for_regions_eq:
  assumes "process_ok Q p"
  shows "for_regions p body s = for_all (the (pr_maps p)) body s"
proof -
  obtain maps where "pr_maps p = Some maps" "length maps < 2 ^ 31"
    using assms by (auto simp: process_ok_def)
  then show ?thesis
    by (simp add: for_regions_def proc_mr_num_maps for_all_upto for_all_regions)
qed

text \<open>Loops that append to a list or a text.\<close>

lemma for_all_collect:
  "(\<And>b rs. b \<in> set bs \<Longrightarrow> body b rs = Returns (rs @ f b)) \<Longrightarrow>
   for_all bs body rs = Returns (rs @ concat (map f bs))"
  by (induction bs arbitrary: rs) simp_all

text \<open>A loop whose body passes over some elements is a loop over the others.\<close>

lemma for_all_select:
  assumes "\<And>b s. b \<in> set bs \<Longrightarrow> body b s = (if sel b then act (f b) s else Returns s)"
  shows "for_all bs body s = for_all (map f (filter sel bs)) act s"
  using assms
  by (induction bs arbitrary: s) (auto intro!: continue_cong)

lemma for_all_concat: "for_all (concat bss) body s = for_all bss (\<lambda>bs. for_all bs body) s"
  by (induction bss arbitrary: s) (auto simp: for_all_append intro: continue_cong)

lemma for_pages_select:
  assumes ok: "region_ok Q mr"
    and body: "\<And>pg s. Q pg \<Longrightarrow> body pg s = (if sel pg then act (page_key pg) s else Returns s)"
  shows "for_pages mr body s = for_all (region_keys sel mr) act s"
proof -
  have "Q pg" if "pg \<in> set (pages_of mr)" for pg
    using ok that by (auto simp: region_ok_def list_all_iff)
  with body show ?thesis
    unfolding for_pages_eq [OF ok] region_keys_def by (intro for_all_select) blast
qed

lemma for_regions_select:
  assumes ok: "process_ok Q p"
    and body: "\<And>pg s. Q pg \<Longrightarrow> body pg s = (if sel pg then act (page_key pg) s else Returns s)"
  shows "for_regions p (\<lambda>mr. for_pages mr body) s = for_all (process_keys sel p) act s"
proof -
  have "for_regions p (\<lambda>mr. for_pages mr body) s
      = for_all (the (pr_maps p)) (\<lambda>mr. for_all (region_keys sel mr) act) s"
    unfolding for_regions_eq [OF ok] using ok body
    by (intro for_all_cong refl for_pages_select [where Q = Q]) (auto simp: process_ok_def list_all_iff)
  also have "\<dots> = for_all (process_keys sel p) act s"
    unfolding process_keys_def for_all_concat for_all_map ..
  finally show ?thesis .
qed

end
