(* ===== verification/Setcmp_Loops.thy ===== *)
theory Setcmp_Loops
  imports Setcmp
begin

text \<open>
  What the loops of \<open>setcmp.c\<close> compute over any allocator that keeps its promise: the multisets
  the builders leave, the counts, and that the sets a function frees are the ones it made.
\<close>

section \<open>Blocks for sets\<close>

text \<open>Blocks \<open>malloc\<close> returned while none of them, and nothing in \<open>C\<close>, was freed.\<close>

definition blocks_ok :: "ptr list \<Rightarrow> (ptr \<rightharpoonup> 'm) \<Rightarrow> bool" where
  "blocks_ok bs C \<longleftrightarrow> distinct bs \<and> NULL \<notin> set bs \<and> set bs \<inter> dom C = {}"

definition with_sets :: "(ptr \<rightharpoonup> 'm) \<Rightarrow> ptr list \<Rightarrow> 'm list \<Rightarrow> (ptr \<rightharpoonup> 'm)" where
  "with_sets C bs Ms = C ++ map_of (zip bs Ms)"

lemma with_sets_Nil [simp]: "with_sets C [] [] = C"
  by (simp add: with_sets_def)

lemma with_sets_Cons:
  assumes "length bs = length Ms" and "b \<notin> set bs"
  shows "with_sets (C(b \<mapsto> M)) bs Ms = with_sets C (b # bs) (M # Ms)"
proof -
  have "map_of (zip bs Ms) b = None" using assms by (simp add: map_of_zip_is_None)
  then show ?thesis
    by (auto simp: with_sets_def map_add_def fun_eq_iff split: option.split)
qed

lemma blocks_ok_Cons:
  "blocks_ok (b # bs) C \<longleftrightarrow> blocks_ok [b] C \<and> b \<notin> set bs \<and> blocks_ok bs (C(b \<mapsto> M))"
  by (auto simp: blocks_ok_def)

lemma with_sets_nth:
  assumes "length bs = length Ms" and "distinct bs" and "i < length bs"
  shows "with_sets C bs Ms (bs ! i) = Some (Ms ! i)"
  using assms by (simp add: with_sets_def map_of_zip_nth)

lemma with_sets_other: "length bs = length Ms \<Longrightarrow> b \<notin> set bs \<Longrightarrow> with_sets C bs Ms b = C b"
  by (simp add: with_sets_def map_add_dom_app_simps)

section \<open>Pages\<close>

lemma hashed_page_reads:
  "hashed_page pg \<Longrightarrow> page_is_zero pg = Returns (\<not> nonzero pg)"
  "hashed_page pg \<Longrightarrow> page_to_u32 pg = Returns (page_key pg)"
  by (auto simp: hashed_page_def page_is_zero_def page_to_u32_def nonzero_def page_key_def)

lemma counted_page_hashed: "counted_page pg \<Longrightarrow> hashed_page pg"
  by (simp add: counted_page_def hashed_page_def)

lemma skipped_eq: "counted_page pg \<Longrightarrow> skipped pg = Returns (\<not> candidate pg)"
  by (auto simp: skipped_def hashed_page_reads [OF counted_page_hashed] candidate_def nonzero_def
      counted_page_def page_count_def)

lemma region_ok_mono: "region_ok Q mr \<Longrightarrow> (\<And>pg. Q pg \<Longrightarrow> R pg) \<Longrightarrow> region_ok R mr"
  by (auto simp: region_ok_def list_all_iff)

lemma process_ok_mono: "process_ok Q p \<Longrightarrow> (\<And>pg. Q pg \<Longrightarrow> R pg) \<Longrightarrow> process_ok R p"
  unfolding process_ok_def list_all_iff by (meson region_ok_mono)

lemma process_ok_hashed: "process_ok counted_page p \<Longrightarrow> process_ok hashed_page p"
  by (erule process_ok_mono) (rule counted_page_hashed)

section \<open>Counting pages\<close>

lemma for_all_count:
  assumes "\<And>b n. b \<in> set bs \<Longrightarrow> body b n = (if P b then defined (int_add n 1) else Returns n)"
    and "0 \<le> n" and "n + int (length bs) \<le> INT_MAX"
  shows "for_all bs body n = Returns (n + int (length (filter P bs)))"
  using assms by (induction bs arbitrary: n) (simp_all add: INT_MIN_def)

lemma mr_nonzero_num_eq:
  assumes "region_ok hashed_page mr"
  shows "mr_nonzero_num mr = Returns (int (length (region_keys nonzero mr)))"
proof -
  have small: "page_total mr < 2 ^ 31" and pg: "\<And>pg. pg \<in> set (pages_of mr) \<Longrightarrow> hashed_page pg"
    using assms by (auto simp: region_ok_def list_all_iff)
  have "length (pages_of mr) \<le> page_total mr" by (simp add: pages_of_def)
  then have "0 + int (length (pages_of mr)) \<le> INT_MAX"
    using small by (simp add: INT_MAX_def)
  then have "for_all (pages_of mr) (\<lambda>page n.
      continue (page_is_zero page) (\<lambda>zero. if \<not> zero then defined (int_add n 1) else Returns n)) 0
      = Returns (0 + int (length (filter nonzero (pages_of mr))))"
    by (intro for_all_count) (auto simp: hashed_page_reads pg)
  then show ?thesis
    by (simp add: mr_nonzero_num_def for_pages_eq [OF assms] region_keys_def)
qed

section \<open>The builders as loops over keys\<close>

definition push_key :: "(heap \<Rightarrow> ptr \<times> rb_node) \<Rightarrow> ptr \<Rightarrow> u32 \<Rightarrow> heap \<Rightarrow> heap outcome" where
  "push_key md s v H = continue (new_data md v H) (\<lambda>(d, H). defined (set_add s d H))"

definition push_new_key :: "(heap \<Rightarrow> ptr \<times> rb_node) \<Rightarrow> ptr \<Rightarrow> u32 \<Rightarrow> heap \<Rightarrow> heap outcome" where
  "push_new_key md s v H = continue (new_data md v H) (\<lambda>(d, H).
     continue (defined (set_in s d H)) (\<lambda>there.
     if there then defined (data_free d H) else defined (set_add s d H)))"

lemma set_from_proc_keys:
  assumes "process_ok hashed_page p"
  shows "set_from_proc md blk p H = continue (defined (set_init blk H)) (\<lambda>(s, H).
    continue (for_all (process_keys nonzero p) (push_key md s) H) (\<lambda>H. Returns (s, H)))"
proof -
  have "for_regions p (set_add_mr md s) = for_all (process_keys nonzero p) (push_key md s)" for s
    unfolding set_add_mr_def fun_eq_iff
    by (intro allI for_regions_select [OF assms]) (auto simp: hashed_page_reads push_key_def)
  then show ?thesis by (simp only: set_from_proc_def)
qed

lemma cand_set_from_proc_keys:
  assumes "process_ok counted_page p"
  shows "cand_set_from_proc md blk p H = continue (defined (set_init blk H)) (\<lambda>(s, H).
    continue (for_all (process_keys candidate p) (push_key md s) H) (\<lambda>H. Returns (s, H)))"
proof -
  have "for_regions p (cand_set_add_mr md s) = for_all (process_keys candidate p) (push_key md s)" for s
    unfolding cand_set_add_mr_def fun_eq_iff
    by (intro allI for_regions_select [OF assms]) (auto simp: skipped_eq hashed_page_reads counted_page_hashed push_key_def)
  then show ?thesis by (simp only: cand_set_from_proc_def)
qed

lemma uniq_set_from_proc_keys:
  assumes "process_ok counted_page p"
  shows "uniq_set_from_proc md blk p H = continue (defined (set_init blk H)) (\<lambda>(s, H).
    continue (for_all (process_keys candidate p) (push_new_key md s) H) (\<lambda>H. Returns (s, H)))"
proof -
  have "for_regions p (\<lambda>mr. for_pages mr (uniq_add_page md s)) = for_all (process_keys candidate p) (push_new_key md s)" for s
    unfolding fun_eq_iff
    by (intro allI for_regions_select [OF assms]) (auto simp: uniq_add_page_def skipped_eq hashed_page_reads counted_page_hashed push_new_key_def)
  then show ?thesis by (simp only: uniq_set_from_proc_def)
qed

section \<open>The builders\<close>

context data_malloc
begin

lemma build:
  assumes "models H C D" and "blocks_ok [blk] C" and "int (length ks) \<le> INT_MAX"
  shows "ends_in {- 1} (\<lambda>(s, H'). s = blk \<and> models H' (C(blk \<mapsto> mset ks)) D)
    (continue (defined (set_init blk H)) (\<lambda>(s, H).
      continue (for_all ks (push_key md s) H) (\<lambda>H. Returns (s, H))))"
proof -
  obtain H' where H': "set_init blk H = Some (blk, H')" "models H' (C(blk \<mapsto> {#})) D"
    using simi.create [OF assms(1), of blk] assms(2) by (auto simp: blocks_ok_def)
  have "ends_in {- 1} (\<lambda>H'. models H' (C(blk \<mapsto> mset ks)) D) (for_all ks (push_key md blk) H')"
    using simi.push_list [OF H'(2), of blk "{#}" ks] assms(3) unfolding push_key_def
    by (simp add: fun_upd_same del: fun_upd_apply)
  then have "ends_in {- 1} (\<lambda>(s, H'). s = blk \<and> models H' (C(blk \<mapsto> mset ks)) D)
      (continue (for_all ks (push_key md blk) H') (\<lambda>H. Returns (blk, H)))"
    by (rule ends_in_continue) simp
  with H'(1) show ?thesis by simp
qed

lemma build_uniq:
  assumes "models H C D" and "blocks_ok [blk] C" and "int (length ks) \<le> INT_MAX"
  shows "ends_in {- 1} (\<lambda>(s, H'). s = blk \<and> models H' (C(blk \<mapsto> mset_set (set ks))) D)
    (continue (defined (set_init blk H)) (\<lambda>(s, H).
      continue (for_all ks (push_new_key md s) H) (\<lambda>H. Returns (s, H))))"
proof -
  obtain H' where H': "set_init blk H = Some (blk, H')" "models H' (C(blk \<mapsto> {#})) D"
    using simi.create [OF assms(1), of blk] assms(2) by (auto simp: blocks_ok_def)
  have "ends_in {- 1} (\<lambda>H'. models H' (C(blk \<mapsto> mset_set (set ks))) D) (for_all ks (push_new_key md blk) H')"
    using simi.push_new_list [OF H'(2), of blk "{}" ks] assms(3) unfolding push_new_key_def
    by (simp add: fun_upd_same del: fun_upd_apply)
  then have "ends_in {- 1} (\<lambda>(s, H'). s = blk \<and> models H' (C(blk \<mapsto> mset_set (set ks))) D)
      (continue (for_all ks (push_new_key md blk) H') (\<lambda>H. Returns (blk, H)))"
    by (rule ends_in_continue) simp
  with H'(1) show ?thesis by simp
qed

text \<open>The two sets of a process: all keys that are not zero, and the candidates once each.\<close>

lemma build_all:
  assumes "models H C D" and "blocks_ok [blk] C"
    and "process_ok hashed_page p" and "int (length (process_keys nonzero p)) \<le> INT_MAX"
  shows "ends_in {- 1} (\<lambda>(s, H'). s = blk \<and> models H' (C(blk \<mapsto> mset (process_keys nonzero p))) D)
    (set_from_proc md blk p H)"
  unfolding set_from_proc_keys [OF assms(3)] by (rule build [OF assms(1,2,4)])

lemma build_candidates:
  assumes "models H C D" and "blocks_ok [blk] C"
    and "process_ok counted_page p" and "int (length (process_keys candidate p)) \<le> INT_MAX"
  shows "ends_in {- 1} (\<lambda>(s, H'). s = blk \<and> models H' (C(blk \<mapsto> mset (process_keys candidate p))) D)
    (cand_set_from_proc md blk p H)"
  unfolding cand_set_from_proc_keys [OF assms(3)] by (rule build [OF assms(1,2,4)])

lemma build_distinct:
  assumes "models H C D" and "blocks_ok [blk] C"
    and "process_ok counted_page p" and "int (length (process_keys candidate p)) \<le> INT_MAX"
  shows "ends_in {- 1} (\<lambda>(s, H'). s = blk \<and>
      models H' (C(blk \<mapsto> mset_set (set (process_keys candidate p)))) D)
    (uniq_set_from_proc md blk p H)"
  unfolding uniq_set_from_proc_keys [OF assms(3)] by (rule build_uniq [OF assms(1,2,4)])

text \<open>Filling an array with the sets of all processes.\<close>

lemma fill:
  assumes build: "\<And>p s H C. p \<in> set procs \<Longrightarrow> models H C D \<Longrightarrow> blocks_ok [s] C \<Longrightarrow>
      ends_in {- 1} (\<lambda>(s', H'). s' = s \<and> models H' (C(s \<mapsto> content_of p)) D) (mk s p H)"
    and "models H C D" and "blocks_ok (map blk [0..<length procs]) C" and "length procs \<le> cap"
  shows "ends_in {- 1} (\<lambda>(arr, H'). arr = map blk [0..<length procs] \<and>
      models H' (with_sets C (map blk [0..<length procs]) (map content_of procs)) D)
    (fill_sets cap mk blk procs H)"
proof -
  let ?body = "\<lambda>(i, p) (arr, H). if i \<ge> cap then Undefined
    else continue (mk (blk i) p H) (\<lambda>(s, H). Returns (arr @ [s], H))"
  have "ends_in {- 1} (\<lambda>(arr', H'). arr' = arr @ map blk [k..<k + length ps] \<and>
      models H' (with_sets C (map blk [k..<k + length ps]) (map content_of ps)) D)
    (for_all (enumerate k ps) ?body (arr, H))"
    if "set ps \<subseteq> set procs" "models H C D" "blocks_ok (map blk [k..<k + length ps]) C"
      "k + length ps \<le> cap" for k ps arr H C
    using that
  proof (induction ps arbitrary: k arr H C)
    case (Cons p ps)
    let ?bs = "map blk [Suc k..<Suc k + length ps]"
    have upt: "[k..<k + length (p # ps)] = k # [Suc k..<Suc k + length ps]"
      by (subst upt_conv_Cons) simp_all
    have ok: "blocks_ok [blk k] C" "blk k \<notin> set ?bs" "blocks_ok ?bs (C(blk k \<mapsto> content_of p))"
      using Cons.prems(3) blocks_ok_Cons [of "blk k" ?bs C "content_of p"] unfolding upt by simp_all
    have "ends_in {- 1} (\<lambda>(arr', H'). arr' = arr @ [blk k] \<and> models H' (C(blk k \<mapsto> content_of p)) D)
        (?body (k, p) (arr, H))"
      using build [OF _ Cons.prems(2) ok(1), of p] Cons.prems(1,4)
      by (auto intro!: ends_in_continue_pair [where P = "\<lambda>s' H'. s' = blk k \<and> models H' (C(blk k \<mapsto> content_of p)) D"]
          simp del: fun_upd_apply)
    moreover have "ends_in {- 1} (\<lambda>(arr', H'). arr' = arr @ blk k # ?bs \<and>
        models H' (with_sets C (blk k # ?bs) (map content_of (p # ps))) D)
        (for_all (enumerate (Suc k) ps) ?body (arr @ [blk k], H'))"
      if "models H' (C(blk k \<mapsto> content_of p)) D" for H'
    proof -
      have w: "with_sets (C(blk k \<mapsto> content_of p)) ?bs (map content_of ps)
          = with_sets C (blk k # ?bs) (map content_of (p # ps))"
        using ok(2) by (simp add: with_sets_Cons del: upt_Suc fun_upd_apply)
      have "set ps \<subseteq> set procs" "Suc k + length ps \<le> cap" using Cons.prems(1,4) by simp_all
      from Cons.IH [OF this(1) that ok(3) this(2), where arr = "arr @ [blk k]"] show ?thesis
        unfolding w append_assoc append_Cons append_Nil .
    qed
    ultimately show ?case
      unfolding enumerate_simps for_all.simps upt list.map(2) [of blk] by (elim ends_in_continue) auto
  qed simp
  from this [of procs H C 0 "[]"] assms(2-4) show ?thesis by (simp add: fill_sets_def)
qed

text \<open>The same for the regions of a process, looked up by their index.\<close>

lemma fill_regions:
  assumes build: "\<And>mr s H C. mr \<in> set ms \<Longrightarrow> models H C D \<Longrightarrow> blocks_ok [s] C \<Longrightarrow>
      ends_in {- 1} (\<lambda>(s', H'). s' = s \<and> models H' (C(s \<mapsto> content_of mr)) D) (mk s mr H)"
    and "models H C D" and "pr_maps p = Some ms" and "blocks_ok (map blk [0..<length ms]) C"
  shows "ends_in {- 1} (\<lambda>(arr, H'). arr = map blk [0..<length ms] \<and>
      models H' (with_sets C (map blk [0..<length ms]) (map content_of ms)) D)
    (fill_sets (length ms) (\<lambda>s i H. continue (proc_get_mr p i) (\<lambda>mr. mk s mr H)) blk (upto_int (int (length ms))) H)"
proof -
  let ?idx = "upto_int (int (length ms))"
  have len: "length ?idx = length ms" by (simp add: upto_int_def)
  have "ends_in {- 1} (\<lambda>(arr, H'). arr = map blk [0..<length ?idx] \<and>
      models H' (with_sets C (map blk [0..<length ?idx]) (map (\<lambda>i. content_of (ms ! nat i)) ?idx)) D)
    (fill_sets (length ms) (\<lambda>s i H. continue (proc_get_mr p i) (\<lambda>mr. mk s mr H)) blk ?idx H)"
  proof (rule fill [OF _ assms(2)])
    fix i s H C assume i: "i \<in> set ?idx" and m: "models H C D" and b: "blocks_ok [s] C"
    then have "ms ! nat i \<in> set ms" "proc_get_mr p i = Returns (ms ! nat i)"
      using assms(3) by (auto simp: upto_int_def proc_get_mr_def)
    then show "ends_in {- 1} (\<lambda>(s', H'). s' = s \<and> models H' (C(s \<mapsto> content_of (ms ! nat i))) D)
        (continue (proc_get_mr p i) (\<lambda>mr. mk s mr H))"
      using build [OF _ m b] by simp
  qed (simp_all add: len assms(4))
  moreover have "map (\<lambda>i. content_of (ms ! nat i)) ?idx = map content_of ms"
    by (intro nth_equalityI) (auto simp: upto_int_def)
  ultimately show ?thesis by (simp add: len)
qed

text \<open>Freeing them again.\<close>

lemma free_all:
  assumes "models H C' D" and "set arr \<subseteq> dom C'" and "distinct arr"
  shows "\<exists>H'. free_sets arr H = Returns H' \<and> models H' (C' |` (- set arr)) D"
  using assms
proof (induction arr arbitrary: H C')
  case Nil
  then show ?case by (simp add: free_sets_def)
next
  case (Cons s arr)
  obtain M where "C' s = Some M" using Cons.prems(2) by auto
  then obtain H' where H': "set_free s H = Some H'" "models H' (C'(s := None)) D"
    using simi.remove [OF Cons.prems(1)] by blast
  have eq: "(C'(s := None)) |` (- set arr) = C' |` (- set (s # arr))"
    by (auto simp: restrict_map_def fun_eq_iff)
  have "set arr \<subseteq> dom (C'(s := None))" "distinct arr" using Cons.prems(2,3) by auto
  with Cons.IH [OF H'(2)] H'(1) show ?case
    by (simp only: eq free_sets_def for_all.simps defined.simps continue.simps)
qed

end

lemma with_sets_restrict:
  assumes "length bs = length Ms" and "blocks_ok bs C"
  shows "with_sets C bs Ms |` (- set bs) = C"
proof
  fix x
  show "(with_sets C bs Ms |` (- set bs)) x = C x"
    using assms with_sets_other [OF assms(1), of x C]
    by (cases "x \<in> set bs") (auto simp: blocks_ok_def restrict_map_def domIff disjoint_iff)
qed

text \<open>Two arrays of sets, one made after the other.\<close>

lemma two_arrays:
  assumes "blocks_ok (bs1 @ bs2) C" and "length bs1 = length Ms1" and "length bs2 = length Ms2"
  defines "C1 \<equiv> with_sets C bs1 Ms1"
  defines "C2 \<equiv> with_sets C1 bs2 Ms2"
  shows "blocks_ok bs1 C" "blocks_ok bs2 C1" "dom C2 = dom C \<union> set bs1 \<union> set bs2"
    "i < length bs1 \<Longrightarrow> C2 (bs1 ! i) = Some (Ms1 ! i)" "j < length bs2 \<Longrightarrow> C2 (bs2 ! j) = Some (Ms2 ! j)"
    "C2 |` (- set bs1) |` (- set bs2) = C"
proof -
  have dom1: "dom C1 = dom C \<union> set bs1" and dom2: "dom C2 = dom C \<union> set bs1 \<union> set bs2"
    using assms(2,3) by (auto simp: C1_def C2_def with_sets_def dom_map_of_zip)
  show "dom C2 = dom C \<union> set bs1 \<union> set bs2" by (rule dom2)
  show ok1: "blocks_ok bs1 C" and ok2: "blocks_ok bs2 C1"
    using assms(1) unfolding blocks_ok_def dom1 by auto
  have dist: "distinct bs1" "distinct bs2" "set bs1 \<inter> set bs2 = {}"
    using assms(1) by (auto simp: blocks_ok_def)
  show "C2 (bs2 ! j) = Some (Ms2 ! j)" if "j < length bs2"
    using with_sets_nth [OF assms(3) dist(2) that] by (simp add: C2_def)
  show "C2 (bs1 ! i) = Some (Ms1 ! i)" if "i < length bs1"
  proof -
    have "bs1 ! i \<notin> set bs2" using dist(3) nth_mem [OF that] by blast
    then show ?thesis
      using with_sets_nth [OF assms(2) dist(1) that] with_sets_other [OF assms(3)]
      by (simp add: C1_def C2_def)
  qed
  have "C2 |` (- set bs1) |` (- set bs2) = C2 |` (- set bs2) |` (- set bs1)" by (simp add: Int_commute)
  also have "\<dots> = C"
    using with_sets_restrict [OF assms(3) ok2] with_sets_restrict [OF assms(2) ok1]
    by (simp add: C1_def C2_def)
  finally show "C2 |` (- set bs1) |` (- set bs2) = C" .
qed

section \<open>Loops over processes\<close>

lemma ends_in_enumerate:
  assumes "I [] s"
    and "\<And>as p bs s. ps = as @ p # bs \<Longrightarrow> I as s \<Longrightarrow> ends_in E (I (as @ [p])) (body (length as, p) s)"
  shows "ends_in E (I ps) (for_all (enumerate 0 ps) body s)"
proof -
  have "ends_in E (\<lambda>s. I (map snd (enumerate 0 ps)) s) (for_all (enumerate 0 ps) body s)"
  proof (rule ends_in_for_all)
    fix as b bs s assume split: "enumerate 0 ps = as @ b # bs" and I: "I (map snd as) s"
    have "ps = map snd as @ snd b # map snd bs"
      using arg_cong [OF split, of "map snd"] by simp
    moreover have "length as < length ps" using arg_cong [OF split, of length] by simp
    moreover have "b = enumerate 0 ps ! length as" by (simp only: split nth_append_length)
    ultimately have "fst b = length as" "ps = map snd as @ snd b # map snd bs"
      by (simp_all add: nth_enumerate_eq)
    then show "ends_in E (\<lambda>s. I (map snd (as @ [b])) s) (body b s)"
      using assms(2) [of "map snd as" "snd b" "map snd bs" s] I by (cases b) simp
  qed (simp add: assms(1))
  then show ?thesis by simp
qed

text \<open>A loop that appends a line per process to a text and keeps the heap's sets.\<close>

lemma print_loop:
  assumes "models H C D"
    and "\<And>i p H out. i < length procs \<Longrightarrow> p = procs ! i \<Longrightarrow> models H C D \<Longrightarrow>
      ends_in E (\<lambda>(H', out'). models H' C D \<and> out' = out @ line i p) (body (i, p) (H, out))"
  shows "ends_in E (\<lambda>(H', out'). models H' C D \<and>
      out' = out @ concat (map (\<lambda>i. line i (procs ! i)) [0..<length procs]))
    (for_all (enumerate 0 procs) body (H, out))"
proof -
  let ?I = "\<lambda>as (H', out'). models H' C D \<and>
    out' = out @ concat (map (\<lambda>i. line i (procs ! i)) [0..<length as])"
  have "ends_in E (?I procs) (for_all (enumerate 0 procs) body (H, out))"
  proof (rule ends_in_enumerate [where I = ?I])
    fix as p bs s assume split: "procs = as @ p # bs" and I: "?I as s"
    then have "ends_in E (\<lambda>(H', out'). models H' C D \<and> out' = snd s @ line (length as) p)
        (body (length as, p) (fst s, snd s))"
      by (intro assms(2)) (auto simp: nth_append)
    then show "ends_in E (?I (as @ [p])) (body (length as, p) s)"
      using I split by (auto elim!: ends_in_mono simp: nth_append)
  qed (simp add: assms(1))
  then show ?thesis .
qed

section \<open>Duplicates within a process\<close>

lemma candidates_fewer: "length (process_keys candidate p) \<le> length (process_keys nonzero p)"
proof -
  have "length (filter candidate pgs) \<le> length (filter nonzero pgs)" for pgs
    by (induction pgs) (auto simp: candidate_def)
  then have "length (region_keys candidate mr) \<le> length (region_keys nonzero mr)" for mr
    by (simp add: region_keys_def)
  then show ?thesis
    by (simp add: process_keys_def length_concat sum_list_mono)
qed

text \<open>The pages of a process that are not zero, less the different hashes among its candidates.\<close>

definition intra_dup :: "'f process \<Rightarrow> int" where
  "intra_dup p = int (length (process_keys nonzero p)) - int (card (set (process_keys candidate p)))"

lemma intra_dup_range:
  "int (length (process_keys nonzero p)) \<le> INT_MAX \<Longrightarrow> 0 \<le> intra_dup p \<and> intra_dup p \<le> INT_MAX"
  using candidates_fewer [of p] card_length [of "process_keys candidate p"] by (simp add: intra_dup_def)

definition process_fits :: "'f process \<Rightarrow> bool" where
  "process_fits p \<longleftrightarrow> process_ok counted_page p \<and> int (length (process_keys nonzero p)) \<le> INT_MAX"

lemma process_fitsD:
  assumes "process_fits p"
  shows "process_ok counted_page p" "process_ok hashed_page p"
    "int (length (process_keys nonzero p)) \<le> INT_MAX" "int (length (process_keys candidate p)) \<le> INT_MAX"
  using assms process_ok_hashed candidates_fewer [of p] by (auto simp: process_fits_def)

context data_malloc
begin

text \<open>Both sets of one process.\<close>

lemma build_both:
  assumes "models H C D" and "blocks_ok [a, b] C" and "process_fits p"
    and "\<And>H'. models H' (C(a \<mapsto> mset (process_keys nonzero p),
        b \<mapsto> mset_set (set (process_keys candidate p)))) D \<Longrightarrow> ends_in {- 1} Q (rest a b H')"
  shows "ends_in {- 1} Q (continue (set_from_proc md a p H) (\<lambda>(s, H).
    continue (uniq_set_from_proc md b p H) (\<lambda>(u, H). rest s u H)))"
proof (rule ends_in_continue_pair)
  show "ends_in {- 1} (\<lambda>(s, H'). s = a \<and> models H' (C(a \<mapsto> mset (process_keys nonzero p))) D)
      (set_from_proc md a p H)"
    using assms(2) by (intro build_all assms process_fitsD) (simp add: blocks_ok_def)
next
  fix s H' assume s: "s = a \<and> models H' (C(a \<mapsto> mset (process_keys nonzero p))) D"
  have "blocks_ok [b] (C(a \<mapsto> mset (process_keys nonzero p)))"
    using assms(2) by (auto simp: blocks_ok_def)
  from build_distinct [OF conjunct2 [OF s] this process_fitsD(1) [OF assms(3)] process_fitsD(4) [OF assms(3)]]
  show "ends_in {- 1} Q (continue (uniq_set_from_proc md b p H') (\<lambda>(u, H). rest s u H))"
    using s assms(4) by (auto intro: ends_in_continue_pair)
qed

text \<open>The difference of the sizes of two sets, which are then freed.\<close>

lemma count_two:
  assumes "models H (C(a \<mapsto> M, b \<mapsto> U)) D" and "blocks_ok [a, b] C"
    and "0 \<le> int (size M) - int (size U)" and "int (size M) \<le> INT_MAX"
  shows "\<exists>H'. models H' C D \<and>
    continue (defined (set_size a H)) (\<lambda>n. continue (defined (set_size b H)) (\<lambda>m.
      continue (defined (int_add n (- m))) (\<lambda>diff. continue (defined (set_free a H)) (\<lambda>H.
      continue (defined (set_free b H)) (\<lambda>H. rest diff H))))) = rest (int (size M) - int (size U)) H'"
proof -
  have neq: "a \<noteq> b" "C a = None" "C b = None" using assms(2) by (auto simp: blocks_ok_def)
  have "set_size a H = Some (int (size M))" "set_size b H = Some (int (size U))"
    using simi.card_of [OF assms(1), of a] simi.card_of [OF assms(1), of b] neq by simp_all
  moreover have "int_add (int (size M)) (- int (size U)) = Some (int (size M) - int (size U))"
    using assms(3,4) by (simp add: INT_MIN_def)
  moreover obtain H1 where H1: "set_free a H = Some H1" "models H1 (C(b \<mapsto> U)) D"
    using simi.remove [OF assms(1), of a M] neq by (auto simp: fun_upd_twist fun_upd_idem)
  moreover obtain H2 where "set_free b H1 = Some H2" "models H2 C D"
    using simi.remove [OF H1(2), of b U] neq by (auto simp: fun_upd_idem)
  ultimately show ?thesis by (intro exI [of _ H2]) simp
qed

lemma intra:
  assumes "models H C D" and "\<forall>i < length procs. blocks_ok [fst (blk i), snd (blk i)] C"
    and "\<forall>p \<in> set procs. process_fits p"
  shows "ends_in {- 1} (\<lambda>(H', out). models H' C D \<and> out = (''intra proc dup'' @ [newline]) @
      concat (map (\<lambda>i. fmt_d (intra_dup (procs ! i)) @ [newline]) [0..<length procs]))
    (print_intra_simi md blk procs H)"
  unfolding print_intra_simi_def
proof (rule print_loop [OF assms(1)], unfold prod.case, rule build_both)
  fix i p H out
  assume i: "i < length procs" "p = procs ! i" and m: "models H C D"
  show "models H C D" by fact
  show ok: "blocks_ok [fst (blk i), snd (blk i)] C" using assms(2) i by simp
  show fits: "process_fits p" using assms(3) i by simp
  fix H' assume m': "models H' (C(fst (blk i) \<mapsto> mset (process_keys nonzero p),
      snd (blk i) \<mapsto> mset_set (set (process_keys candidate p)))) D"
  from count_two [OF m' ok, of "\<lambda>diff H. Returns (H, out @ fmt_d diff @ [newline])"]
  show "ends_in {- 1} (\<lambda>(H', out'). models H' C D \<and> out' = out @ fmt_d (intra_dup p) @ [newline])
      (continue (defined (set_size (fst (blk i)) H')) (\<lambda>n. continue (defined (set_size (snd (blk i)) H')) (\<lambda>m.
        continue (defined (int_add n (- m))) (\<lambda>diff. continue (defined (set_free (fst (blk i)) H')) (\<lambda>H.
        continue (defined (set_free (snd (blk i)) H)) (\<lambda>H. Returns (H, out @ fmt_d diff @ [newline])))))))"
    using intra_dup_range [OF process_fitsD(3) [OF fits]] process_fitsD(3) [OF fits] by (auto simp: intra_dup_def)
qed

end

section \<open>Duplicates between processes\<close>

text \<open>A key occurs in one of the sets \<open>Ss\<close> other than the \<open>i\<close>-th.\<close>

definition elsewhere :: "u32 set list \<Rightarrow> nat \<Rightarrow> u32 \<Rightarrow> bool" where
  "elsewhere Ss i k \<longleftrightarrow> (\<exists>j < length Ss. j \<noteq> i \<and> k \<in> Ss ! j)"

lemma found_loop_eq:
  assumes "models H C D" and "is_datum H d k"
    and "\<And>j. j < length arr \<Longrightarrow> \<exists>M. C (arr ! j) = Some M \<and> set_mset M = Ss ! j"
    and "set js \<subseteq> {..<length arr}"
  shows "found_loop arr (map int js) d (int i) H
    = Some (if \<exists>j \<in> set js. j \<noteq> i \<and> k \<in> Ss ! j then 1 else 0)"
  using assms(4)
proof (induction js)
  case (Cons j js)
  then have j: "j < length arr" by simp
  obtain M where M: "C (arr ! j) = Some M" "set_mset M = Ss ! j" using assms(3) [OF j] by blast
  have "set_in (arr ! j) d H = Some (k \<in> Ss ! j)"
    using models_member [OF assms(1) M(1) assms(2)] M(2) by simp
  then show ?case using Cons j by auto
qed simp

text \<open>The array \<open>arr\<close> holds one set per element of \<open>Ss\<close>, whatever their multiplicities.\<close>

definition sets_at :: "(ptr \<rightharpoonup> u32 multiset) \<Rightarrow> ptr list \<Rightarrow> u32 set list \<Rightarrow> bool" where
  "sets_at C arr Ss \<longleftrightarrow> length Ss = length arr \<and>
     (\<forall>j < length arr. \<exists>M. C (arr ! j) = Some M \<and> set_mset M = Ss ! j)"

lemma found_eq:
  assumes "models H C D" and "is_datum H d k" and "sets_at C arr Ss"
  shows "found_in_other_sets arr (int (length arr)) d (int i) H
    = Some (if elsewhere Ss i k then 1 else 0)"
  using found_loop_eq [OF assms(1,2), of arr Ss "[0..<length arr]" i] assms(3)
  by (auto simp: found_in_other_sets_def upto_int_def sets_at_def elsewhere_def lessThan_atLeast0)

text \<open>How many of the keys are found elsewhere.\<close>

definition found_number :: "u32 set list \<Rightarrow> nat \<Rightarrow> u32 list \<Rightarrow> int" where
  "found_number Ss i ks = int (length (filter (elsewhere Ss i) ks))"

lemma sets_at_with_sets:
  assumes "length bs = length Ms" and "distinct bs"
  shows "sets_at (with_sets C bs Ms) bs (map set_mset Ms)"
  using assms by (auto simp: sets_at_def with_sets_nth)

context data_malloc
begin

lemma count_key:
  assumes "models H C D" and "sets_at C arr Ss" and "0 \<le> dup" and "dup < INT_MAX"
  shows "ends_in {- 1} (\<lambda>(H', dup'). models H' C D \<and> dup' = dup + (if elsewhere Ss i k then 1 else 0))
    (count_key md arr (int (length arr)) (int i) k (H, dup))"
  unfolding count_key_def prod.case
proof (rule ends_in_continue_pair [OF simi.new [OF assms(1)]])
  fix d H' assume d: "d \<notin> dom D \<and> models H' C (D(d \<mapsto> k))"
  then have m: "models H' C (D(d \<mapsto> k))" ..
  have "D(d \<mapsto> k, d := None) = D" using d by (auto simp: fun_upd_idem domIff)
  then obtain H2 where "data_free d H' = Some H2" "models H2 C D"
    using simi.release [OF m, of d k] by auto
  moreover have "found_in_other_sets arr (int (length arr)) d (int i) H'
      = Some (if elsewhere Ss i k then 1 else 0)"
    using found_eq [OF m simi.loose [OF m] assms(2), of d k] by simp
  ultimately show "ends_in {- 1} (\<lambda>(H', dup'). models H' C D \<and> dup' = dup + (if elsewhere Ss i k then 1 else 0))
      (continue (defined (found_in_other_sets arr (int (length arr)) d (int i) H')) (\<lambda>found.
        continue (defined (int_add dup found)) (\<lambda>dup. continue (defined (data_free d H')) (\<lambda>H. Returns (H, dup)))))"
    using assms(3,4) by (simp add: INT_MIN_def)
qed

lemma count_keys:
  assumes "models H C D" and "sets_at C arr Ss" and "int (length ks) \<le> INT_MAX"
  shows "ends_in {- 1} (\<lambda>(H', dup). models H' C D \<and> dup = found_number Ss i ks)
    (for_all ks (count_key md arr (int (length arr)) (int i)) (H, 0))"
proof -
  let ?I = "\<lambda>as (H', dup). models H' C D \<and> dup = found_number Ss i as"
  have "ends_in {- 1} (?I ks) (for_all ks (count_key md arr (int (length arr)) (int i)) (H, 0))"
  proof (rule ends_in_for_all [where I = ?I])
    fix as k bs s assume split: "ks = as @ k # bs" and I: "?I as s"
    obtain H' where s: "s = (H', found_number Ss i as)" and m: "models H' C D" using I by (cases s) simp
    have "found_number Ss i as \<le> int (length as)" by (simp add: found_number_def)
    then have "found_number Ss i as < INT_MAX" using split assms(3) by simp
    moreover have "0 \<le> found_number Ss i as" by (simp add: found_number_def)
    ultimately show "ends_in {- 1} (?I (as @ [k])) (count_key md arr (int (length arr)) (int i) k s)"
      using count_key [OF m assms(2), of "found_number Ss i as" i k] s
      by (auto elim!: ends_in_mono simp: found_number_def)
  qed (simp add: found_number_def assms(1))
  then show ?thesis .
qed

end

text \<open>
  What \<open>print_inter_simi\<close> counts for a process: its candidates, with multiplicity, whose key is
  the hash of some page of another process.
\<close>

definition nonzero_sets :: "'f process list \<Rightarrow> u32 set list" where
  "nonzero_sets procs = map (\<lambda>p. set (process_keys nonzero p)) procs"

definition inter_dup :: "'f process list \<Rightarrow> nat \<Rightarrow> int" where
  "inter_dup procs i = found_number (nonzero_sets procs) i (process_keys candidate (procs ! i))"

context data_malloc
begin

lemma inter_process:
  assumes "models H C D" and "sets_at C arr (nonzero_sets procs)"
    and "process_fits p" and "i < length procs" and "p = procs ! i"
  shows "ends_in {- 1} (\<lambda>(H', dup). models H' C D \<and> dup = inter_dup procs i)
    (inter_process md arr (int (length arr)) (int i) p H)"
proof -
  have "inter_process md arr (int (length arr)) (int i) p H
      = for_all (process_keys candidate p) (count_key md arr (int (length arr)) (int i)) (H, 0)"
    unfolding inter_process_def
    by (rule for_regions_select [OF process_fitsD(1) [OF assms(3)]])
      (auto simp: skipped_eq count_page_def hashed_page_reads counted_page_hashed)
  then show ?thesis
    using count_keys [OF assms(1,2) process_fitsD(4) [OF assms(3)], of i] assms(5)
    by (simp add: inter_dup_def)
qed

lemma inter:
  assumes "models H C D" and "blocks_ok (map blk [0..<length procs]) C" and "length procs \<le> MAX_PID"
    and "\<forall>p \<in> set procs. process_fits p"
  shows "ends_in {- 1} (\<lambda>(H', out). models H' C D \<and> out = (''inter proc dup'' @ [newline]) @
      concat (map (\<lambda>i. fmt_d (inter_dup procs i) @ '' '' @ [newline]) [0..<length procs]))
    (print_inter_simi md blk procs H)"
  unfolding print_inter_simi_def
proof (rule ends_in_continue_pair [OF fill [OF _ assms(1-3), where content_of = "\<lambda>p. mset (process_keys nonzero p)"]])
  show "ends_in {- 1} (\<lambda>(s', H'). s' = s \<and> models H' (C(s \<mapsto> mset (process_keys nonzero p))) D)
      (set_from_proc md s p H)"
    if "p \<in> set procs" "models H C D" "blocks_ok [s] C" for p s H C
    using build_all [OF that(2,3)] process_fitsD(2,3) assms(4) that(1) by blast
next
  let ?bs = "map blk [0..<length procs]"
  let ?C = "with_sets C ?bs (map (\<lambda>p. mset (process_keys nonzero p)) procs)"
  let ?lines = "(''inter proc dup'' @ [newline]) @
    concat (map (\<lambda>i. fmt_d (inter_dup procs i) @ '' '' @ [newline]) [0..<length procs])"
  have dist: "distinct ?bs" and sub: "set ?bs \<subseteq> dom ?C"
    using assms(2) by (auto simp: blocks_ok_def with_sets_def dom_map_of_zip)
  have C: "?C |` (- set ?bs) = C" using assms(2) by (intro with_sets_restrict) simp_all
  have sa: "sets_at ?C ?bs (nonzero_sets procs)"
    using sets_at_with_sets [OF _ dist, of "map (\<lambda>p. mset (process_keys nonzero p)) procs" C]
    by (simp add: nonzero_sets_def comp_def)
  fix arr H' assume "arr = ?bs \<and> models H' ?C D"
  then have arr: "arr = ?bs" and m: "models H' ?C D" by simp_all
  let ?body = "\<lambda>(i, p) (H, out). continue (inter_process md arr (int (length procs)) (int i) p H)
    (\<lambda>(H, dup). Returns (H, out @ fmt_d dup @ '' '' @ [newline]))"
  have "ends_in {- 1} (\<lambda>(H2, out). models H2 ?C D \<and> out = ?lines)
    (for_all (enumerate 0 procs) ?body (H', ''inter proc dup'' @ [newline]))"
  proof (rule print_loop [OF m], unfold prod.case)
    fix i p H out assume i: "i < length procs" "p = procs ! i" and m: "models H ?C D"
    then have "process_fits p" using assms(4) by simp
    from inter_process [OF m sa this i]
    show "ends_in {- 1} (\<lambda>(H', out'). models H' ?C D \<and> out' = out @ fmt_d (inter_dup procs i) @ '' '' @ [newline])
        (continue (inter_process md arr (int (length procs)) (int i) p H)
          (\<lambda>(H, dup). Returns (H, out @ fmt_d dup @ '' '' @ [newline])))"
      unfolding arr by (auto intro: ends_in_continue_pair)
  qed
  moreover have "ends_in {- 1} (\<lambda>(H3, out). models H3 C D \<and> out = ?lines)
      (continue (free_sets arr H2) (\<lambda>H. Returns (H, out)))" if "models H2 ?C D \<and> out = ?lines" for H2 out
    using free_all [of H2 ?C D arr] that sub dist C unfolding arr by auto
  ultimately show "ends_in {- 1} (\<lambda>(H3, out). models H3 C D \<and> out = ?lines)
      (continue (for_all (enumerate 0 procs) ?body (H', ''inter proc dup'' @ [newline])) (\<lambda>(H, out).
        continue (free_sets arr H) (\<lambda>H. Returns (H, out))))"
    by (rule ends_in_continue_pair)
qed

end

end
