(* ===== verification/Setcmp_Total.thy ===== *)
theory Setcmp_Total
  imports Setcmp_Loops
begin

text \<open>
  \<open>print_total_dup\<close>: both sets of every process, then a walk over the distinct candidates of each
  that asks all the others.
\<close>

section \<open>The walk\<close>

lemma found_number_simps [simp]:
  "found_number Ss i [] = 0"
  "found_number Ss i (k # ks) = (if elsewhere Ss i k then 1 else 0) + found_number Ss i ks"
  by (simp_all add: found_number_def)

lemma found_number_bounds: "0 \<le> found_number Ss i ks" "found_number Ss i ks \<le> int (length ks)"
  by (simp_all add: found_number_def)

lemma total_loop_walk:
  assumes "models H C D" and "sets_at C arr Ss" and "NULL \<notin> set ds"
    and next_of: "\<And>as d bs. ds = as @ d # bs \<Longrightarrow> set_next d H = Some (first_or_null bs)"
    and "ds = as @ d # bs" and "is_datum H d k" and "list_all2 (is_datum H) bs ks"
    and "0 \<le> dup" and "dup + int (length (k # ks)) \<le> INT_MAX"
  shows "total_loop arr (int (length arr)) (int i) H d dup = Some (dup + found_number Ss i (k # ks))"
  using assms(5-9)
proof (induction bs arbitrary: as d k ks dup)
  case Nil
  then show ?case
    using found_eq [OF assms(1) Nil.prems(2) assms(2), of i] next_of [OF Nil.prems(1)]
    by (subst total_loop.simps) (simp add: INT_MIN_def)
next
  case (Cons e bs)
  obtain k' ks' where ks: "ks = k' # ks'" "is_datum H e k'" "list_all2 (is_datum H) bs ks'"
    using Cons.prems(3) by (cases ks) auto
  let ?f = "if elsewhere Ss i k then 1 else 0 :: int"
  have "e \<noteq> NULL" using assms(3) Cons.prems(1) by auto
  then have "total_loop arr (int (length arr)) (int i) H d dup
      = total_loop arr (int (length arr)) (int i) H e (dup + ?f)"
    using found_eq [OF assms(1) Cons.prems(2) assms(2), of i] next_of [OF Cons.prems(1)] Cons.prems(4,5) ks(1)
    by (subst total_loop.simps) (simp add: INT_MIN_def)
  also have "\<dots> = Some (dup + ?f + found_number Ss i (k' # ks'))"
    using Cons.IH [of "as @ [d]" e k' ks' "dup + ?f"] Cons.prems ks by simp
  finally show ?case using ks(1) by simp
qed

lemma found_number_card:
  assumes "mset ks = mset_set A"
  shows "found_number Ss i ks = int (card {k \<in> A. elsewhere Ss i k})"
proof -
  have "length (filter (elsewhere Ss i) ks) = size (filter_mset (elsewhere Ss i) (mset ks))"
    by (metis mset_filter size_mset)
  then show ?thesis by (simp add: found_number_def assms)
qed

lemma total_loop_set:
  assumes "models H C D" and "sets_at C arr Ss" and "C s = Some (mset_set A)" and "A \<noteq> {}" "finite A"
    and "int (card A) \<le> INT_MAX"
  shows "do { d \<leftarrow> set_first s H; total_loop arr (int (length arr)) (int i) H d 0 }
    = Some (int (card {k \<in> A. elsewhere Ss i k}))"
proof -
  have "mset_set A \<noteq> {#}" using assms(4,5) by (simp add: mset_set_empty_iff)
  then obtain ds ks where ds: "list_all2 (is_datum H) ds ks" "mset ks = mset_set A" "NULL \<notin> set ds"
    "set_first s H = Some (first_or_null ds)"
    "\<And>as d bs. ds = as @ d # bs \<Longrightarrow> set_next d H = Some (first_or_null bs)"
    using models_elements [OF assms(1,3)] by blast
  have "ks \<noteq> []" using ds(2) \<open>mset_set A \<noteq> {#}\<close> by auto
  then obtain d ds' k ks' where split: "ds = d # ds'" "ks = k # ks'"
    using ds(1) by (cases ds; cases ks) auto
  have "length ks = card A" using arg_cong [OF ds(2), of size] by simp
  then show ?thesis
    using total_loop_walk [OF assms(1,2) ds(3,5), where as = "[]" and d = d and bs = ds' and k = k and ks = ks'
        and dup = 0 and i = i] ds(1,4) split
      found_number_card [OF ds(2), of Ss i] assms(6) by simp
qed

text \<open>On an empty set the first query is already undefined.\<close>

lemma found_loop_None:
  assumes "j \<in> set js" "j \<noteq> i" and "\<And>s. set_in s d H = None"
  shows "found_loop arr (map int js) d (int i) H = None"
  using assms by (induction js) auto

lemma total_loop_empty:
  assumes "models H C D" and "C s = Some {#}" and "i < n" "2 \<le> n"
  shows "do { d \<leftarrow> set_first s H; total_loop arr (int n) (int i) H d 0 } = None"
proof -
  have "\<exists>j \<in> set [0..<n]. j \<noteq> i"
    using assms(3,4) by (cases "i = 0") (auto intro: bexI [of _ "1"])
  then have "found_in_other_sets arr (int n) (rb_entry NULL) (int i) H = None"
    using found_loop_None models_first_empty(2) [OF assms(1,2)]
    by (auto simp: found_in_other_sets_def upto_int_def simp del: upt_Suc)
  then show ?thesis
    by (subst total_loop.simps) (simp add: models_first_empty(1) [OF assms(1,2)])
qed

text \<open>A loop with a round that never returns does not return.\<close>

lemma for_all_Undefined:
  assumes "\<And>s. body b s = Undefined" and "b \<in> set bs"
  shows "for_all bs body s \<noteq> Returns r"
  using assms(2) by (induction bs arbitrary: s) (auto simp: assms(1) continue_eq_Returns)

section \<open>All sets\<close>

definition pair_blocks :: "(nat \<Rightarrow> ptr \<times> ptr) \<Rightarrow> nat \<Rightarrow> ptr list" where
  "pair_blocks blk n = map (\<lambda>i. fst (blk i)) [0..<n] @ map (\<lambda>i. snd (blk i)) [0..<n]"

text \<open>The set of all keys and the set of the distinct candidates of every process.\<close>

definition both_at :: "(ptr \<rightharpoonup> u32 multiset) \<Rightarrow> (nat \<Rightarrow> ptr \<times> ptr) \<Rightarrow> 'f process list \<Rightarrow> bool" where
  "both_at C blk procs \<longleftrightarrow> (\<forall>j < length procs.
     C (fst (blk j)) = Some (mset (process_keys nonzero (procs ! j))) \<and>
     C (snd (blk j)) = Some (mset_set (set (process_keys candidate (procs ! j)))))"

definition candidate_sets :: "'f process list \<Rightarrow> u32 set list" where
  "candidate_sets procs = map (\<lambda>p. set (process_keys candidate p)) procs"

text \<open>The number of distinct candidates of a process that are also candidates of another.\<close>

definition total_dup :: "'f process list \<Rightarrow> nat \<Rightarrow> int" where
  "total_dup procs i = int (card {k \<in> set (process_keys candidate (procs ! i)).
     elsewhere (candidate_sets procs) i k})"

lemma both_at_sets:
  "both_at C blk procs \<Longrightarrow> sets_at C (map (\<lambda>i. snd (blk i)) [0..<length procs]) (candidate_sets procs)"
  by (auto simp: both_at_def sets_at_def candidate_sets_def)

lemma both_at_snoc:
  assumes "both_at C blk as" and "blocks_ok [fst (blk (length as)), snd (blk (length as))] C"
  shows "both_at (C(fst (blk (length as)) \<mapsto> mset (process_keys nonzero p),
    snd (blk (length as)) \<mapsto> mset_set (set (process_keys candidate p)))) blk (as @ [p])"
proof -
  have "fst (blk j) \<in> dom C \<and> snd (blk j) \<in> dom C" if "j < length as" for j
    using assms(1) that by (simp add: both_at_def domI)
  then have "b \<notin> {fst (blk (length as)), snd (blk (length as))}"
    if "j < length as" "b = fst (blk j) \<or> b = snd (blk j)" for j b
    using assms(2) that by (fastforce simp: blocks_ok_def)
  with assms show ?thesis
    by (simp add: both_at_def blocks_ok_def nth_append less_Suc_eq)
qed

lemma pair_blocksD:
  assumes "blocks_ok (pair_blocks blk n) C" and "i < n"
  shows "fst (blk i) \<noteq> NULL" "snd (blk i) \<noteq> NULL" "fst (blk i) \<notin> dom C" "snd (blk i) \<notin> dom C"
proof -
  have "fst (blk i) \<in> set (pair_blocks blk n)" "snd (blk i) \<in> set (pair_blocks blk n)"
    using assms(2) by (auto simp: pair_blocks_def)
  then show "fst (blk i) \<noteq> NULL" "snd (blk i) \<noteq> NULL" "fst (blk i) \<notin> dom C" "snd (blk i) \<notin> dom C"
    using assms(1) by (auto simp: blocks_ok_def simp del: not_None_eq)
qed

lemma pair_blocks_fresh:
  assumes "blocks_ok (pair_blocks blk n) C" and "k < n"
    and "dom C' = dom C \<union> (\<lambda>i. fst (blk i)) ` {..<k} \<union> (\<lambda>i. snd (blk i)) ` {..<k}"
  shows "blocks_ok [fst (blk k), snd (blk k)] C'"
proof -
  have inj: "inj_on (\<lambda>i. fst (blk i)) {0..<n}" "inj_on (\<lambda>i. snd (blk i)) {0..<n}"
    and disj: "(\<lambda>i. fst (blk i)) ` {0..<n} \<inter> (\<lambda>i. snd (blk i)) ` {0..<n} = {}"
    using assms(1) by (auto simp: blocks_ok_def pair_blocks_def distinct_map)
  have off: "fst (blk i) \<noteq> snd (blk j)" if "i < n" "j < n" for i j
    using disj imageI [of i "{0..<n}" "\<lambda>i. fst (blk i)"] imageI [of j "{0..<n}" "\<lambda>i. snd (blk i)"] that
    by (metis IntI atLeastLessThan_iff empty_iff zero_le)
  have "fst (blk i) \<noteq> fst (blk k)" "snd (blk i) \<noteq> snd (blk k)" "snd (blk i) \<noteq> fst (blk k)"
    "fst (blk i) \<noteq> snd (blk k)" if "i < k" for i
    using inj_onD [OF inj(1), of i k] inj_onD [OF inj(2), of i k] off [of k i] off [of i k] that assms(2) by auto
  then have "fst (blk k) \<notin> dom C'" "snd (blk k) \<notin> dom C'"
    unfolding assms(3) using pair_blocksD(3,4) [OF assms(1,2)] by (auto simp del: not_None_eq) metis+
  then show ?thesis
    using pair_blocksD(1,2) [OF assms(1,2)] off [OF assms(2,2)] by (simp add: blocks_ok_def)
qed

context data_malloc
begin

lemma fill_both:
  assumes "models H C D" and "blocks_ok (pair_blocks blk (length procs)) C" and "length procs \<le> MAX_PID"
    and "\<forall>p \<in> set procs. process_fits p"
  shows "ends_in {- 1} (\<lambda>(arr, uarr, H'). arr = map (\<lambda>i. fst (blk i)) [0..<length procs] \<and>
      uarr = map (\<lambda>i. snd (blk i)) [0..<length procs] \<and> (\<exists>C'. models H' C' D \<and> both_at C' blk procs))
    (for_all (enumerate 0 procs) (\<lambda>(i, p) (arr, uarr, H).
         if i \<ge> MAX_PID then Undefined
         else continue (set_from_proc md (fst (blk i)) p H) (\<lambda>(s, H).
           continue (uniq_set_from_proc md (snd (blk i)) p H) (\<lambda>(u, H).
           Returns (arr @ [s], uarr @ [u], H)))) ([], [], H))"
    (is "ends_in _ _ (for_all _ ?body _)")
proof -
  let ?I = "\<lambda>as (arr, uarr, H'). arr = map (\<lambda>i. fst (blk i)) [0..<length as] \<and>
    uarr = map (\<lambda>i. snd (blk i)) [0..<length as] \<and>
    (\<exists>C'. models H' C' D \<and> both_at C' blk as \<and>
      dom C' = dom C \<union> (\<lambda>i. fst (blk i)) ` {..<length as} \<union> (\<lambda>i. snd (blk i)) ` {..<length as})"
  have "ends_in {- 1} (?I procs) (for_all (enumerate 0 procs) ?body ([], [], H))"
  proof (rule ends_in_enumerate [where I = ?I])
    show "?I [] ([], [], H)" using assms(1) by (auto simp: both_at_def)
  next
    fix as p bs s assume split: "procs = as @ p # bs" and I: "?I as s"
    let ?k = "length as"
    obtain H' C' where s: "s = (map (\<lambda>i. fst (blk i)) [0..<?k], map (\<lambda>i. snd (blk i)) [0..<?k], H')"
      and C': "models H' C' D" "both_at C' blk as"
        "dom C' = dom C \<union> (\<lambda>i. fst (blk i)) ` {..<?k} \<union> (\<lambda>i. snd (blk i)) ` {..<?k}"
      using I by (cases s) auto
    have fresh: "blocks_ok [fst (blk ?k), snd (blk ?k)] C'"
      using pair_blocks_fresh [OF assms(2) _ C'(3)] split by simp
    let ?C = "C'(fst (blk ?k) \<mapsto> mset (process_keys nonzero p),
      snd (blk ?k) \<mapsto> mset_set (set (process_keys candidate p)))"
    have "both_at ?C blk (as @ [p])"
      by (rule both_at_snoc [OF C'(2) fresh])
    moreover have "dom ?C = dom C \<union> (\<lambda>i. fst (blk i)) ` {..<Suc ?k} \<union> (\<lambda>i. snd (blk i)) ` {..<Suc ?k}"
      using C'(3) by (auto simp: lessThan_Suc)
    ultimately have "?I (as @ [p]) (map (\<lambda>i. fst (blk i)) [0..<?k] @ [fst (blk ?k)],
        map (\<lambda>i. snd (blk i)) [0..<?k] @ [snd (blk ?k)], H2)" if "models H2 ?C D" for H2
      using that by (auto simp del: fun_upd_apply dom_fun_upd)
    then show "ends_in {- 1} (?I (as @ [p])) (?body (?k, p) s)"
      using build_both [OF C'(1) fresh, of p "?I (as @ [p])"
          "\<lambda>s u H. Returns (map (\<lambda>i. fst (blk i)) [0..<?k] @ [s], map (\<lambda>i. snd (blk i)) [0..<?k] @ [u], H)"]
        assms(3,4) split s by simp
  qed
  then show ?thesis by (auto elim!: ends_in_mono)
qed


lemma total:
  assumes "models H C D" and "blocks_ok (pair_blocks blk (length procs)) C" and "length procs \<le> MAX_PID"
    and "\<forall>p \<in> set procs. process_fits p \<and> process_keys candidate p \<noteq> []"
  shows "ends_in {- 1} (\<lambda>(H', out). (\<exists>C'. models H' C' D \<and> both_at C' blk procs) \<and>
      out = (''total dup'' @ [newline]) @ concat (map (\<lambda>i. fmt_d (total_dup procs i) @ '' '' @
        fmt_d (int (length (process_keys nonzero (procs ! i)))) @ '' '' @ [newline]) [0..<length procs]))
    (print_total_dup md blk procs H)"
  unfolding print_total_dup_def
proof (rule ends_in_continue [OF fill_both [OF assms(1-3)]])
  show "\<forall>p \<in> set procs. process_fits p" using assms(4) by blast
  let ?line = "\<lambda>i. fmt_d (total_dup procs i) @ '' '' @
    fmt_d (int (length (process_keys nonzero (procs ! i)))) @ '' '' @ [newline]"
  let ?uarr = "map (\<lambda>i. snd (blk i)) [0..<length procs]" and ?arr = "map (\<lambda>i. fst (blk i)) [0..<length procs]"
  fix x assume "case x of (arr, uarr, H') \<Rightarrow> arr = ?arr \<and> uarr = ?uarr \<and> (\<exists>C'. models H' C' D \<and> both_at C' blk procs)"
  then obtain H' C' where x: "x = (?arr, ?uarr, H')" and C': "models H' C' D" "both_at C' blk procs"
    by (cases x) auto
  let ?body = "\<lambda>i out. continue (defined (do { d \<leftarrow> set_first (?uarr ! i) H';
      total_loop ?uarr (int (length procs)) (int i) H' d 0 })) (\<lambda>dup.
    continue (defined (set_size (?arr ! i) H')) (\<lambda>n. Returns (out @ fmt_d dup @ '' '' @ fmt_d n @ '' '' @ [newline])))"
  have step: "?body i out = Returns (out @ ?line i)" if i: "i < length procs" for i out
  proof -
    let ?A = "set (process_keys candidate (procs ! i))"
    have p: "process_fits (procs ! i)" "process_keys candidate (procs ! i) \<noteq> []" using assms(4) i by simp_all
    then have "int (card ?A) \<le> INT_MAX"
      using process_fitsD(4) [OF p(1)] card_length [of "process_keys candidate (procs ! i)"] by linarith
    moreover have "C' (?uarr ! i) = Some (mset_set ?A)" using C'(2) i by (simp add: both_at_def)
    ultimately have "do { d \<leftarrow> set_first (?uarr ! i) H'; total_loop ?uarr (int (length procs)) (int i) H' d 0 }
        = Some (total_dup procs i)"
      using total_loop_set [OF C'(1) both_at_sets [OF C'(2)], of "?uarr ! i" ?A i] p(2)
      by (simp add: total_dup_def)
    moreover have "set_size (?arr ! i) H' = Some (int (length (process_keys nonzero (procs ! i))))"
      using models_size [OF C'(1), of "?arr ! i"] C'(2) i by (simp add: both_at_def)
    ultimately show ?thesis by simp
  qed
  have "for_all [0..<length procs] ?body (''total dup'' @ [newline])
      = Returns ((''total dup'' @ [newline]) @ concat (map ?line [0..<length procs]))"
    by (rule for_all_collect) (rule step, simp)
  with C' show "ends_in {- 1} (\<lambda>(H', out). (\<exists>C'. models H' C' D \<and> both_at C' blk procs) \<and>
      out = (''total dup'' @ [newline]) @ concat (map ?line [0..<length procs]))
    (case x of (arr, uarr, H) \<Rightarrow> continue (for_all [0..<length procs] (\<lambda>i out.
         continue (defined (do {
             d \<leftarrow> set_first (uarr ! i) H;
             total_loop uarr (int (length procs)) (int i) H d 0 })) (\<lambda>dup.
         continue (defined (set_size (arr ! i) H)) (\<lambda>n.
         Returns (out @ fmt_d dup @ '' '' @ fmt_d n @ '' '' @ [newline]))))
       (''total dup'' @ [newline])) (\<lambda>out. Returns (H, out)))"
    unfolding x by auto
qed


lemma total_undefined:
  assumes "models H C D" and "blocks_ok (pair_blocks blk (length procs)) C" and "length procs \<le> MAX_PID"
    and "\<forall>p \<in> set procs. process_fits p"
    and "i < length procs" "2 \<le> length procs" "process_keys candidate (procs ! i) = []"
  shows "print_total_dup md blk procs H \<noteq> Returns r"
proof
  let ?body = "\<lambda>arr uarr H i out.
    continue (defined (do {
        d \<leftarrow> set_first (uarr ! i) H;
        total_loop uarr (int (length procs)) (int i) H d 0 })) (\<lambda>dup.
    continue (defined (set_size (arr ! i) H)) (\<lambda>n.
    Returns (out @ fmt_d dup @ '' '' @ fmt_d n @ '' '' @ [newline])))"
  assume "print_total_dup md blk procs H = Returns r"
  then obtain arr uarr H' out where x: "for_all (enumerate 0 procs) (\<lambda>(i, p) (arr, uarr, H).
         if i \<ge> MAX_PID then Undefined
         else continue (set_from_proc md (fst (blk i)) p H) (\<lambda>(s, H).
           continue (uniq_set_from_proc md (snd (blk i)) p H) (\<lambda>(u, H).
           Returns (arr @ [s], uarr @ [u], H)))) ([], [], H) = Returns (arr, uarr, H')"
    and r: "for_all [0..<length procs] (?body arr uarr H') (''total dup'' @ [newline]) = Returns out"
    unfolding print_total_dup_def by (auto simp: continue_eq_Returns)
  obtain C' where C': "uarr = map (\<lambda>i. snd (blk i)) [0..<length procs]" "models H' C' D" "both_at C' blk procs"
    using fill_both [OF assms(1-4)] unfolding x by auto
  have "C' (uarr ! i) = Some {#}" using C'(1,3) assms(5,7) by (simp add: both_at_def)
  then have "do { d \<leftarrow> set_first (uarr ! i) H'; total_loop uarr (int (length procs)) (int i) H' d 0 } = None"
    by (rule total_loop_empty [OF C'(2) _ assms(5,6)])
  then have "?body arr uarr H' i out = Undefined" for out by simp
  then have "for_all [0..<length procs] (?body arr uarr H') (''total dup'' @ [newline]) \<noteq> Returns out"
    by (rule for_all_Undefined) (use assms(5) in simp)
  with r show False by simp
qed

end

end
