(* ===== verification/Setcmp_Spec.thy ===== *)
theory Setcmp_Spec
  imports Setcmp_Total
begin

text \<open>
  What the reports of \<open>setcmp.c\<close> print, for every allocator: the numbers in terms of the hashes
  and map counts of the pages, and the sets that are left in the heap.
\<close>

section \<open>The sets of a process\<close>

text \<open>
  C30: \<open>set_from_proc\<close> makes the multiset of the hashes of all pages that are not zero, and
  \<open>cand_set_from_proc\<close> that of the pages that are also mapped only once; every set that was in
  the heap is still there. The one other outcome is exit status -1, when \<open>malloc\<close> gives null.
\<close>

theorem set_from_proc_correct:
  assumes "malloc_ok md" and "models H C D" and "blk \<noteq> NULL" and "blk \<notin> dom C" and "process_fits p"
  shows "ends_in {- 1} (\<lambda>(s, H'). s = blk \<and> models H' (C(blk \<mapsto> mset (process_keys nonzero p))) D)
      (set_from_proc md blk p H) \<and>
    ends_in {- 1} (\<lambda>(s, H'). s = blk \<and> models H' (C(blk \<mapsto> mset (process_keys candidate p))) D)
      (cand_set_from_proc md blk p H)"
proof -
  have "blocks_ok [blk] C" using assms(3,4) by (simp add: blocks_ok_def)
  then show ?thesis
    using data_malloc.build_all [OF data_malloc.intro] data_malloc.build_candidates [OF data_malloc.intro]
      assms(1,2) process_fitsD [OF assms(5)] by blast
qed

text \<open>A process of one region with three pages: two with the same hash, one of them shared, and a zero page.\<close>

definition sample_region :: mem_reg where
  "sample_region = \<lparr>mr_start = 4096, mr_end = 16384, pathname = ''[heap]'',
     mr_pages = [\<lparr>pg_hash = Some 7, pg_share = Some 1\<rparr>, \<lparr>pg_hash = Some 7, pg_share = Some 2\<rparr>,
       \<lparr>pg_hash = Some 0, pg_share = None\<rparr>, fresh_page],
     mr_r = CHR ''r'', mr_w = CHR ''w'', mr_x = CHR ''-'', mr_s = CHR ''p''\<rparr>"

definition sample_process :: "int \<Rightarrow> u64 process" where
  "sample_process pid = (proc_init pid)\<lparr>pr_maps := Some [sample_region]\<rparr>"

definition empty_heap :: heap where
  "empty_heap = \<lparr>nodes = Map.empty, vals = Map.empty, sets = Map.empty\<rparr>"

lemma models_empty: "models empty_heap Map.empty Map.empty"
  by (auto simp: models_def forest_def outside_def placed_def empty_heap_def)

lemma sample_pages: "pages_of sample_region = [\<lparr>pg_hash = Some 7, pg_share = Some 1\<rparr>,
    \<lparr>pg_hash = Some 7, pg_share = Some 2\<rparr>, \<lparr>pg_hash = Some 0, pg_share = None\<rparr>]"
  by (simp add: pages_of_def page_total_def sample_region_def pageSize_def)

lemma sample_keys: "process_keys nonzero (sample_process pid) = [7, 7]"
  "process_keys candidate (sample_process pid) = [7]"
  by (simp_all add: process_keys_def region_keys_def sample_pages sample_process_def nonzero_def
      candidate_def page_key_def zero_page_hash_eq)

lemma sample_fits: "process_fits (sample_process pid)"
proof -
  have "region_ok counted_page sample_region"
    by (simp add: region_ok_def sample_pages counted_page_def page_key_def zero_page_hash_eq)
      (simp add: sample_region_def page_total_def pageSize_def)
  then have "process_ok counted_page (sample_process pid)"
    by (simp add: process_ok_def sample_process_def)
  then show ?thesis by (simp add: process_fits_def sample_keys INT_MAX_def)
qed

theorem set_from_proc_correct_witness:
  "ends_in {- 1} (\<lambda>(s, H'). s = 64 \<and> models H' [64 \<mapsto> {#7, 7#}] Map.empty)
    (set_from_proc pool_alloc 64 (sample_process 1) empty_heap)"
  using set_from_proc_correct [OF pool.malloc models_empty, of 64 "sample_process 1"]
  by (simp add: sample_fits sample_keys)

text \<open>
  \<open>uniq_set_from_proc\<close> makes the set of the different hashes of the pages that are neither
  zero nor shared, each once; the data refused for being there already are freed.
\<close>

theorem uniq_set_from_proc_correct:
  assumes "malloc_ok md" and "models H C D" and "blk \<noteq> NULL" and "blk \<notin> dom C" and "process_fits p"
  shows "ends_in {- 1} (\<lambda>(s, H'). s = blk \<and>
      models H' (C(blk \<mapsto> mset_set (set (process_keys candidate p)))) D)
    (uniq_set_from_proc md blk p H)"
proof -
  have "blocks_ok [blk] C" using assms(3,4) by (simp add: blocks_ok_def)
  then show ?thesis
    using data_malloc.build_distinct [OF data_malloc.intro] assms(1,2) process_fitsD [OF assms(5)] by blast
qed

theorem uniq_set_from_proc_correct_witness:
  "ends_in {- 1} (\<lambda>(s, H'). s = 64 \<and> models H' [64 \<mapsto> {#7#}] Map.empty)
    (uniq_set_from_proc pool_alloc 64 (sample_process 1) empty_heap)"
  using uniq_set_from_proc_correct [OF pool.malloc models_empty, of 64 "sample_process 1"]
  by (simp add: sample_fits sample_keys)

section \<open>The reports\<close>

text \<open>
  C31: \<open>print_intra_simi\<close> prints for every process the number of its pages that are not zero less
  the number of different hashes among those that are not shared either, so shared pages
  count as duplicates; it frees every set it made and leaves the others alone.
\<close>

theorem print_intra_simi_correct:
  assumes "malloc_ok md" and "models H C D"
    and "\<forall>i < length procs. blocks_ok [fst (blk i), snd (blk i)] C" and "\<forall>p \<in> set procs. process_fits p"
  shows "ends_in {- 1} (\<lambda>(H', out). models H' C D \<and> out = (''intra proc dup'' @ [newline]) @
      concat (map (\<lambda>i. fmt_d (int (length (process_keys nonzero (procs ! i))) -
        int (card (set (process_keys candidate (procs ! i))))) @ [newline]) [0..<length procs]))
    (print_intra_simi md blk procs H)"
  using data_malloc.intra [OF data_malloc.intro [OF assms(1)] assms(2-4)] by (simp only: intra_dup_def)

theorem print_intra_simi_correct_witness:
  "ends_in {- 1} (\<lambda>(H', out). models H' Map.empty Map.empty \<and>
      out = ''intra proc dup'' @ [newline] @ ''1'' @ [newline])
    (print_intra_simi pool_alloc (\<lambda>i. (64, 128)) [sample_process 1] empty_heap)"
  using print_intra_simi_correct [OF pool.malloc models_empty, of "[sample_process 1]" "\<lambda>i. (64, 128)"]
  by (simp add: sample_fits sample_keys blocks_ok_def fmt_d_eval)




definition sample_blocks :: "nat \<Rightarrow> ptr \<times> ptr" where
  "sample_blocks i = (if i = 0 then (64, 128) else (192, 256))"

lemma sample_blocks_ok: "blocks_ok (pair_blocks sample_blocks 2) Map.empty"
proof -
  have "pair_blocks sample_blocks 2 = [64, 192, 128, 256]"
    by (simp add: pair_blocks_def sample_blocks_def upt_rec)
  then show ?thesis by (simp add: blocks_ok_def)
qed


text \<open>
  When one of several processes has no page that is neither zero nor shared,
  \<open>print_total_dup\<close> never returns normally: \<open>set_first\<close> on the empty set yields an address that
  is no datum, and the search for it reads there.
\<close>

theorem print_total_dup_empty:
  assumes "malloc_ok md" and "models H C D" and "blocks_ok (pair_blocks blk (length procs)) C"
    and "length procs \<le> MAX_PID" and "\<forall>p \<in> set procs. process_fits p"
    and "i < length procs" and "2 \<le> length procs" and "process_keys candidate (procs ! i) = []"
  shows "print_total_dup md blk procs H \<noteq> Returns r"
  by (rule data_malloc.total_undefined [OF data_malloc.intro [OF assms(1)] assms(2-8)])

definition bare_process :: "u64 process" where
  "bare_process = (proc_init 2)\<lparr>pr_maps := Some []\<rparr>"

theorem print_total_dup_empty_witness:
  "print_total_dup pool_alloc sample_blocks [sample_process 1, bare_process] empty_heap \<noteq> Returns (empty_heap, [])"
proof (rule print_total_dup_empty [OF pool.malloc models_empty, where i = 1])
  show "\<forall>p \<in> set [sample_process 1, bare_process]. process_fits p"
    by (simp add: sample_fits) (simp add: process_fits_def bare_process_def process_ok_def process_keys_def INT_MAX_def)
qed (use sample_blocks_ok in \<open>simp_all add: numeral_2_eq_2 MAX_PID_def bare_process_def process_keys_def\<close>)

end
