(* ===== verification/Setcmp_Regions.thy ===== *)
theory Setcmp_Regions
  imports Setcmp_Total
begin

text \<open>
  The reports of \<open>setcmp.c\<close> that \<open>main\<close> has commented out: the matrix of common pages, the
  duplicates of every region in other processes, and in the other regions of its own process.
\<close>

section \<open>Texts\<close>

text \<open>A loop that keeps the sets of the heap and appends to a text in every round.\<close>

lemma text_loop:
  assumes "models H C D"
    and "\<And>b H out. b \<in> set bs \<Longrightarrow> models H C D \<Longrightarrow>
      ends_in E (\<lambda>(H', out'). models H' C D \<and> out' = out @ line b) (body b (H, out))"
  shows "ends_in E (\<lambda>(H', out'). models H' C D \<and> out' = out @ concat (map line bs)) (for_all bs body (H, out))"
  using assms
proof (induction bs arbitrary: H out)
  case (Cons b bs)
  have "ends_in E (\<lambda>(H', out'). models H' C D \<and> out' = out @ line b) (body b (H, out))"
    using Cons.prems by simp
  then show ?case
    using Cons.IH [of _ "out @ line b"] Cons.prems(2)
    by (auto elim!: ends_in_continue)
qed simp

lemma map_nth_upt: "map (\<lambda>i. f (xs ! i)) [0..<length xs] = map f xs"
  by (intro nth_equalityI) simp_all

lemma enumerate_eq_map: "enumerate 0 ps = map (\<lambda>i. (i, ps ! i)) [0..<length ps]"
  by (intro nth_equalityI) (simp_all add: nth_enumerate_eq)

section \<open>The regions of a process\<close>

lemma process_regions:
  assumes "process_ok Q p" and "mr \<in> set (the (pr_maps p))"
  shows "region_ok Q mr"
  using assms by (auto simp: process_ok_def list_all_iff)

lemma region_keys_fewer:
  assumes "mr \<in> set (the (pr_maps p))"
  shows "length (region_keys sel mr) \<le> length (process_keys sel p)"
  using assms unfolding process_keys_def length_concat by (intro member_le_sum_list) auto

lemma region_keys_fit:
  assumes "process_fits p" and "mr \<in> set (the (pr_maps p))"
  shows "int (length (region_keys nonzero mr)) \<le> INT_MAX" "int (length (region_keys candidate mr)) \<le> INT_MAX"
  using process_fitsD(3,4) [OF assms(1)] region_keys_fewer [OF assms(2), of nonzero] region_keys_fewer [OF assms(2), of candidate]
  by linarith+

section \<open>Duplicates of a region in other processes\<close>

text \<open>The pages of the \<open>i\<close>-th process's region whose hash another process has, none if that number is 0.\<close>

definition inter_mr_line :: "'f process list \<Rightarrow> nat \<Rightarrow> mem_reg \<Rightarrow> string" where
  "inter_mr_line procs i mr =
     (let dup = found_number (nonzero_sets procs) i (region_keys nonzero mr)
      in if dup = 0 then []
         else fmt_d dup @ '' '' @ fmt_d (int (length (region_keys nonzero mr))) @ '' '' @ pathname mr @ [newline])"

context data_malloc
begin

lemma dup_inter:
  assumes "models H C D" and "sets_at C arr Ss" and "region_ok hashed_page mr"
    and "int (length (region_keys nonzero mr)) \<le> INT_MAX"
  shows "ends_in {- 1} (\<lambda>(H', dup). models H' C D \<and> dup = found_number Ss i (region_keys nonzero mr))
    (mr_dup_inter md arr (int (length arr)) mr (int i) H)"
proof -
  have "mr_dup_inter md arr (int (length arr)) mr (int i) H
      = for_all (region_keys nonzero mr) (count_key md arr (int (length arr)) (int i)) (H, 0)"
    unfolding mr_dup_inter_def
    by (rule for_pages_select [OF assms(3)]) (auto simp: count_page_def hashed_page_reads)
  then show ?thesis using count_keys [OF assms(1,2,4)] by simp
qed

text \<open>The line of one region of process \<open>i\<close>.\<close>

lemma inter_region:
  assumes "models H C D" and "sets_at C arr (nonzero_sets procs)" and "length arr = length procs"
    and "process_fits (procs ! i)" and "mr \<in> set (the (pr_maps (procs ! i)))"
  shows "ends_in {- 1} (\<lambda>(H', out'). models H' C D \<and> out' = out @ inter_mr_line procs i mr)
      (continue (mr_dup_inter md arr (int (length procs)) mr (int i) H) (\<lambda>(H, dup).
         if dup = 0 then Returns (H, out)
         else continue (mr_nonzero_num mr) (\<lambda>n.
           Returns (H, out @ fmt_d dup @ '' '' @ fmt_d n @ '' '' @ mr_get_name mr @ [newline]))))"
proof -
  have ok: "region_ok hashed_page mr" by (rule process_regions [OF process_fitsD(2) [OF assms(4)] assms(5)])
  show ?thesis
    using dup_inter [OF assms(1,2) ok region_keys_fit(1) [OF assms(4,5)], of i] assms(3) mr_nonzero_num_eq [OF ok]
    by (auto intro!: ends_in_continue_pair simp: inter_mr_line_def mr_get_name_def)
qed

lemma inter_regions:
  assumes "models H C D" and "blocks_ok (map blk [0..<length procs]) C" and "length procs \<le> MAX_PID"
    and "\<forall>p \<in> set procs. process_fits p"
  shows "ends_in {- 1} (\<lambda>(H', out).
      models H' (with_sets C (map blk [0..<length procs]) (map (\<lambda>p. mset (process_keys nonzero p)) procs)) D \<and>
      out = concat (map (\<lambda>i. concat (map (inter_mr_line procs i) (the (pr_maps (procs ! i))))) [0..<length procs]))
    (print_inter_simi_mr md blk procs H)"
  unfolding print_inter_simi_mr_def
proof (rule ends_in_continue_pair [OF fill [OF _ assms(1-3), where content_of = "\<lambda>p. mset (process_keys nonzero p)"]])
  show "ends_in {- 1} (\<lambda>(s', H'). s' = s \<and> models H' (C(s \<mapsto> mset (process_keys nonzero p))) D)
      (set_from_proc md s p H)"
    if "p \<in> set procs" "models H C D" "blocks_ok [s] C" for p s H C
    using build_all [OF that(2,3)] process_fitsD(2,3) assms(4) that(1) by blast
next
  let ?bs = "map blk [0..<length procs]"
  let ?C = "with_sets C ?bs (map (\<lambda>p. mset (process_keys nonzero p)) procs)"
  have dist: "distinct ?bs" using assms(2) by (simp add: blocks_ok_def)
  have sa: "sets_at ?C ?bs (nonzero_sets procs)"
    using sets_at_with_sets [OF _ dist, of "map (\<lambda>p. mset (process_keys nonzero p)) procs" C]
    by (simp add: nonzero_sets_def comp_def)
  let ?body = "\<lambda>i. for_regions (procs ! i) (\<lambda>mr (H, out).
         continue (mr_dup_inter md ?bs (int (length procs)) mr (int i) H) (\<lambda>(H, dup).
         if dup = 0 then Returns (H, out)
         else continue (mr_nonzero_num mr) (\<lambda>n.
           Returns (H, out @ fmt_d dup @ '' '' @ fmt_d n @ '' '' @ mr_get_name mr @ [newline]))))"
  have proc: "ends_in {- 1} (\<lambda>(H', out'). models H' ?C D \<and>
      out' = out @ concat (map (inter_mr_line procs i) (the (pr_maps (procs ! i))))) (?body i (H, out))"
    if i: "i \<in> set [0..<length procs]" and m: "models H ?C D" for i H out
  proof -
    have "process_ok counted_page (procs ! i)" using assms(4) i by (intro process_fitsD(1)) simp
    then show ?thesis
      using i unfolding for_regions_eq [OF \<open>process_ok counted_page (procs ! i)\<close>]
      by (intro text_loop [OF m]) (use assms(4) in \<open>auto intro!: inter_region [OF _ sa]\<close>)
  qed
  fix arr H' assume 1: "arr = ?bs \<and> models H' ?C D"
  show "ends_in {- 1} (\<lambda>(H', out). models H' ?C D \<and> out = concat (map
      (\<lambda>i. concat (map (inter_mr_line procs i) (the (pr_maps (procs ! i))))) [0..<length procs]))
    (for_all (enumerate 0 procs) (\<lambda>(i, p). for_regions p (\<lambda>mr (H, out).
         continue (mr_dup_inter md arr (int (length procs)) mr (int i) H) (\<lambda>(H, dup).
         if dup = 0 then Returns (H, out)
         else continue (mr_nonzero_num mr) (\<lambda>n.
           Returns (H, out @ fmt_d dup @ '' '' @ fmt_d n @ '' '' @ mr_get_name mr @ [newline]))))) (H', []))"
    using text_loop [OF conjunct2 [OF 1] proc, where out = "[]"]
    unfolding conjunct1 [OF 1] enumerate_eq_map for_all_map prod.case append_Nil .
qed

end

section \<open>The matrix\<close>

definition matrix_entry :: "'f process \<Rightarrow> 'f process \<Rightarrow> int" where
  "matrix_entry p q = int (length (filter (\<lambda>k. k \<in> set (process_keys nonzero q)) (process_keys candidate p)))"

definition matrix_row :: "'f process list \<Rightarrow> nat \<Rightarrow> string" where
  "matrix_row procs i = concat (map (\<lambda>j. if i = j then ''0 ''
     else fmt_d (matrix_entry (procs ! i) (procs ! j)) @ '' '') [0..<length procs]) @ [newline]"

lemma for_all_Nil: "for_all [] body = Returns"
  by (rule ext) simp

text \<open>The rows, when the arrays hold the two sets of every process.\<close>

lemma matrix_rows:
  assumes "\<And>i j. i < length procs \<Longrightarrow> j < length procs \<Longrightarrow>
    set_found_in (carr ! i) (arr ! j) H = Some (matrix_entry (procs ! i) (procs ! j))"
  shows "for_all [0..<length procs] (\<lambda>i out.
         continue (for_all [0..<length procs] (\<lambda>j out.
             if i = j then Returns (out @ ''0 '')
             else continue (defined (set_found_in (carr ! i) (arr ! j) H)) (\<lambda>n. Returns (out @ fmt_d n @ '' ''))) out) (\<lambda>out.
         Returns (out @ [newline]))) out = Returns (out @ concat (map (matrix_row procs) [0..<length procs]))"
proof (rule for_all_collect)
  fix i out assume i: "i \<in> set [0..<length procs]"
  have "for_all [0..<length procs] (\<lambda>j out.
           if i = j then Returns (out @ ''0 '')
           else continue (defined (set_found_in (carr ! i) (arr ! j) H)) (\<lambda>n. Returns (out @ fmt_d n @ '' ''))) out
      = Returns (out @ concat (map (\<lambda>j. if i = j then ''0 ''
          else fmt_d (matrix_entry (procs ! i) (procs ! j)) @ '' '') [0..<length procs]))"
    using i assms by (intro for_all_collect) auto
  then show "continue (for_all [0..<length procs] (\<lambda>j out.
           if i = j then Returns (out @ ''0 '')
           else continue (defined (set_found_in (carr ! i) (arr ! j) H)) (\<lambda>n. Returns (out @ fmt_d n @ '' ''))) out) (\<lambda>out.
       Returns (out @ [newline])) = Returns (out @ matrix_row procs i)"
    by (simp add: matrix_row_def)
qed

lemma distinct_pairs:
  "length xs = length ys \<Longrightarrow> distinct (xs @ ys) \<Longrightarrow> distinct (concat (map (\<lambda>(x, y). [x, y]) (zip xs ys)))"
  by (induction xs ys rule: list_induct2) (auto dest: set_zip_leftD set_zip_rightD)

lemma set_pairs:
  "length xs = length ys \<Longrightarrow> set (concat (map (\<lambda>(x, y). [x, y]) (zip xs ys))) = set xs \<union> set ys"
  by (induction xs ys rule: list_induct2) auto

context data_malloc
begin

lemma free_pairs:
  assumes "models H C' D" and "length arr = length carr" and "distinct (arr @ carr)"
    and "set arr \<union> set carr \<subseteq> dom C'"
  shows "\<exists>H'. for_all (zip arr carr) (\<lambda>(s, c) H.
      continue (defined (set_free s H)) (\<lambda>H. defined (set_free c H))) H = Returns H' \<and>
    models H' (C' |` (- set arr) |` (- set carr)) D"
proof -
  let ?all = "concat (map (\<lambda>(s, c). [s, c]) (zip arr carr))"
  note pairs = set_pairs [OF assms(2)] distinct_pairs [OF assms(2,3)]
  obtain H' where H': "free_sets ?all H = Returns H'" "models H' (C' |` (- (set arr \<union> set carr))) D"
    using free_all [OF assms(1) _ pairs(2)] assms(4) unfolding pairs(1) by blast
  have "free_sets ?all H = for_all (zip arr carr) (\<lambda>(s, c) H.
      continue (defined (set_free s H)) (\<lambda>H. defined (set_free c H))) H"
    unfolding free_sets_def for_all_concat for_all_map
    by (intro for_all_cong refl) (auto split: prod.splits intro!: continue_cong simp: for_all_Nil)
  moreover have "C' |` (- set arr) |` (- set carr) = C' |` (- (set arr \<union> set carr))"
    by (simp add: Int_commute)
  ultimately show ?thesis using H' by (metis (no_types, lifting))
qed

lemma matrix:
  assumes M: "models H C D" and blocks: "blocks_ok (map blk [0..<length procs] @ map cblk [0..<length procs]) C"
    and len: "length procs \<le> MAX_PID" and fits: "\<forall>p \<in> set procs. process_fits p"
  shows "ends_in {- 1} (\<lambda>(H', out). models H' C D \<and>
      out = (''simi matrix'' @ [newline]) @ concat (map (matrix_row procs) [0..<length procs]))
    (print_simi_matrix md blk cblk procs H)"
proof -
  let ?n = "length procs"
  let ?bs = "map blk [0..<?n]" and ?cs = "map cblk [0..<?n]"
  let ?Ms = "map (\<lambda>p. mset (process_keys nonzero p)) procs" and ?Ns = "map (\<lambda>p. mset (process_keys candidate p)) procs"
  let ?C1 = "with_sets C ?bs ?Ms" and ?C2 = "with_sets (with_sets C ?bs ?Ms) ?cs ?Ns"
  have lens: "length ?bs = length ?Ms" "length ?cs = length ?Ns" by simp_all
  note arrays = two_arrays [OF blocks lens]
  have one: "ends_in {- 1} (\<lambda>(s', H'). s' = s \<and> models H' (C(s \<mapsto> mset (process_keys nonzero p))) D)
      (set_from_proc md s p H)"
    and two: "ends_in {- 1} (\<lambda>(s', H'). s' = s \<and> models H' (C(s \<mapsto> mset (process_keys candidate p))) D)
      (cand_set_from_proc md s p H)"
    if "p \<in> set procs" "models H C D" "blocks_ok [s] C" for p s H C
    using build_all [OF that(2,3)] build_candidates [OF that(2,3)] process_fitsD fits that(1) by blast+
  have entry: "set_found_in (?cs ! i) (?bs ! j) H = Some (matrix_entry (procs ! i) (procs ! j))"
    if "i < ?n" "j < ?n" "models H ?C2 D" for i j H
  proof -
    have "int (length (process_keys candidate (procs ! i))) \<le> INT_MAX" using fits that(1) by (intro process_fitsD(4)) simp
    then show ?thesis
      using models_found_in [OF that(3), of "?cs ! i" _ "?bs ! j"] arrays(4) [of j] arrays(5) [of i] that(1,2)
      by (simp add: matrix_entry_def flip: mset_filter)
  qed
  have row: "for_all [0..<?n] (\<lambda>i out.
         continue (for_all [0..<?n] (\<lambda>j out.
             if i = j then Returns (out @ ''0 '')
             else continue (defined (set_found_in (?cs ! i) (?bs ! j) H)) (\<lambda>n. Returns (out @ fmt_d n @ '' ''))) out) (\<lambda>out.
         Returns (out @ [newline]))) out = Returns (out @ concat (map (matrix_row procs) [0..<?n]))"
    if m: "models H ?C2 D" for H out
    by (rule matrix_rows) (rule entry [OF _ _ m])
  have free: "\<exists>H'. for_all (zip ?bs ?cs) (\<lambda>(s, c) H.
      continue (defined (set_free s H)) (\<lambda>H. defined (set_free c H))) H = Returns H' \<and> models H' C D"
    if "models H ?C2 D" for H
    using free_pairs [OF that, of ?bs ?cs] arrays(3,6) blocks by (auto simp: blocks_ok_def)
  show ?thesis
    unfolding print_simi_matrix_def
  proof (rule ends_in_continue_pair [OF fill [OF one M arrays(1) len]], assumption+, elim conjE, hypsubst, goal_cases)
    case (1 arr H1)
    show ?case
    proof (rule ends_in_continue_pair [OF fill [OF two 1 arrays(2) len]], assumption+, elim conjE, hypsubst, goal_cases)
      case (1 carr H2)
      then show ?case using row [of H2] free [of H2] by auto
    qed
  qed
qed

end

section \<open>Duplicates of a region in its own process\<close>

lemma set_from_mr_keys:
  assumes "region_ok hashed_page mr"
  shows "set_from_mr md blk mr H = continue (defined (set_init blk H)) (\<lambda>(s, H).
    continue (for_all (region_keys nonzero mr) (push_key md s) H) (\<lambda>H. Returns (s, H)))"
proof -
  have "set_add_mr md s mr = for_all (region_keys nonzero mr) (push_key md s)" for s
    unfolding set_add_mr_def fun_eq_iff
    by (intro allI for_pages_select [OF assms]) (auto simp: hashed_page_reads push_key_def)
  then show ?thesis by (simp only: set_from_mr_def)
qed

lemma uniq_set_from_mr_keys:
  assumes "region_ok counted_page mr"
  shows "uniq_set_from_mr md blk mr H = continue (defined (set_init blk H)) (\<lambda>(s, H).
    continue (for_all (region_keys candidate mr) (push_new_key md s) H) (\<lambda>H. Returns (s, H)))"
proof -
  have "for_pages mr (uniq_add_page md s) = for_all (region_keys candidate mr) (push_new_key md s)" for s
    unfolding fun_eq_iff
    by (intro allI for_pages_select [OF assms])
      (auto simp: uniq_add_page_def skipped_eq hashed_page_reads counted_page_hashed push_new_key_def)
  then show ?thesis by (simp only: uniq_set_from_mr_def)
qed

text \<open>The pages of a region that are not zero, less the different hashes among its candidates.\<close>

definition region_intra :: "mem_reg \<Rightarrow> int" where
  "region_intra mr = int (length (region_keys nonzero mr)) - int (card (set (region_keys candidate mr)))"

lemma region_intra_nonneg: "0 \<le> region_intra mr"
proof -
  have "card (set (region_keys candidate mr)) \<le> length (region_keys candidate mr)" by (rule card_length)
  also have "\<dots> \<le> length (region_keys nonzero mr)"
  proof -
    have "length (filter candidate pgs) \<le> length (filter nonzero pgs)" for pgs
      by (induction pgs) (auto simp: candidate_def)
    then show ?thesis by (simp add: region_keys_def)
  qed
  finally show ?thesis by (simp add: region_intra_def)
qed

text \<open>
  The line of region \<open>i\<close>: its duplicates within itself and the number of its pages, zero ones
  included, whose hash another region of the process has; none if that number is 0.
\<close>

definition intra_mr_line :: "mem_reg list \<Rightarrow> nat \<Rightarrow> string" where
  "intra_mr_line ms i =
     (let dup = found_number (map (\<lambda>mr. set (region_keys nonzero mr)) ms) i (region_keys (\<lambda>pg. True) (ms ! i))
      in if dup = 0 then []
         else fmt_d (region_intra (ms ! i)) @ '' '' @ fmt_d dup @ '' '' @ pathname (ms ! i) @ [newline])"

text \<open>Zero pages are in no set, so they never count.\<close>

lemma found_elsewhere_all:
  "found_number (map (\<lambda>mr. set (region_keys nonzero mr)) ms) i (region_keys (\<lambda>pg. True) mr)
    = int (length (filter (\<lambda>k. \<exists>j < length ms. j \<noteq> i \<and> k \<in> set (region_keys nonzero (ms ! j))) (region_keys nonzero mr)))"
proof -
  let ?e = "\<lambda>k. \<exists>j < length ms. j \<noteq> i \<and> k \<in> set (region_keys nonzero (ms ! j))"
  have e: "elsewhere (map (\<lambda>mr. set (region_keys nonzero mr)) ms) i = ?e"
    by (auto simp: elsewhere_def fun_eq_iff)
  have "?e k \<Longrightarrow> k \<noteq> zero_page_hash" for k by (auto simp: region_keys_def nonzero_def)
  then have "filter ?e (map page_key pgs) = filter ?e (map page_key (filter nonzero pgs))" for pgs
    by (induction pgs) (auto simp: nonzero_def)
  from this [of "pages_of mr"] have "filter ?e (region_keys (\<lambda>pg. True) mr) = filter ?e (region_keys nonzero mr)"
    unfolding region_keys_def by simp
  then show ?thesis by (simp only: found_number_def e)
qed

context data_malloc
begin

lemma intra_region:
  assumes "models H C D" and "blocks_ok [a, b] C" and "region_ok counted_page mr"
    and "int (length (region_keys nonzero mr)) \<le> INT_MAX" and "int (length (region_keys candidate mr)) \<le> INT_MAX"
  shows "ends_in {- 1} (\<lambda>(H', dup). models H' C D \<and> dup = region_intra mr) (intra_mr_simi md a b mr H)"
proof -
  let ?M = "mset (region_keys nonzero mr)" and ?U = "mset_set (set (region_keys candidate mr))"
  have hashed: "region_ok hashed_page mr" using assms(3) counted_page_hashed by (rule region_ok_mono)
  have ok: "blocks_ok [a] C" "blocks_ok [b] (C(a \<mapsto> ?M))" using assms(2) by (auto simp: blocks_ok_def)
  show ?thesis
    unfolding intra_mr_simi_def set_from_mr_keys [OF hashed] uniq_set_from_mr_keys [OF assms(3)]
  proof (rule ends_in_continue_pair [OF build [OF assms(1) ok(1) assms(4)]], elim conjE, hypsubst,
      rule ends_in_continue_pair [OF build_uniq [OF _ ok(2) assms(5)]], assumption, elim conjE, hypsubst)
    fix H' assume "models H' (C(a \<mapsto> ?M, b \<mapsto> ?U)) D"
    from count_two [OF this assms(2), of "\<lambda>dup H. Returns (H, dup)"]
    show "ends_in {- 1} (\<lambda>(H', dup). models H' C D \<and> dup = region_intra mr)
      (continue (defined (set_size a H')) (\<lambda>n. continue (defined (set_size b H')) (\<lambda>m.
        continue (defined (int_add n (- m))) (\<lambda>dup. continue (defined (set_free a H')) (\<lambda>H.
        continue (defined (set_free b H)) (\<lambda>H. Returns (H, dup)))))))"
      using region_intra_nonneg [of mr] assms(4) by (auto simp: region_intra_def)
  qed
qed

text \<open>The round of one region, with the sets of all regions of the process in \<open>arr\<close>.\<close>

lemma intra_line:
  assumes m: "models H C' D" and sa: "sets_at C' arr (map (\<lambda>mr. set (region_keys nonzero mr)) ms)"
    and p: "pr_maps p = Some ms" "process_fits p" and i: "i < length ms"
    and blocks: "blocks_ok [fst (rblk i), snd (rblk i)] C'"
  shows "ends_in {- 1} (\<lambda>(H', out'). models H' C' D \<and> out' = out @ intra_mr_line ms i)
    (continue (proc_get_mr p (int i)) (\<lambda>mr.
      continue (for_pages mr (count_page md arr (int (length arr)) (int i)) (H, 0)) (\<lambda>(H, dup).
      if dup = 0 then Returns (H, out)
      else continue (intra_mr_simi md (fst (rblk i)) (snd (rblk i)) mr H) (\<lambda>(H, intra).
        Returns (H, out @ fmt_d intra @ '' '' @ fmt_d dup @ '' '' @ mr_get_name mr @ [newline])))))"
proof -
  let ?mr = "ms ! i" and ?all = "region_keys (\<lambda>pg. True) (ms ! i)"
  let ?dup = "found_number (map (\<lambda>mr. set (region_keys nonzero mr)) ms) i ?all"
  have mr: "?mr \<in> set (the (pr_maps p))" "proc_get_mr p (int i) = Returns ?mr" using i p(1) by (simp_all add: proc_get_mr_def)
  have ok: "region_ok counted_page ?mr" by (rule process_regions [OF process_fitsD(1) [OF p(2)] mr(1)])
  then have hashed: "region_ok hashed_page ?mr" using counted_page_hashed by (rule region_ok_mono)
  have "page_total ?mr < 2 ^ 31" using ok by (simp add: region_ok_def)
  then have small: "int (length ?all) \<le> INT_MAX"
    by (simp add: region_keys_def pages_of_def INT_MAX_def)
  have "for_pages ?mr (count_page md arr (int (length arr)) (int i)) (H, 0)
      = for_all ?all (count_key md arr (int (length arr)) (int i)) (H, 0)"
    by (rule for_pages_select [OF hashed]) (simp add: count_page_def hashed_page_reads)
  then have count: "ends_in {- 1} (\<lambda>(H', dup). models H' C' D \<and> dup = ?dup)
      (for_pages ?mr (count_page md arr (int (length arr)) (int i)) (H, 0))"
    using count_keys [OF m sa small] by simp
  note intra = intra_region [OF _ blocks ok region_keys_fit [OF p(2) mr(1)]]
  show ?thesis
    unfolding mr(2) continue.simps
  proof (rule ends_in_continue_pair [OF count])
    fix H' dup assume "models H' C' D \<and> dup = ?dup"
    then show "ends_in {- 1} (\<lambda>(H', out'). models H' C' D \<and> out' = out @ intra_mr_line ms i)
      (if dup = 0 then Returns (H', out)
       else continue (intra_mr_simi md (fst (rblk i)) (snd (rblk i)) ?mr H') (\<lambda>(H, intra).
         Returns (H, out @ fmt_d intra @ '' '' @ fmt_d dup @ '' '' @ mr_get_name ?mr @ [newline])))"
      by (auto intro!: ends_in_continue_pair [OF intra] simp: intra_mr_line_def mr_get_name_def)
  qed
qed

lemma intra_process:
  assumes M: "models H C D" and p: "pr_maps p = Some ms" "process_fits p"
    and blocks: "blocks_ok (map blk [0..<length ms]) C"
      "\<forall>i < length ms. blocks_ok (fst (rblk i) # snd (rblk i) # map blk [0..<length ms]) C"
    and granted: "granted (8 * length ms)"
  shows "ends_in {- 1} (\<lambda>(H', out). models H' C D \<and> out = concat (map (intra_mr_line ms) [0..<length ms]))
    (intra_proc_simi_mr md granted blk rblk p H)"
proof -
  let ?n = "length ms" and ?bs = "map blk [0..<length ms]"
  let ?Ms = "map (\<lambda>mr. mset (region_keys nonzero mr)) ms"
  let ?C = "with_sets C ?bs ?Ms" and ?Ss = "map (\<lambda>mr. set (region_keys nonzero mr)) ms"
  have dist: "distinct ?bs" and sub: "set ?bs \<subseteq> dom ?C" and dom: "dom ?C = dom C \<union> set ?bs"
    using blocks(1) by (auto simp: blocks_ok_def with_sets_def dom_map_of_zip)
  have sa: "sets_at ?C ?bs ?Ss"
    using sets_at_with_sets [OF _ dist, of ?Ms C] by (simp add: comp_def)
  have reg: "region_ok counted_page mr" "int (length (region_keys nonzero mr)) \<le> INT_MAX"
    "int (length (region_keys candidate mr)) \<le> INT_MAX" if "mr \<in> set ms" for mr
    using process_regions [OF process_fitsD(1) [OF p(2)]] region_keys_fit [OF p(2)] that p(1) by simp_all
  have hashed: "region_ok hashed_page mr" if "mr \<in> set ms" for mr
    using reg(1) [OF that] counted_page_hashed by (rule region_ok_mono)
  let ?body = "\<lambda>i (H, out). continue (proc_get_mr p i) (\<lambda>mr.
         continue (for_pages mr (count_page md ?bs (int ?n) i) (H, 0)) (\<lambda>(H, dup).
         if dup = 0 then Returns (H, out)
         else continue (intra_mr_simi md (fst (rblk (nat i))) (snd (rblk (nat i))) mr H) (\<lambda>(H, intra).
           Returns (H, out @ fmt_d intra @ '' '' @ fmt_d dup @ '' '' @ mr_get_name mr @ [newline]))))"
  have line: "ends_in {- 1} (\<lambda>(H', out'). models H' ?C D \<and> out' = out @ intra_mr_line ms (nat i)) (?body i (H, out))"
    if i: "i \<in> set (upto_int (int ?n))" and m: "models H ?C D" for i H out
  proof -
    have n: "nat i < ?n" "0 \<le> i" using i by (auto simp: upto_int_def)
    have "blocks_ok [fst (rblk (nat i)), snd (rblk (nat i))] ?C"
      using blocks(2) n(1) dom by (auto simp: blocks_ok_def)
    from intra_line [OF m sa p n(1), where rblk = rblk and out = out, OF this] show ?thesis by (simp add: n(2))
  qed
  have lines: "concat (map (\<lambda>i. intra_mr_line ms (nat i)) (upto_int (int ?n))) = concat (map (intra_mr_line ms) [0..<?n])"
    by (simp add: upto_int_def comp_def)
  have n: "proc_mr_num p = Returns (int ?n)"
    using process_fitsD(1) [OF p(2)] p(1) by (intro proc_mr_num_maps) (simp_all add: process_ok_def)
  have one: "ends_in {- 1} (\<lambda>(s', H'). s' = s \<and> models H' (C(s \<mapsto> mset (region_keys nonzero mr))) D)
      (set_from_mr md s mr H)" if "mr \<in> set ms" "models H C D" "blocks_ok [s] C" for mr s H C
    using build [OF that(2,3) reg(2) [OF that(1)]] by (simp add: set_from_mr_keys [OF hashed [OF that(1)]])
  note filled = fill_regions [OF one M p(1) blocks(1)]
  have cap: "(if granted (8 * nat (int ?n)) then nat (int ?n) else 0) = ?n" using granted by simp
  have C: "?C |` (- set ?bs) = C" using blocks(1) by (intro with_sets_restrict) simp_all
  show ?thesis
    unfolding intra_proc_simi_mr_def n continue.simps cap lines [symmetric]
  proof (rule ends_in_continue_pair [OF filled], assumption+, elim conjE, hypsubst, goal_cases)
    case (1 arr H1)
    show ?case
    proof (rule ends_in_continue_pair [OF text_loop [OF 1 line]], assumption+, elim conjE, goal_cases)
      case (1 H2 out)
      then show ?case using free_all [OF 1(1) sub dist] C by auto
    qed
  qed
qed

end

end
