(* ===== verification/Regions_Spec.thy ===== *)
theory Regions_Spec
  imports Setcmp_Regions Setcmp_Spec
begin

text \<open>
  What the matrix and the two reports by region of \<open>setcmp.c\<close> print, for every allocator, in terms of
  the keys of the pages.
\<close>

section \<open>The matrix\<close>

text \<open>
  C34: \<open>print_simi_matrix\<close> prints for every two different processes how many pages of the first,
  neither zero nor shared and counted with repetitions, have the hash of a page of the second
  that is not zero, and \<open>0\<close> on the diagonal. All sets are freed.
\<close>

theorem print_simi_matrix_correct:
  assumes "malloc_ok md" and "models H C D"
    and "blocks_ok (map blk [0..<length procs] @ map cblk [0..<length procs]) C"
    and "length procs \<le> MAX_PID" and "\<forall>p \<in> set procs. process_fits p"
  shows "ends_in {- 1} (\<lambda>(H', out). models H' C D \<and> out = (''simi matrix'' @ [newline]) @
      concat (map (\<lambda>i. concat (map (\<lambda>j. if i = j then ''0 '' else fmt_d (int (length (filter
          (\<lambda>k. k \<in> set (process_keys nonzero (procs ! j))) (process_keys candidate (procs ! i))))) @ '' '')
        [0..<length procs]) @ [newline]) [0..<length procs]))
    (print_simi_matrix md blk cblk procs H)"
  using data_malloc.matrix [OF data_malloc.intro [OF assms(1)] assms(2-5)]
  by (simp only: matrix_row_def [abs_def] matrix_entry_def)

theorem print_simi_matrix_correct_witness:
  "ends_in {- 1} (\<lambda>(H', out). models H' Map.empty Map.empty \<and>
      out = ''simi matrix'' @ [newline] @ ''0 1 '' @ [newline] @ ''1 0 '' @ [newline])
    (print_simi_matrix pool_alloc (\<lambda>i. if i = 0 then 64 else 128) (\<lambda>i. if i = 0 then 192 else 256)
      [sample_process 1, sample_process 2] empty_heap)"
proof -
  let ?procs = "[sample_process 1, sample_process 2]"
  let ?b = "\<lambda>i :: nat. if i = 0 then 64 else 128 :: ptr" and ?c = "\<lambda>i :: nat. if i = 0 then 192 else 256 :: ptr"
  have ups: "[0..<length ?procs] = [0, 1]" by (simp add: upt_rec)
  have "blocks_ok (map ?b [0, 1] @ map ?c [0, 1]) Map.empty" by (simp add: blocks_ok_def)
  then show ?thesis
    using print_simi_matrix_correct [OF pool.malloc models_empty, of ?b ?procs ?c, unfolded ups]
    by (simp add: sample_fits sample_keys fmt_d_eval MAX_PID_def)
qed

section \<open>Regions against other processes\<close>

text \<open>
  C35: \<open>print_inter_simi_mr\<close> prints a line for every region that has a page, not zero, whose hash is
  also that of a page of another process: the number of such pages, shared ones included, the
  number of pages that are not zero, and the name. The sets of all processes stay allocated.
\<close>

theorem print_inter_simi_mr_correct:
  assumes "malloc_ok md" and "models H C D" and "blocks_ok (map blk [0..<length procs]) C"
    and "length procs \<le> MAX_PID" and "\<forall>p \<in> set procs. process_fits p"
  shows "ends_in {- 1} (\<lambda>(H', out).
      models H' (with_sets C (map blk [0..<length procs]) (map (\<lambda>p. mset (process_keys nonzero p)) procs)) D \<and>
      out = concat (map (\<lambda>i. concat (map (\<lambda>mr.
        let dup = length (filter (\<lambda>k. \<exists>j < length procs. j \<noteq> i \<and> k \<in> set (process_keys nonzero (procs ! j)))
              (region_keys nonzero mr))
        in if dup = 0 then []
           else fmt_d (int dup) @ '' '' @ fmt_d (int (length (region_keys nonzero mr))) @ '' '' @ pathname mr @ [newline])
        (the (pr_maps (procs ! i))))) [0..<length procs]))
    (print_inter_simi_mr md blk procs H)"
proof -
  have e: "elsewhere (nonzero_sets procs) i
      = (\<lambda>k. \<exists>j < length procs. j \<noteq> i \<and> k \<in> set (process_keys nonzero (procs ! j)))" for i
    by (auto simp: elsewhere_def nonzero_sets_def fun_eq_iff)
  show ?thesis
    using data_malloc.inter_regions [OF data_malloc.intro [OF assms(1)] assms(2-5)]
    by (simp only: inter_mr_line_def [abs_def] found_number_def e Let_def of_nat_eq_0_iff)
qed

lemma sample_maps: "pr_maps (sample_process pid) = Some [sample_region]" "pathname sample_region = ''[heap]''"
  "region_keys nonzero sample_region = [7, 7]" "region_keys (\<lambda>pg. True) sample_region = [7, 7, 0]"
  by (simp_all add: sample_process_def sample_region_def region_keys_def sample_pages [unfolded sample_region_def]
      nonzero_def page_key_def zero_page_hash_eq)

theorem print_inter_simi_mr_correct_witness:
  "ends_in {- 1} (\<lambda>(H', out). models H' [64 \<mapsto> {#7, 7#}, 128 \<mapsto> {#7, 7#}] Map.empty \<and>
      out = ''2 2 [heap]'' @ [newline] @ ''2 2 [heap]'' @ [newline])
    (print_inter_simi_mr pool_alloc (\<lambda>i. if i = 0 then 64 else 128) [sample_process 1, sample_process 2] empty_heap)"
proof -
  let ?procs = "[sample_process 1, sample_process 2]" and ?blk = "\<lambda>i :: nat. if i = 0 then 64 else 128 :: ptr"
  have ups: "[0..<length ?procs] = [0, 1]" by (simp add: upt_rec)
  have f: "filter (\<lambda>k. \<exists>j < length ?procs. j \<noteq> i \<and> k \<in> set (process_keys nonzero (?procs ! j))) [7, 7] = [7, 7]"
    if "i < 2" for i
    using that by (auto simp: sample_keys less_2_cases_iff intro: exI [of _ "1 - i"])
  have m: "with_sets Map.empty [64, 128] [M, N] = [64 \<mapsto> M, 128 \<mapsto> N]" for M N :: "u32 multiset"
    by (auto simp: with_sets_def fun_eq_iff)
  have "blocks_ok (map ?blk [0, 1]) Map.empty" by (simp add: blocks_ok_def)
  then show ?thesis
    using print_inter_simi_mr_correct [OF pool.malloc models_empty, of ?blk ?procs, unfolded ups] f [of 0] f [of 1]
    by (simp add: sample_fits sample_keys sample_maps m fmt_d_eval MAX_PID_def del: filter.simps)
qed

section \<open>Regions against each other\<close>

text \<open>
  C36: \<open>print_intra_process_simi_mr\<close> prints, for every region of a process some of whose pages have
  the hash of a page, not zero, of another region of the same process, the duplicates within
  the region, the number of those pages, and the name. Zero pages never count, for no set
  contains their hash, and every set is freed.
\<close>

theorem print_intra_process_simi_mr_correct:
  assumes "malloc_ok md" and "models H C D" and "\<forall>p \<in> set procs. process_fits p" and "\<forall>n. granted n"
    and "\<forall>k < length procs. let n = length (the (pr_maps (procs ! k))) in
      blocks_ok (map (blk k) [0..<n]) C \<and>
      (\<forall>i < n. blocks_ok (fst (rblk k i) # snd (rblk k i) # map (blk k) [0..<n]) C)"
  shows "ends_in {- 1} (\<lambda>(H', out). models H' C D \<and>
      out = concat (map (\<lambda>p. let ms = the (pr_maps p) in concat (map (\<lambda>i.
        let dup = length (filter (\<lambda>k. \<exists>j < length ms. j \<noteq> i \<and> k \<in> set (region_keys nonzero (ms ! j)))
              (region_keys nonzero (ms ! i)))
        in if dup = 0 then []
           else fmt_d (int (length (region_keys nonzero (ms ! i))) - int (card (set (region_keys candidate (ms ! i))))) @
             '' '' @ fmt_d (int dup) @ '' '' @ pathname (ms ! i) @ [newline]) [0..<length ms])) procs))
    (print_intra_process_simi_mr md granted blk rblk procs H)"
proof -
  let ?line = "\<lambda>ms i. let dup = length (filter (\<lambda>k. \<exists>j < length ms. j \<noteq> i \<and> k \<in> set (region_keys nonzero (ms ! j)))
        (region_keys nonzero (ms ! i)))
    in if dup = 0 then []
       else fmt_d (int (length (region_keys nonzero (ms ! i))) - int (card (set (region_keys candidate (ms ! i))))) @
         '' '' @ fmt_d (int dup) @ '' '' @ pathname (ms ! i) @ [newline]"
  let ?text = "\<lambda>p. concat (map (?line (the (pr_maps p))) [0..<length (the (pr_maps p))])"
  have line: "intra_mr_line ms = ?line ms" for ms
    by (simp add: fun_eq_iff intra_mr_line_def found_elsewhere_all region_intra_def Let_def)
  let ?body = "\<lambda>k (H, out). continue (intra_proc_simi_mr md granted (blk k) (rblk k) (procs ! k) H)
    (\<lambda>(H, txt). Returns (H, out @ txt))"
  have "ends_in {- 1} (\<lambda>(H', out). models H' C D \<and> out = [] @ concat (map (\<lambda>k. ?text (procs ! k)) [0..<length procs]))
      (for_all [0..<length procs] ?body (H, []))"
  proof (rule text_loop [OF assms(2)], unfold prod.case)
    fix k H out assume k: "k \<in> set [0..<length procs]" and m: "models H C D"
    then have p: "process_fits (procs ! k)" using assms(3) by simp
    then have maps: "pr_maps (procs ! k) = Some (the (pr_maps (procs ! k)))"
      by (auto simp: process_fits_def process_ok_def)
    from data_malloc.intra_process [OF data_malloc.intro [OF assms(1)] m maps p, of "blk k" "rblk k" granted]
    show "ends_in {- 1} (\<lambda>(H', out'). models H' C D \<and> out' = out @ ?text (procs ! k))
        (continue (intra_proc_simi_mr md granted (blk k) (rblk k) (procs ! k) H) (\<lambda>(H, txt). Returns (H, out @ txt)))"
      using assms(4,5) k unfolding line by (auto intro!: ends_in_continue_pair simp: Let_def)
  qed
  moreover note map_nth_upt [of ?text procs]
  ultimately show ?thesis
    by (simp only: print_intra_process_simi_mr_def enumerate_eq_map for_all_map prod.case append_Nil Let_def)
qed

text \<open>A process with two equal regions.\<close>

definition two_regions :: "int \<Rightarrow> u64 process" where
  "two_regions pid = (proc_init pid)\<lparr>pr_maps := Some [sample_region, sample_region]\<rparr>"

lemma sample_keys_of: "region_keys nonzero sample_region = [7, 7]" "region_keys candidate sample_region = [7]"
  using sample_keys [of 1] by (simp_all add: process_keys_def sample_process_def)

lemma two_regions_fit: "process_fits (two_regions pid)"
proof -
  have "process_ok counted_page (sample_process pid)" by (rule process_fitsD [OF sample_fits])
  then have "process_ok counted_page (two_regions pid)"
    by (simp add: process_ok_def sample_process_def two_regions_def)
  then show ?thesis by (simp add: process_fits_def process_keys_def two_regions_def sample_keys_of INT_MAX_def)
qed

theorem print_intra_process_simi_mr_correct_witness:
  "ends_in {- 1} (\<lambda>(H', out). models H' Map.empty Map.empty \<and> out = ''1 2 [heap]'' @ [newline] @ ''1 2 [heap]'' @ [newline])
    (print_intra_process_simi_mr pool_alloc (\<lambda>n. True) (\<lambda>k i. if i = 0 then 64 else 128) (\<lambda>k i. (192, 256))
      [two_regions 1] empty_heap)"
proof -
  let ?blk = "\<lambda>(k :: nat) (i :: nat). if i = 0 then 64 else 128 :: ptr" and ?rblk = "\<lambda>(k :: nat) (i :: nat). (192, 256) :: ptr \<times> ptr"
  let ?ms = "[sample_region, sample_region]"
  have ups: "[0..<length ?ms] = [0, 1]" by (simp add: upt_rec)
  have maps: "pr_maps (two_regions 1) = Some ?ms" by (simp add: two_regions_def)
  have f: "filter (\<lambda>k. \<exists>j < length ?ms. j \<noteq> i \<and> k \<in> set (region_keys nonzero (?ms ! j))) [7, 7] = [7, 7]"
    if "i < 2" for i
    using that by (auto simp: sample_maps less_2_cases_iff intro: exI [of _ "1 - i"])
  have b: "\<forall>k < length [two_regions 1]. let n = length (the (pr_maps ([two_regions 1] ! k))) in
      blocks_ok (map (?blk k) [0..<n]) (Map.empty :: ptr \<rightharpoonup> u32 multiset) \<and>
      (\<forall>i < n. blocks_ok (fst (?rblk k i) # snd (?rblk k i) # map (?blk k) [0..<n]) (Map.empty :: ptr \<rightharpoonup> u32 multiset))"
    by (simp only: Let_def) (auto simp: maps ups [simplified] blocks_ok_def)
  have zero_less_two: "0 < (2 :: nat)" and one_less_two: "1 < (2 :: nat)" by simp_all
  have line: "(let dup = length (filter (\<lambda>k. \<exists>j < length ?ms. j \<noteq> i \<and> k \<in> set (region_keys nonzero (?ms ! j)))
              (region_keys nonzero (?ms ! i)))
        in if dup = 0 then []
           else fmt_d (int (length (region_keys nonzero (?ms ! i))) - int (card (set (region_keys candidate (?ms ! i))))) @
             '' '' @ fmt_d (int dup) @ '' '' @ pathname (?ms ! i) @ [newline]) = ''1 2 [heap]'' @ [newline]"
    if i: "i < 2" for i
  proof -
    have m: "?ms ! i = sample_region" using i by (auto simp: less_2_cases_iff)
    show ?thesis
      unfolding m sample_keys_of f [OF i]
      by (simp add: sample_maps(2) fmt_d_eval)
  qed
  have "concat (map (\<lambda>p. let ms = the (pr_maps p) in concat (map (\<lambda>i.
        let dup = length (filter (\<lambda>k. \<exists>j < length ms. j \<noteq> i \<and> k \<in> set (region_keys nonzero (ms ! j)))
              (region_keys nonzero (ms ! i)))
        in if dup = 0 then []
           else fmt_d (int (length (region_keys nonzero (ms ! i))) - int (card (set (region_keys candidate (ms ! i))))) @
             '' '' @ fmt_d (int dup) @ '' '' @ pathname (ms ! i) @ [newline]) [0..<length ms])) [two_regions 1])
      = ''1 2 [heap]'' @ [newline] @ ''1 2 [heap]'' @ [newline]" (is "?out = _")
    unfolding list.map maps option.sel Let_def [of ?ms] ups line [OF zero_less_two] line [OF one_less_two] by simp
  moreover have "ends_in {- 1} (\<lambda>(H', out). models H' Map.empty Map.empty \<and> out = ?out)
      (print_intra_process_simi_mr pool_alloc (\<lambda>n. True) ?blk ?rblk [two_regions 1] empty_heap)"
    by (rule print_intra_process_simi_mr_correct [OF pool.malloc models_empty _ _ b]) (simp_all add: two_regions_fit)
  ultimately show ?thesis by simp
qed

end
