(* ===== verification/Cmp.thy ===== *)
theory Cmp
  imports Setcmp_Loops
begin

text \<open>
  \<open>cmp.c\<close>: the regions of two processes compared in pairs, and the pairs printed in the order of
  the number of pages of the first found in the second. \<open>qsort\<close> is a parameter: the standard
  fixes its result up to the order of pairs that compare equal.
\<close>

section \<open>Definitions\<close>

record redund =
  rd_dup :: int
  rd_m1 :: mem_reg
  rd_m2 :: mem_reg

definition build_set_from_mr :: "(heap \<Rightarrow> ptr \<times> rb_node) \<Rightarrow> ptr \<Rightarrow> mem_reg \<Rightarrow> heap \<Rightarrow> (ptr \<times> heap) outcome" where
  "build_set_from_mr md blk mr H =
     continue (defined (set_init blk H)) (\<lambda>(s, H).
     continue (for_pages mr (\<lambda>page H.
         continue (skipped page) (\<lambda>skip.
         if skip then Returns H
         else continue (page_to_u32 page) (\<lambda>v.
           continue (new_data md v H) (\<lambda>(d, H). defined (set_add s d H)))) ) H) (\<lambda>H. Returns (s, H)))"

definition comp_redunds :: "redund \<Rightarrow> redund \<Rightarrow> int" where
  "comp_redunds a b = rd_dup a - rd_dup b"

text \<open>One array of sets, one per region, in a block of \<open>n\<close> pointers.\<close>

definition build_sets ::
  "(heap \<Rightarrow> ptr \<times> rb_node) \<Rightarrow> (nat \<Rightarrow> bool) \<Rightarrow> (nat \<Rightarrow> ptr) \<Rightarrow> 'f process \<Rightarrow> int \<Rightarrow> heap \<Rightarrow> (ptr list \<times> heap) outcome" where
  "build_sets md granted blk p n =
     fill_sets (if granted (8 * nat n) then nat n else 0)
       (\<lambda>s i H. continue (proc_get_mr p i) (\<lambda>m. build_set_from_mr md s m H)) blk (upto_int n)"

text \<open>The two nested loops that fill \<open>redunds\<close>; the index \<open>i * n2 + j\<close> is the one after the last.\<close>

definition pair_redunds ::
  "'f process \<Rightarrow> 'f process \<Rightarrow> ptr list \<Rightarrow> ptr list \<Rightarrow> int \<Rightarrow> int \<Rightarrow> heap \<Rightarrow> redund list outcome" where
  "pair_redunds p1 p2 sets1 sets2 n1 n2 H =
     for_all (upto_int n1) (\<lambda>i. for_all (upto_int n2) (\<lambda>j rs.
       continue (defined (set_found_in (sets1 ! nat i) (sets2 ! nat j) H)) (\<lambda>dup.
       continue (proc_get_mr p1 i) (\<lambda>m1.
       continue (proc_get_mr p2 j) (\<lambda>m2.
       Returns (rs @ [\<lparr>rd_dup = dup, rd_m1 = m1, rd_m2 = m2\<rparr>])))))) []"

definition redund_line :: "redund \<Rightarrow> string" where
  "redund_line r =
     fmt_d (rd_dup r) @ ''/'' @ fmt_d (mr_page_num (rd_m1 r)) @ ''/'' @ fmt_d (mr_page_num (rd_m2 r)) @ '' '' @
     mr_get_name (rd_m1 r) @ '' '' @ fmt_lx (mr_get_start (rd_m1 r)) @ '' '' @
     mr_get_name (rd_m2 r) @ '' '' @ fmt_lx (mr_get_start (rd_m2 r)) @ [newline]"

text \<open>\<open>for (i = 0; i < total; i++)\<close> over the sorted array.\<close>

fun print_redunds :: "redund list \<Rightarrow> string \<Rightarrow> string" where
  "print_redunds [] out = out"
| "print_redunds (r # rs) out =
     (if rd_dup r = 0 then print_redunds rs out else print_redunds rs (out @ redund_line r))"

text \<open>
  The array of pairs and what is printed of it. The product \<open>n1 * n2\<close> is an \<open>int\<close>; when \<open>malloc\<close>
  has no room for the array, only that is reported.
\<close>

definition simi_text ::
  "(nat \<Rightarrow> bool) \<Rightarrow> (redund list \<Rightarrow> redund list) \<Rightarrow> 'f process \<Rightarrow> 'f process \<Rightarrow> ptr list \<Rightarrow> ptr list \<Rightarrow> int \<Rightarrow> int \<Rightarrow>
    heap \<Rightarrow> string outcome" where
  "simi_text granted qsort p1 p2 sets1 sets2 n1 n2 H =
     (if \<not> granted (nat (24 * n1 * n2) mod 2 ^ 64) then Returns (''print_simi:69, alloc failed'' @ [newline])
      else if n1 * n2 > INT_MAX then Undefined
      else continue (pair_redunds p1 p2 sets1 sets2 n1 n2 H) (\<lambda>rs.
        Returns (print_redunds (qsort rs) [])))"

definition print_simi ::
  "(heap \<Rightarrow> ptr \<times> rb_node) \<Rightarrow> (nat \<Rightarrow> bool) \<Rightarrow> (redund list \<Rightarrow> redund list) \<Rightarrow> (nat \<Rightarrow> ptr) \<Rightarrow> (nat \<Rightarrow> ptr) \<Rightarrow>
    'f process \<Rightarrow> 'f process \<Rightarrow> heap \<Rightarrow> (heap \<times> string) outcome" where
  "print_simi md granted qsort blk1 blk2 p1 p2 H =
     continue (proc_mr_num p1) (\<lambda>n1.
     continue (proc_mr_num p2) (\<lambda>n2.
     continue (build_sets md granted blk1 p1 n1 H) (\<lambda>(sets1, H).
     continue (build_sets md granted blk2 p2 n2 H) (\<lambda>(sets2, H).
     continue (simi_text granted qsort p1 p2 sets1 sets2 n1 n2 H) (\<lambda>out.
     continue (free_sets sets1 H) (\<lambda>H.
     continue (free_sets sets2 H) (\<lambda>H.
     Returns (H, out))))))))"

text \<open>\<open>main\<close>: both processes stay stopped until the report is printed.\<close>

definition cmp_main ::
  "'f kernel \<Rightarrow> ptrace_fun \<Rightarrow> (heap \<Rightarrow> ptr \<times> rb_node) \<Rightarrow> (nat \<Rightarrow> bool) \<Rightarrow> (redund list \<Rightarrow> redund list) \<Rightarrow>
    (nat \<Rightarrow> ptr) \<Rightarrow> (nat \<Rightarrow> ptr) \<Rightarrow> string list \<Rightarrow> env \<Rightarrow> heap \<Rightarrow> (int \<times> env) outcome" where
  "cmp_main K ptrace md granted qsort blk1 blk2 argv E H =
     (case argv of
        [] \<Rightarrow> Undefined
      | [name, arg1, arg2] \<Rightarrow>
          continue (atoi arg1) (\<lambda>pid1.
          continue (atoi arg2) (\<lambda>pid2.
          continue (proc_attach ptrace (proc_init pid1 :: 'f process) E) (\<lambda>(_, E).
          continue (proc_attach ptrace (proc_init pid2 :: 'f process) E) (\<lambda>(_, E).
          continue (proc_do K (proc_init pid1) E) (\<lambda>(p1, E).
          continue (proc_do K (proc_init pid2) E) (\<lambda>(p2, E).
          continue (proc_parse_pagemap K p1 E) (\<lambda>(p1, E).
          continue (proc_parse_pagemap K p2 E) (\<lambda>(p2, E).
          continue (Returns (say (''pid1 = '' @ fmt_d pid1 @ '', pid2 = '' @ fmt_d pid2 @ [newline]) E)) (\<lambda>E.
          continue (print_simi md granted qsort blk1 blk2 p1 p2 H) (\<lambda>(H, out).
          continue (proc_del p1 (proc_detach ptrace p2 (proc_detach ptrace p1 (say out E)))) (\<lambda>E.
          continue (proc_del p2 E) (\<lambda>E.
          Returns (0, mem_time_report E)))))))))))))
      | name # args \<Rightarrow> Returns (- 1, say (name @ '' <pid> <pid>'' @ [newline]) E))"

text \<open>What the standard promises of \<open>qsort\<close> with \<open>comp_redunds\<close>.\<close>

definition sorts_redunds :: "(redund list \<Rightarrow> redund list) \<Rightarrow> bool" where
  "sorts_redunds qsort \<longleftrightarrow> (\<forall>rs. mset (qsort rs) = mset rs \<and>
     sorted_wrt (\<lambda>a b. comp_redunds a b \<le> 0) (qsort rs))"

section \<open>What the loops compute\<close>

text \<open>How many of the candidates of one region, repetitions included, another region has too.\<close>

definition region_dup :: "mem_reg \<Rightarrow> mem_reg \<Rightarrow> int" where
  "region_dup m1 m2 =
     int (length (filter (\<lambda>k. k \<in> set (region_keys candidate m2)) (region_keys candidate m1)))"

definition redund_of :: "mem_reg \<Rightarrow> mem_reg \<Rightarrow> redund" where
  "redund_of m1 m2 = \<lparr>rd_dup = region_dup m1 m2, rd_m1 = m1, rd_m2 = m2\<rparr>"

lemma print_redunds_eq:
  "print_redunds rs out = out @ concat (map redund_line (filter (\<lambda>r. rd_dup r \<noteq> 0) rs))"
  by (induction rs arbitrary: out) simp_all

lemma build_set_from_mr_keys:
  assumes "region_ok counted_page mr"
  shows "build_set_from_mr md blk mr H = continue (defined (set_init blk H)) (\<lambda>(s, H).
    continue (for_all (region_keys candidate mr) (push_key md s) H) (\<lambda>H. Returns (s, H)))"
proof -
  have "for_pages mr (\<lambda>page H.
         continue (skipped page) (\<lambda>skip.
         if skip then Returns H
         else continue (page_to_u32 page) (\<lambda>v.
           continue (new_data md v H) (\<lambda>(d, H). defined (set_add s d H)))))
      = for_all (region_keys candidate mr) (push_key md s)" for s
    unfolding fun_eq_iff
    by (intro allI for_pages_select [OF assms]) (auto simp: skipped_eq hashed_page_reads counted_page_hashed push_key_def)
  then show ?thesis by (simp only: build_set_from_mr_def)
qed

lemma pair_redunds_eq:
  assumes "models H C D" and "pr_maps p1 = Some ms1" and "pr_maps p2 = Some ms2"
    and arr1: "\<And>i. i < length ms1 \<Longrightarrow> C (arr1 ! i) = Some (mset (region_keys candidate (ms1 ! i)))"
    and arr2: "\<And>j. j < length ms2 \<Longrightarrow> C (arr2 ! j) = Some (mset (region_keys candidate (ms2 ! j)))"
    and small: "\<And>m. m \<in> set ms1 \<Longrightarrow> int (length (region_keys candidate m)) \<le> INT_MAX"
  shows "pair_redunds p1 p2 arr1 arr2 (int (length ms1)) (int (length ms2)) H
    = Returns (concat (map (\<lambda>m1. map (redund_of m1) ms2) ms1))"
proof -
  have dup: "set_found_in (arr1 ! i) (arr2 ! j) H = Some (region_dup (ms1 ! i) (ms2 ! j))"
    if "i < length ms1" "j < length ms2" for i j
    using models_found_in [OF assms(1) arr1 [OF that(1)] arr2 [OF that(2)]] small that(1)
    by (simp add: region_dup_def flip: mset_filter)
  let ?inner = "\<lambda>i j rs. continue (defined (set_found_in (arr1 ! nat i) (arr2 ! nat j) H)) (\<lambda>dup.
       continue (proc_get_mr p1 i) (\<lambda>m1. continue (proc_get_mr p2 j) (\<lambda>m2.
       Returns (rs @ [\<lparr>rd_dup = dup, rd_m1 = m1, rd_m2 = m2\<rparr>]))))"
  have row: "for_all (upto_int (int (length ms2))) (?inner i) rs
      = Returns (rs @ map (redund_of (ms1 ! nat i)) ms2)" if i: "i \<in> set (upto_int (int (length ms1)))" for i rs
  proof -
    have "for_all (upto_int (int (length ms2))) (?inner i) rs
        = Returns (rs @ concat (map (\<lambda>j. [redund_of (ms1 ! nat i) (ms2 ! nat j)]) (upto_int (int (length ms2)))))"
      using i assms(2,3)
      by (intro for_all_collect) (auto simp: upto_int_def dup redund_of_def proc_get_mr_def)
    also have "concat (map (\<lambda>j. [redund_of (ms1 ! nat i) (ms2 ! nat j)]) (upto_int (int (length ms2))))
        = map (redund_of (ms1 ! nat i)) ms2"
      unfolding concat_map_singleton by (intro nth_equalityI) (auto simp: upto_int_def)
    finally show ?thesis .
  qed
  have "pair_redunds p1 p2 arr1 arr2 (int (length ms1)) (int (length ms2)) H
      = Returns ([] @ concat (map (\<lambda>i. map (redund_of (ms1 ! nat i)) ms2) (upto_int (int (length ms1)))))"
    unfolding pair_redunds_def by (rule for_all_collect) (rule row)
  also have "map (\<lambda>i. map (redund_of (ms1 ! nat i)) ms2) (upto_int (int (length ms1)))
      = map (\<lambda>m1. map (redund_of m1) ms2) ms1"
    by (intro nth_equalityI) (auto simp: upto_int_def)
  finally show ?thesis by simp
qed

section \<open>The report\<close>

definition regions_fit :: "'f process \<Rightarrow> bool" where
  "regions_fit p \<longleftrightarrow> process_ok counted_page p \<and>
     list_all (\<lambda>mr. int (length (region_keys candidate mr)) \<le> INT_MAX) (the (pr_maps p))"

context data_malloc
begin

lemma build_regions:
  assumes "models H C D" and "pr_maps p = Some ms" and "regions_fit p"
    and "blocks_ok (map blk [0..<length ms]) C" and "granted (8 * length ms)"
  shows "ends_in {- 1} (\<lambda>(arr, H'). arr = map blk [0..<length ms] \<and>
      models H' (with_sets C (map blk [0..<length ms]) (map (\<lambda>mr. mset (region_keys candidate mr)) ms)) D)
    (build_sets md granted blk p (int (length ms)) H)"
proof -
  have mr: "region_ok counted_page mr" "int (length (region_keys candidate mr)) \<le> INT_MAX" if "mr \<in> set ms" for mr
    using assms(2,3) that by (auto simp: regions_fit_def process_ok_def list_all_iff)
  have "ends_in {- 1} (\<lambda>(s', H'). s' = s \<and> models H' (C(s \<mapsto> mset (region_keys candidate mr))) D)
      (build_set_from_mr md s mr H)" if "mr \<in> set ms" "models H C D" "blocks_ok [s] C" for mr s H C
    using build [OF that(2,3) mr(2) [OF that(1)]] by (simp add: build_set_from_mr_keys [OF mr(1) [OF that(1)]])
  from fill_regions [OF this assms(1,2,4)] show ?thesis
    using assms(5) by (simp add: build_sets_def)
qed

end

text \<open>The pairs of regions in the order of the loops.\<close>

definition redunds_of :: "mem_reg list \<Rightarrow> mem_reg list \<Rightarrow> redund list" where
  "redunds_of ms1 ms2 = concat (map (\<lambda>m1. map (redund_of m1) ms2) ms1)"

context data_malloc
begin

lemma simi_report:
  assumes M: "models H C D" and p1: "pr_maps p1 = Some ms1" "regions_fit p1" and p2: "pr_maps p2 = Some ms2" "regions_fit p2"
    and blocks: "blocks_ok (map blk1 [0..<length ms1] @ map blk2 [0..<length ms2]) C"
    and granted: "\<forall>n. granted n" and small: "int (length ms1) * int (length ms2) \<le> INT_MAX"
  shows "ends_in {- 1} (\<lambda>(H', out). models H' C D \<and>
      out = concat (map redund_line (filter (\<lambda>r. rd_dup r \<noteq> 0) (qsort (redunds_of ms1 ms2)))))
    (print_simi md granted qsort blk1 blk2 p1 p2 H)" (is "ends_in _ ?Q _")
proof -
  let ?keys = "\<lambda>mr. mset (region_keys candidate mr)"
  let ?bs1 = "map blk1 [0..<length ms1]" and ?bs2 = "map blk2 [0..<length ms2]"
  let ?C1 = "with_sets C ?bs1 (map ?keys ms1)"
  let ?C2 = "with_sets ?C1 ?bs2 (map ?keys ms2)"
  have len: "length ?bs1 = length (map ?keys ms1)" "length ?bs2 = length (map ?keys ms2)" by simp_all
  note arrays = two_arrays [OF blocks len]
  have n: "proc_mr_num p1 = Returns (int (length ms1))" "proc_mr_num p2 = Returns (int (length ms2))"
    using p1 p2 by (auto simp: regions_fit_def process_ok_def intro: proc_mr_num_maps)
  let ?free = "\<lambda>out H. continue (free_sets ?bs1 H) (\<lambda>H. continue (free_sets ?bs2 H) (\<lambda>H. Returns (H, out)))"
  have report: "simi_text granted qsort p1 p2 ?bs1 ?bs2 (int (length ms1)) (int (length ms2)) H2
      = Returns (concat (map redund_line (filter (\<lambda>r. rd_dup r \<noteq> 0) (qsort (redunds_of ms1 ms2)))))"
    if "models H2 ?C2 D" for H2
  proof -
    have "int (length (region_keys candidate mr)) \<le> INT_MAX" if "mr \<in> set ms1" for mr
      using p1 that by (simp add: regions_fit_def list_all_iff)
    then have "pair_redunds p1 p2 ?bs1 ?bs2 (int (length ms1)) (int (length ms2)) H2
        = Returns (redunds_of ms1 ms2)"
      using arrays(4,5) unfolding redunds_of_def by (intro pair_redunds_eq [OF that p1(1) p2(1)]) simp_all
    then show ?thesis using granted small by (simp add: simi_text_def print_redunds_eq)
  qed
  have free: "\<exists>H4. ?free out H2 = Returns (H4, out) \<and> models H4 C D" if m: "models H2 ?C2 D" for out H2
  proof -
    have dist: "distinct ?bs1" "distinct ?bs2" "set ?bs1 \<inter> set ?bs2 = {}"
      using blocks by (auto simp: blocks_ok_def)
    obtain H3 where H3: "free_sets ?bs1 H2 = Returns H3" "models H3 (?C2 |` (- set ?bs1)) D"
      using free_all [OF m _ dist(1)] arrays(3) by blast
    have "set ?bs2 \<subseteq> dom (?C2 |` (- set ?bs1))" using arrays(3) dist(3) by auto
    then show ?thesis using free_all [OF H3(2) _ dist(2)] arrays(6) H3(1) by auto
  qed
  show ?thesis
    unfolding print_simi_def n continue.simps
  proof (rule ends_in_continue_pair [OF build_regions [OF M p1 arrays(1)]])
    fix arr1 H1 assume H1: "arr1 = ?bs1 \<and> models H1 ?C1 D"
    show "ends_in {- 1} ?Q (continue (build_sets md granted blk2 p2 (int (length ms2)) H1) (\<lambda>(arr2, H).
        continue (simi_text granted qsort p1 p2 arr1 arr2 (int (length ms1)) (int (length ms2)) H) (\<lambda>out.
        continue (free_sets arr1 H) (\<lambda>H. continue (free_sets arr2 H) (\<lambda>H. Returns (H, out))))))"
    proof (rule ends_in_continue_pair [OF build_regions [OF conjunct2 [OF H1] p2 arrays(2)]])
      fix arr2 H2 assume "arr2 = ?bs2 \<and> models H2 ?C2 D"
      then show "ends_in {- 1} ?Q (continue (simi_text granted qsort p1 p2 arr1 arr2 (int (length ms1)) (int (length ms2)) H2) (\<lambda>out.
          continue (free_sets arr1 H2) (\<lambda>H. continue (free_sets arr2 H) (\<lambda>H. Returns (H, out)))))"
        using H1 report [of H2]
          free [of H2 "concat (map redund_line (filter (\<lambda>r. rd_dup r \<noteq> 0) (qsort (redunds_of ms1 ms2))))"]
        by (elim conjE exE) (simp, fastforce)
    qed (use granted in simp)
  qed (use granted in simp)
qed

end

end
