(* ===== verification/Memdump.thy ===== *)
theory Memdump
  imports Setcmp_Loops
begin

text \<open>
  \<open>memdump.c\<close>: the statistics of the maps file, the pages that are not zero by region, and the
  dump of all mapped pages. All of this goes to \<open>stderr\<close>, the usage alone to \<open>stdout\<close>.
\<close>

section \<open>Definitions\<close>

definition maps_stat :: "'f kernel \<Rightarrow> int \<Rightarrow> string outcome" where
  "maps_stat K pid =
     continue (proc_do_maps K (proc_init pid)) (\<lambda>p.
     continue (for_regions p (\<lambda>mr nr_anon.
         if mr_is_anon mr then defined (int_add nr_anon 1) else Returns nr_anon) 0) (\<lambda>nr_anon.
     continue (proc_mr_num p) (\<lambda>n.
     Returns (fmt_d nr_anon @ '' '' @ fmt_d n @ [newline]))))"

text \<open>The line of one region.\<close>

definition nonzero_line :: "mem_reg \<Rightarrow> string \<Rightarrow> string outcome" where
  "nonzero_line mr out =
     continue (for_pages mr (\<lambda>page n.
         continue (page_is_zero page) (\<lambda>zero. if \<not> zero then defined (int_add n 1) else Returns n)) 0)
       (\<lambda>nr_nonzero. Returns
         (out @ fmt_d (mr_page_num mr) @ '' '' @ fmt_d nr_nonzero @ '' '' @ mr_get_name mr @ [newline]))"

definition nonzero_stat :: "'f kernel \<Rightarrow> int \<Rightarrow> env \<Rightarrow> (string \<times> env) outcome" where
  "nonzero_stat K pid E =
     continue (proc_do K (proc_init pid) E) (\<lambda>(p, E).
     continue (for_regions p nonzero_line []) (\<lambda>out. Returns (out, E)))"

definition memdump_usage :: "string \<Rightarrow> string" where
  "memdump_usage name =
     name @ '' <pid>'' @ [newline] @ name @ '' <pid> -m'' @ [newline] @
     ''          print maps info'' @ [newline] @ name @ '' <pid> -n'' @ [newline] @
     ''          nonzero count'' @ [newline]"

text \<open>
  \<open>main\<close>, with the exit status and what went to \<open>stdout\<close>; \<open>stderr\<close> is part of the state.
\<close>

definition memdump_main :: "'f kernel \<Rightarrow> ptrace_fun \<Rightarrow> string list \<Rightarrow> env \<Rightarrow> (int \<times> string \<times> env) outcome" where
  "memdump_main K ptrace argv E =
     (case argv of
        [] \<Rightarrow> Undefined
      | [name, arg] \<Rightarrow>
          continue (atoi arg) (\<lambda>pid.
          continue (read_process K ptrace (proc_init pid) E) (\<lambda>(p, E).
          continue (proc_print_pages p) (\<lambda>out.
          continue (proc_del p (say out E)) (\<lambda>E. Returns (0, [], mem_time_report E)))))
      | [name, arg, opt] \<Rightarrow>
          if opt = ''-m'' then
            continue (atoi arg) (\<lambda>pid. continue (maps_stat K pid) (\<lambda>out. Returns (0, [], say out E)))
          else if opt = ''-n'' then
            continue (atoi arg) (\<lambda>pid. continue (nonzero_stat K pid E) (\<lambda>(out, E). Returns (0, [], say out E)))
          else Returns (0, memdump_usage name, E)
      | name # args \<Rightarrow> Returns (0, memdump_usage name, E))"

section \<open>Counting\<close>

lemma nonzero_line_eq:
  assumes "region_ok hashed_page mr"
  shows "nonzero_line mr out = Returns (out @ fmt_d (int (page_total mr)) @ '' '' @
    fmt_d (int (length (region_keys nonzero mr))) @ '' '' @ pathname mr @ [newline])"
proof -
  have "page_total mr < 2 ^ 31" using assms by (simp add: region_ok_def)
  then show ?thesis
    using mr_nonzero_num_eq [OF assms]
    by (simp add: nonzero_line_def mr_nonzero_num_def mr_page_num_exact mr_get_name_def)
qed

section \<open>The maps statistics\<close>

lemma maps_stat_entries:
  fixes K :: "'f kernel"
  assumes "k_maps K pid = Some (concat (map show_entry es))" and "\<forall>e \<in> set es. entry_ok e"
    and "\<forall>n. k_malloc K n" and "int (length es) \<le> INT_MAX"
  defines "ms \<equiv> filter (keep_region False 0) (map region_of es)"
  shows "maps_stat K pid = Returns (fmt_d (int (length (filter mr_is_anon ms))) @ '' '' @
    fmt_d (int (length ms)) @ [newline])"
proof -
  have "clean None" "length [] < (4::nat)" "(4::nat) \<le> max 4 (2 * (length [] + 1))"
    by (simp_all add: clean_def)
  then obtain cap where loop: "parse_maps_loop K False 0 (concat (map show_entry es)) 4 [] None = Returns (ms, cap)"
    using parse_maps_loop_entries [OF assms(2,3), of None "[]" 4 False 0] by (auto simp: ms_def)
  let ?p = "(proc_init pid :: 'f process)\<lparr>pMapsFile := Some (concat (map show_entry es))\<rparr>"
  have "proc_do_maps K (proc_init pid) = Returns (?p\<lparr>pr_maps := Some ms, maps_cap := cap, pMapsFile := Some []\<rparr>)"
    using assms(1,3) loop
    by (simp add: proc_do_maps_def open_file_maps_def open_proc_file_def parse_maps_def proc_init_def)
  then obtain q :: "'f process" where do_maps: "proc_do_maps K (proc_init pid) = Returns q" and q: "pr_maps q = Some ms"
    by simp
  have "length ms \<le> length es" unfolding ms_def by (metis length_filter_le length_map)
  then have len: "int (length ms) \<le> INT_MAX" using assms(4) by linarith
  then have "int (length ms) < int (2 ^ 31)" by (simp add: INT_MAX_def)
  then have small: "length ms < 2 ^ 31" by (simp only: of_nat_less_iff)
  note num = proc_mr_num_maps [OF q small]
  have "for_regions q (\<lambda>mr n. if mr_is_anon mr then defined (int_add n 1) else Returns n) 0
      = for_all ms (\<lambda>mr n. if mr_is_anon mr then defined (int_add n 1) else Returns n) 0"
    by (simp add: for_regions_def num for_all_upto for_all_regions [OF q])
  also have "\<dots> = Returns (0 + int (length (filter mr_is_anon ms)))"
    using len by (intro for_all_count) auto
  finally show ?thesis by (simp add: maps_stat_def do_maps num)
qed

section \<open>Pages of a memory image\<close>

lemma pages_of_image:
  "pages_of (with_image img mr) = map (\<lambda>j. \<lparr>pg_hash = Some (page_hash (img (page_addr mr j))), pg_share = None\<rparr>)
     [0..<page_total mr]"
  "page_total (with_image img mr) = page_total mr" "pathname (with_image img mr) = pathname mr"
  by (simp_all add: with_image_def pages_of_def page_total_def)

lemma nonzero_line_image:
  assumes "page_aligned mr (page_total mr)"
  shows "nonzero_line (with_image img mr) out = Returns (out @ fmt_d (int (page_total mr)) @ '' '' @
    fmt_d (int (card {j. j < page_total mr \<and> page_hash (img (page_addr mr j)) \<noteq> 0})) @ '' '' @
    pathname mr @ [newline])"
proof -
  have "page_total mr < 2 ^ 31" using assms by (simp add: page_aligned_def)
  then have "region_ok hashed_page (with_image img mr)"
    by (auto simp: region_ok_def pages_of_image list_all_iff hashed_page_def) (simp add: with_image_def)
  moreover have "length (region_keys nonzero (with_image img mr))
      = card {j. j < page_total mr \<and> page_hash (img (page_addr mr j)) \<noteq> 0}"
  proof -
    have "length (region_keys nonzero (with_image img mr))
        = length (filter (\<lambda>j. page_hash (img (page_addr mr j)) \<noteq> 0) [0..<page_total mr])"
      by (simp add: region_keys_def pages_of_image(1) filter_map comp_def nonzero_def page_key_def zero_page_hash_eq)
    also have "\<dots> = card {j. j < page_total mr \<and> page_hash (img (page_addr mr j)) \<noteq> 0}"
      by (subst distinct_card [symmetric]) (auto intro: arg_cong [where f = card])
    finally show ?thesis .
  qed
  ultimately show ?thesis using nonzero_line_eq by (simp add: pages_of_image(2,3))
qed

lemma nonzero_stat_image:
  fixes K :: "'f kernel"
  assumes "k_maps K pid = Some (concat (map show_entry es))" and "k_mem K pid = Some f"
    and "0 \<le> k_open K (proc_path pid ''pagemap'') (dom (fds E))"
    and "entries_ok es" and "\<forall>n. k_malloc K n"
    and "length es < 2 ^ 31" and "clock_ok K" and "watch_ok K E" and "serves_memory K f img"
  shows "\<exists>E'. nonzero_stat K pid E = Returns (concat (map (\<lambda>mr. fmt_d (int (page_total mr)) @ '' '' @
      fmt_d (int (card {j. j < page_total mr \<and> page_hash (img (page_addr mr j)) \<noteq> 0})) @ '' '' @
      pathname mr @ [newline]) (anon_regions es)), E') \<and> err E' = err E \<and> traced E' = traced E \<and>
    fds E' = (fds E)(k_open K (proc_path pid ''pagemap'') (dom (fds E)) \<mapsto> proc_path pid ''pagemap'')"
proof -
  have pid: "pr_pid (proc_init pid :: 'f process) = pid" by (simp add: proc_init_def)
  obtain p' :: "'f process" and E' where p': "proc_do K (proc_init pid) E = Returns (p', E')"
    "pr_maps p' = Some (map (with_image img) (anon_regions es))" "err E' = err E" "traced E' = traced E"
    "fds E' = (fds E)(k_open K (proc_path pid ''pagemap'') (dom (fds E)) \<mapsto> proc_path pid ''pagemap'')"
    using proc_do_image [of K "proc_init pid" es f E img] assms(1-5,7-9) unfolding pid by fastforce
  have "length (map (with_image img) (anon_regions es)) < 2 ^ 31"
    using length_anon_regions [of es] assms(6) by simp
  then have "for_regions p' nonzero_line [] = for_all (map (with_image img) (anon_regions es)) nonzero_line []"
    by (simp add: for_regions_def proc_mr_num_maps [OF p'(2)] for_all_upto
        for_all_regions [OF p'(2), unfolded length_map])
  also have "\<dots> = Returns ([] @ concat (map (\<lambda>mr. fmt_d (int (page_total mr)) @ '' '' @
      fmt_d (int (card {j. j < page_total mr \<and> page_hash (img (page_addr mr j)) \<noteq> 0})) @ '' '' @
      pathname mr @ [newline]) (anon_regions es)))"
    unfolding for_all_map
    by (rule for_all_collect) (rule nonzero_line_image [OF anon_regions_aligned [OF assms(4)]])
  finally show ?thesis using p'(3-5) by (simp add: nonzero_stat_def p'(1))
qed

end
