(* ===== verification/Tools_Spec.thy ===== *)
theory Tools_Spec
  imports Setcmp_Spec Cmp Memdump Mem_Spec
begin

text \<open>
  What \<open>cmp\<close> and \<open>memdump\<close> report: the pairs of regions in the order of their common pages, and the
  statistics of the maps file and of the memory of a process.
\<close>

section \<open>Pairs of regions\<close>

text \<open>
  C37: For any \<open>qsort\<close> that sorts, \<open>print_simi\<close> prints a line for every pair of regions of the two
  processes that have a page in common, in ascending order of the number of pages of the first
  region, neither zero nor shared and counted with repetitions, whose hash is also that of such
  a page of the second. Every set it made is freed.
\<close>

theorem print_simi_correct:
  assumes "malloc_ok md" and "sorts_redunds qsort" and "models H C D"
    and "pr_maps p1 = Some ms1" and "regions_fit p1" and "pr_maps p2 = Some ms2" and "regions_fit p2"
    and "blocks_ok (map blk1 [0..<length ms1] @ map blk2 [0..<length ms2]) C"
    and "\<forall>n. granted n" and "int (length ms1) * int (length ms2) \<le> INT_MAX"
  shows "ends_in {- 1} (\<lambda>(H', out). models H' C D \<and>
      (\<exists>rs. mset rs = mset (redunds_of ms1 ms2) \<and> sorted (map rd_dup rs) \<and>
        out = concat (map redund_line (filter (\<lambda>r. rd_dup r \<noteq> 0) rs))))
    (print_simi md granted qsort blk1 blk2 p1 p2 H)"
proof -
  let ?rs = "qsort (redunds_of ms1 ms2)"
  have "mset ?rs = mset (redunds_of ms1 ms2)" "sorted (map rd_dup ?rs)"
    using assms(2) by (simp_all add: sorts_redunds_def comp_redunds_def sorted_map)
  then have "ends_in {- 1} (\<lambda>(H', out). models H' C D \<and>
      out = concat (map redund_line (filter (\<lambda>r. rd_dup r \<noteq> 0) ?rs)))
    (print_simi md granted qsort blk1 blk2 p1 p2 H) \<and> mset ?rs = mset (redunds_of ms1 ms2) \<and>
    sorted (map rd_dup ?rs)"
    using data_malloc.simi_report [OF data_malloc.intro [OF assms(1)] assms(3-10)] by simp
  then show ?thesis by (auto elim!: ends_in_mono)
qed

lemma sort_key_sorts: "sorts_redunds (sort_key rd_dup)"
  using sorted_sort_key [of "rd_dup :: redund \<Rightarrow> int"] by (simp add: sorts_redunds_def comp_redunds_def sorted_map)

lemma sample_regions_fit: "regions_fit (sample_process pid)"
proof -
  have "process_ok counted_page (sample_process pid)" using sample_fits by (simp add: process_fits_def)
  moreover have "region_keys candidate sample_region = [7]"
    using sample_keys(2) [of pid] by (simp add: process_keys_def sample_process_def)
  ultimately show ?thesis by (simp add: regions_fit_def sample_process_def INT_MAX_def)
qed

theorem print_simi_correct_witness:
  "ends_in {- 1} (\<lambda>(H', out). models H' Map.empty Map.empty)
    (print_simi pool_alloc (\<lambda>n. True) (sort_key rd_dup) (\<lambda>i. 64) (\<lambda>i. 128)
      (sample_process 1) (sample_process 2) empty_heap)"
proof -
  have "blocks_ok (map (\<lambda>i. 64) [0..<length [sample_region]] @ map (\<lambda>i. 128) [0..<length [sample_region]])
      (Map.empty :: ptr \<rightharpoonup> u32 multiset)"
    by (simp add: blocks_ok_def)
  moreover have "pr_maps (sample_process pid) = Some [sample_region]" for pid
    by (simp add: sample_process_def)
  ultimately show ?thesis
    using print_simi_correct [OF pool.malloc sort_key_sorts models_empty _ sample_regions_fit _ sample_regions_fit,
        of 1 "[sample_region]" 2 "[sample_region]" "\<lambda>i. 64" "\<lambda>i. 128" "\<lambda>n. True"]
    by (simp add: INT_MAX_def) (auto elim!: ends_in_mono)
qed

section \<open>Statistics\<close>

text \<open>
  \<open>memdump <pid> -n\<close> on a process whose maps file the kernel wrote and whose memory can be read
  prints for every anonymous region, in order, its number of pages, how many of them do not
  hash to zero, and its name.
\<close>

theorem nonzero_stat_correct:
  fixes K :: "'f kernel"
  assumes "k_maps K pid = Some (concat (map show_entry es))" and "k_mem K pid = Some f"
    and "0 \<le> k_open K (proc_path pid ''pagemap'') (dom (fds E))"
    and "\<forall>e \<in> set es. entry_ok e \<and> (\<exists>n. page_aligned (region_of e) n)" and "\<forall>n. k_malloc K n"
    and "length es < 2 ^ 31" and "clock_ok K" and "watch_ok K E" and "serves_memory K f img"
  shows "\<exists>E'. nonzero_stat K pid E = Returns (concat (map (\<lambda>mr. fmt_d (int (page_total mr)) @ '' '' @
      fmt_d (int (card {j. j < page_total mr \<and> page_hash (img (page_addr mr j)) \<noteq> 0})) @ '' '' @
      pathname mr @ [newline]) (filter (\<lambda>mr. mr_is_anon mr \<and> 0 < page_total mr) (map region_of es))), E')"
  using nonzero_stat_image [OF assms(1-3) _ assms(5-9)] assms(4) by (auto simp: entries_ok_def anon_regions_def)

text \<open>A memory that is zero but for the first byte of one page.\<close>

definition sample_image :: "u64 \<Rightarrow> u8 list" where
  "sample_image a = (if a = 4096 then 1 else 0) # replicate 4095 0"

definition image_kernel :: "u64 kernel" where
  "image_kernel = full_kernel\<lparr>k_fread := (\<lambda>f. (sample_image f, f + of_nat pageSize))\<rparr>"

lemma image_kernel_serves: "serves_memory image_kernel f sample_image"
  unfolding serves_memory_def
  by (intro conjI exI [of _ "\<lambda>a. a"])
    (simp_all add: image_kernel_def full_kernel_def sample_kernel_def sample_image_def pageSize_def)

lemma image_clock: "clock_ok image_kernel" "watch_ok image_kernel sample_env"
  using sample_clock by (simp_all add: clock_ok_def watch_ok_def image_kernel_def full_kernel_def)

theorem nonzero_stat_correct_witness:
  "\<exists>E'. nonzero_stat image_kernel 7 sample_env = Returns (concat (map (\<lambda>mr. fmt_d (int (page_total mr)) @ '' '' @
      fmt_d (int (card {j. j < page_total mr \<and> page_hash (sample_image (page_addr mr j)) \<noteq> 0})) @ '' '' @
      pathname mr @ [newline]) (filter (\<lambda>mr. mr_is_anon mr \<and> 0 < page_total mr) (map region_of [sample_entry]))), E')"
proof (rule nonzero_stat_correct [OF _ _ _ _ _ _ image_clock image_kernel_serves, where f = 0])
  show "\<forall>e \<in> set [sample_entry]. entry_ok e \<and> (\<exists>n. page_aligned (region_of e) n)"
    using sample_entry_ok sample_aligned by auto
qed (simp_all add: image_kernel_def full_kernel_def sample_kernel_def)

text \<open>
  \<open>memdump <pid> -m\<close> prints how many of the regions with at least one page in the maps file the
  kernel wrote are anonymous, and how many there are; it reads no memory.
\<close>

theorem maps_stat_correct:
  fixes K :: "'f kernel"
  assumes "k_maps K pid = Some (concat (map show_entry es))" and "\<forall>e \<in> set es. entry_ok e"
    and "\<forall>n. k_malloc K n" and "int (length es) \<le> INT_MAX"
  shows "maps_stat K pid = (let ms = filter (keep_region False 0) (map region_of es) in
    Returns (fmt_d (int (length (filter mr_is_anon ms))) @ '' '' @ fmt_d (int (length ms)) @ [newline]))"
  unfolding Let_def by (rule maps_stat_entries [OF assms])

theorem maps_stat_correct_witness:
  "maps_stat full_kernel 7 = Returns (''1 1'' @ [newline])"
proof -
  have "mr_page_num (region_of sample_entry) = 2"
    using mr_page_num_exact [of "region_of sample_entry"]
    by (simp add: region_of_def sample_entry_def page_total_def pageSize_def)
  moreover have "mr_is_anon (region_of sample_entry)"
    by (simp add: region_of_def sample_entry_def mr_is_anon_def made_name_def)
  ultimately show ?thesis
    using maps_stat_correct [of full_kernel 7 "[sample_entry]"] sample_entry_ok
    by (simp add: full_kernel_def sample_kernel_def keep_region_def INT_MAX_def fmt_d_eval)
qed

end
