(* ===== verification/Tracing.thy ===== *)
theory Tracing
  imports Mem_Spec
begin

text \<open>
  \<open>proc_attach\<close> and \<open>proc_detach\<close> over the protocol of \<open>ptrace\<close>: what one call does, and what any
  sequence of calls can reach.
\<close>

section \<open>One call\<close>

lemma proc_attach_granted:
  assumes "may_attach ptrace (pr_pid p)" and "tracee_of (traced E) (pr_pid p) = Untraced"
  shows "proc_attach ptrace p E = Returns (0, E\<lparr>traced := traced E @ [(Attach, pr_pid p, 0)]\<rparr>)"
  using assms by (simp add: proc_attach_def request_def may_attach_def)

lemma proc_attach_refused:
  assumes "ptrace (traced E) Attach (pr_pid p) < 0"
  shows "proc_attach ptrace p E = Exits EXIT_FAILURE"
  using assms by (simp add: proc_attach_def request_def Let_def)

text \<open>A process that is traced cannot be attached to again.\<close>

lemma proc_attach_traced:
  assumes "ptrace_ok ptrace" and "tracee_of (traced E) (pr_pid p) \<noteq> Untraced"
  shows "proc_attach ptrace p E = Exits EXIT_FAILURE"
  using ptrace_answers(1) [OF assms] by (intro proc_attach_refused) simp

text \<open>The process goes on, so that it cannot be detached any more.\<close>

lemma proc_detach_eq:
  assumes "ptrace_ok ptrace"
  shows "proc_detach ptrace p E = E\<lparr>traced := traced E @
    [(Cont, pr_pid p, if tracee_of (traced E) (pr_pid p) = Stopped then 0 else - 1), (Detach, pr_pid p, - 1)]\<rparr>"
  by (simp add: proc_detach_def request_def Let_def ptrace_answers(2,3) [OF assms] tracee_of_append)

lemma tracee_of_other:
  "p \<noteq> pid \<Longrightarrow> tracee_of (h @ [(r, p, a)]) pid = tracee_of h pid"
  "tracee_of (h @ [(r, pid, a)]) pid = answered (tracee_of h pid) r a"
  by (simp_all add: tracee_of_append)

text \<open>What is asked of a process that is attached to, read, and let go, and with which answers.\<close>

definition visit :: "int \<Rightarrow> history" where
  "visit pid = [(Attach, pid, 0), (Cont, pid, 0), (Detach, pid, - 1)]"

lemma visit_detach:
  assumes "ptrace_ok ptrace" and "traced E = h @ [(Attach, pr_pid p, 0)]"
  shows "proc_detach ptrace p E = E\<lparr>traced := h @ visit (pr_pid p)\<rparr>"
  using assms by (simp add: proc_detach_eq tracee_of_append visit_def)

text \<open>Later visits do not touch a process; a visited one runs on, and is traced.\<close>

lemma visits_other: "pid \<notin> set pids \<Longrightarrow> tracee_of (h @ concat (map visit pids)) pid = tracee_of h pid"
  unfolding tracee_of_append by (rule tracee_after_other) (auto simp: visit_def)

lemma visits_running: "pid \<in> set pids \<Longrightarrow> tracee_of (h @ concat (map visit pids)) pid = Running"
proof (induction pids rule: rev_induct)
  case (snoc q pids)
  then show ?case
    by (cases "q = pid") (auto simp: tracee_of_append tracee_after_append visit_def)
qed simp

section \<open>Any sequence of calls\<close>

text \<open>What calls of \<open>proc_attach\<close> that return, and of \<open>proc_detach\<close>, make of a state, in any order.\<close>

inductive session :: "ptrace_fun \<Rightarrow> 'f process set \<Rightarrow> env \<Rightarrow> env \<Rightarrow> bool" for ptrace ps where
  start: "session ptrace ps E E"
| attached: "session ptrace ps E E1 \<Longrightarrow> p \<in> ps \<Longrightarrow> proc_attach ptrace p E1 = Returns (r, E2) \<Longrightarrow> session ptrace ps E E2"
| detached: "session ptrace ps E E1 \<Longrightarrow> p \<in> ps \<Longrightarrow> session ptrace ps E (proc_detach ptrace p E1)"

inductive_cases session_stepE: "session ptrace ps E E'"

lemma proc_attach_record:
  "proc_attach ptrace p E = Returns (r, E') \<Longrightarrow>
   \<exists>a. 0 \<le> a \<and> traced E' = traced E @ [(Attach, pr_pid p, a)]"
  by (auto simp: proc_attach_def request_def Let_def split: if_splits)



end
