(* ===== verification/Process_View.thy ===== *)
theory Process_View
  imports Setcmp_Loops Tracing
begin

text \<open>
  A process as the kernel shows it, and what is known of it once \<open>proc_do\<close> and
  \<open>proc_parse_pagemap\<close> have run: the keys the reports work on, from the memory, the pagemap and
  the counts of the page frames.
\<close>

section \<open>Views\<close>

record proc_view =
  v_entries :: "maps_entry list"
  v_image :: "u64 \<Rightarrow> u8 list"
  v_pagemap :: "nat \<Rightarrow> u64"

text \<open>The four files of a process, all in order.\<close>

definition shows_process :: "'f kernel \<Rightarrow> int \<Rightarrow> proc_view \<Rightarrow> bool" where
  "shows_process K pid V \<longleftrightarrow> k_maps K pid = Some (concat (map show_entry (v_entries V))) \<and>
     (\<exists>f. k_mem K pid = Some f \<and> serves_memory K f (v_image V)) \<and>
     serves K (proc_path pid ''pagemap'') (v_pagemap V) \<and>
     entries_ok (v_entries V) \<and> (\<forall>e \<in> set (v_entries V). unat (e_start e) mod pageSize = 0)"

text \<open>
  Descriptors are unused numbers, memory is granted, the two global files can be read, and the clock
  does not go back.
\<close>

definition kernel_ok :: "'f kernel \<Rightarrow> (nat \<Rightarrow> u64) \<Rightarrow> bool" where
  "kernel_ok K kc \<longleftrightarrow> (\<forall>name used. finite used \<longrightarrow> 0 \<le> k_open K name used \<and> k_open K name used \<notin> used) \<and>
     (\<forall>n. k_malloc K n) \<and> (\<exists>kf. serves K ''/proc/kpageflags'' kf) \<and> serves K ''/proc/kpagecount'' kc \<and> clock_ok K"

text \<open>The hash of the page at an address, its frame, and how often that is mapped.\<close>

definition hash_at :: "proc_view \<Rightarrow> u64 \<Rightarrow> u32" where
  "hash_at V va = page_hash (v_image V va)"

definition frame_at :: "proc_view \<Rightarrow> u64 \<Rightarrow> u64" where
  "frame_at V va = pagemap_pfn (v_pagemap V (unat va div pageSize))"

definition share_at :: "(nat \<Rightarrow> u64) \<Rightarrow> proc_view \<Rightarrow> u64 \<Rightarrow> int" where
  "share_at kc V va = to_int (kc (unat (frame_at V va)))"

definition region_addrs :: "mem_reg \<Rightarrow> u64 list" where
  "region_addrs mr = map (page_addr mr) [0..<page_total mr]"

definition view_addrs :: "proc_view \<Rightarrow> u64 list" where
  "view_addrs V = concat (map region_addrs (anon_regions (v_entries V)))"

text \<open>The pages that count: not zero, and of these the ones not shared.\<close>

definition lit_at :: "proc_view \<Rightarrow> u64 \<Rightarrow> bool" where
  "lit_at V va \<longleftrightarrow> hash_at V va \<noteq> 0"

definition own_at :: "(nat \<Rightarrow> u64) \<Rightarrow> proc_view \<Rightarrow> u64 \<Rightarrow> bool" where
  "own_at kc V va \<longleftrightarrow> lit_at V va \<and> share_at kc V va \<le> 1"

definition lit_keys :: "proc_view \<Rightarrow> u32 list" where
  "lit_keys V = map (hash_at V) (filter (lit_at V) (view_addrs V))"

definition own_keys :: "(nat \<Rightarrow> u64) \<Rightarrow> proc_view \<Rightarrow> u32 list" where
  "own_keys kc V = map (hash_at V) (filter (own_at kc V) (view_addrs V))"

text \<open>Sizes an int can hold, and a frame for every page that is not zero.\<close>

definition view_ok :: "proc_view \<Rightarrow> bool" where
  "view_ok V \<longleftrightarrow> length (v_entries V) < 2 ^ 31 \<and> int (length (view_addrs V)) \<le> INT_MAX \<and>
     (\<forall>va \<in> set (view_addrs V). lit_at V va \<longrightarrow> frame_at V va \<noteq> 0)"

text \<open>The regions after the two readers.\<close>

definition region_view :: "(nat \<Rightarrow> u64) \<Rightarrow> proc_view \<Rightarrow> mem_reg \<Rightarrow> mem_reg" where
  "region_view kc V mr = with_counts (v_pagemap V) kc (with_image (v_image V) mr)"

definition process_view :: "(nat \<Rightarrow> u64) \<Rightarrow> proc_view \<Rightarrow> mem_reg list" where
  "process_view kc V = map (region_view kc V) (anon_regions (v_entries V))"

section \<open>The keys of a region\<close>

text \<open>Whole pages from an aligned start.\<close>

definition whole_pages :: "mem_reg \<Rightarrow> bool" where
  "whole_pages mr \<longleftrightarrow> page_aligned mr (page_total mr) \<and> unat (mr_start mr) mod pageSize = 0"

lemma page_number:
  assumes "whole_pages mr" and "j < page_total mr"
  shows "unat (page_addr mr j) div pageSize = unat (mr_start mr) div pageSize + j"
proof -
  have e: "unat (mr_start mr) + pageSize * page_total mr = unat (mr_end mr)" "unat (mr_start mr) mod pageSize = 0"
    using assms(1) by (simp_all add: whole_pages_def page_aligned_def)
  have lim: "unat (mr_start mr) + pageSize * j < 2 ^ 64"
    using e(1) unsigned_less [of "mr_end mr", where ?'a = nat] assms(2)
    by (simp add: pageSize_def)
  then have "unat (of_nat (pageSize * j) :: u64) = pageSize * j"
    by (intro unat_small) simp
  then have "unat (page_addr mr j) = unat (mr_start mr) + pageSize * j"
    using lim by (simp add: page_addr_def unat_add_lem [THEN iffD1] del: of_nat_mult)
  then show ?thesis using e(2) by (simp add: pageSize_def)
qed

lemma region_view_simps [simp]:
  "mr_start (region_view kc V mr) = mr_start mr" "mr_end (region_view kc V mr) = mr_end mr"
  "pathname (region_view kc V mr) = pathname mr" "page_total (region_view kc V mr) = page_total mr"
  by (simp_all add: region_view_def with_counts_def with_image_def page_total_def)

lemma pages_of_region_view:
  assumes "whole_pages mr"
  shows "pages_of (region_view kc V mr) = map (\<lambda>va. \<lparr>pg_hash = Some (hash_at V va),
    pg_share = (if frame_at V va \<noteq> 0 then Some (share_at kc V va) else None)\<rparr>) (region_addrs mr)"
proof (rule nth_equalityI)
  have "length (mr_pages (region_view kc V mr)) = page_total mr + 1"
    by (simp add: region_view_def with_counts_def with_image_def)
  then show "length (pages_of (region_view kc V mr)) = length (map (\<lambda>va. \<lparr>pg_hash = Some (hash_at V va),
    pg_share = (if frame_at V va \<noteq> 0 then Some (share_at kc V va) else None)\<rparr>) (region_addrs mr))"
    by (simp add: pages_of_def region_addrs_def)
  fix j assume "j < length (pages_of (region_view kc V mr))"
  then have j: "j < page_total mr" by (simp add: pages_of_def)
  then show "pages_of (region_view kc V mr) ! j = map (\<lambda>va. \<lparr>pg_hash = Some (hash_at V va),
    pg_share = (if frame_at V va \<noteq> 0 then Some (share_at kc V va) else None)\<rparr>) (region_addrs mr) ! j"
    using page_number [OF assms j]
    by (simp add: pages_of_def region_addrs_def region_view_def with_counts_def with_image_def counted_def
        nth_append page_total_def hash_at_def frame_at_def share_at_def)
qed

lemma region_view_keys:
  assumes "whole_pages mr" and "\<forall>va \<in> set (region_addrs mr). lit_at V va \<longrightarrow> frame_at V va \<noteq> 0"
  shows "region_ok counted_page (region_view kc V mr)"
    and "region_keys nonzero (region_view kc V mr) = map (hash_at V) (filter (lit_at V) (region_addrs mr))"
    and "region_keys candidate (region_view kc V mr) = map (hash_at V) (filter (own_at kc V) (region_addrs mr))"
proof -
  note pages = pages_of_region_view [OF assms(1), of kc V]
  have "length (mr_pages (region_view kc V mr)) = page_total mr + 1"
    by (simp add: region_view_def with_counts_def with_image_def)
  moreover have "page_total mr < 2 ^ 31" using assms(1) by (simp add: whole_pages_def page_aligned_def)
  ultimately show "region_ok counted_page (region_view kc V mr)"
    using assms(2) by (auto simp: region_ok_def pages list_all_iff counted_page_def page_key_def lit_at_def zero_page_hash_eq)
  show "region_keys nonzero (region_view kc V mr) = map (hash_at V) (filter (lit_at V) (region_addrs mr))"
    by (simp add: region_keys_def pages filter_map comp_def nonzero_def page_key_def lit_at_def [abs_def] zero_page_hash_eq)
  have "filter (\<lambda>va. candidate \<lparr>pg_hash = Some (hash_at V va),
      pg_share = (if frame_at V va \<noteq> 0 then Some (share_at kc V va) else None)\<rparr>) (region_addrs mr)
    = filter (own_at kc V) (region_addrs mr)"
    using assms(2) by (intro filter_cong) (auto simp: candidate_def nonzero_def page_key_def lit_at_def own_at_def zero_page_hash_eq)
  then show "region_keys candidate (region_view kc V mr) = map (hash_at V) (filter (own_at kc V) (region_addrs mr))"
    by (simp add: region_keys_def pages filter_map comp_def page_key_def)
qed

section \<open>The keys of a process\<close>

lemma map_filter_concat: "map f (filter P (concat xss)) = concat (map (\<lambda>xs. map f (filter P xs)) xss)"
  by (induction xss) simp_all

lemma shown_regions:
  assumes "shows_process K pid V" and "mr \<in> set (anon_regions (v_entries V))"
  shows "whole_pages mr"
proof -
  have "page_aligned mr (page_total mr)"
    using assms by (intro anon_regions_aligned) (auto simp: shows_process_def)
  moreover obtain e where "e \<in> set (v_entries V)" "mr = region_of e"
    using assms(2) by (auto simp: anon_regions_def)
  ultimately show ?thesis
    using assms(1) by (auto simp: whole_pages_def shows_process_def region_of_def)
qed

lemma process_view_keys:
  fixes p :: "'f process"
  assumes "shows_process K pid V" and "view_ok V" and "pr_maps p = Some (process_view kc V)"
  shows "process_fits p" "process_keys nonzero p = lit_keys V" "process_keys candidate p = own_keys kc V"
proof -
  let ?mrs = "anon_regions (v_entries V)"
  have r: "whole_pages mr" "\<forall>va \<in> set (region_addrs mr). lit_at V va \<longrightarrow> frame_at V va \<noteq> 0"
    if "mr \<in> set ?mrs" for mr
    using shown_regions [OF assms(1) that] assms(2) that by (auto simp: view_ok_def view_addrs_def)
  show n: "process_keys nonzero p = lit_keys V"
    by (simp add: process_keys_def assms(3) process_view_def lit_keys_def view_addrs_def map_filter_concat comp_def
        region_view_keys(2) r cong: map_cong)
  show "process_keys candidate p = own_keys kc V"
    by (simp add: process_keys_def assms(3) process_view_def own_keys_def view_addrs_def map_filter_concat comp_def
        region_view_keys(3) r cong: map_cong)
  have "length ?mrs < 2 ^ 31"
    using length_anon_regions [of "v_entries V"] assms(2) by (simp add: view_ok_def)
  then have "process_ok counted_page p"
    using r by (auto simp: process_ok_def assms(3) process_view_def list_all_iff intro: region_view_keys(1))
  moreover have "int (length (lit_keys V)) \<le> int (length (view_addrs V))" by (simp add: lit_keys_def)
  ultimately show "process_fits p"
    using assms(2) n by (simp add: process_fits_def view_ok_def)
qed

section \<open>Reading it\<close>

definition view_swaps :: "proc_view \<Rightarrow> string" where
  "view_swaps V = concat (map (region_swaps (v_pagemap V)) (anon_regions (v_entries V)))"

text \<open>\<open>proc_do\<close> opens one file that stays open, \<open>proc_parse_pagemap\<close> another.\<close>

lemma proc_do_view:
  fixes p :: "'f process"
  assumes "kernel_ok K kc" and "shows_process K (pr_pid p) V" and "finite (dom (fds E))" and "watch_ok K E"
  shows "\<exists>p' fd. proc_do K p E = Returns (p', timed K (E\<lparr>fds := (fds E)(fd \<mapsto> proc_path (pr_pid p) ''pagemap'')\<rparr>)) \<and>
    0 \<le> fd \<and> fd \<notin> dom (fds E) \<and> pagemap_fd p' = fd \<and> pr_pid p' = pr_pid p \<and>
    pr_maps p' = Some (map (with_image (v_image V)) (anon_regions (v_entries V)))"
proof -
  let ?fd = "k_open K (proc_path (pr_pid p) ''pagemap'') (dom (fds E))"
  have fd: "0 \<le> ?fd" "?fd \<notin> dom (fds E)" and grant: "\<forall>n. k_malloc K n" "clock_ok K"
    using assms(1,3) unfolding kernel_ok_def by blast+
  obtain f where f: "k_maps K (pr_pid p) = Some (concat (map show_entry (v_entries V)))"
    "k_mem K (pr_pid p) = Some f" "entries_ok (v_entries V)" "serves_memory K f (v_image V)"
    using assms(2) unfolding shows_process_def by blast
  from proc_do_image [OF f(1,2) fd(1) f(3) grant assms(4) f(4)] fd show ?thesis by metis
qed

lemma proc_parse_view:
  fixes p :: "'f process"
  assumes "kernel_ok K kc" and "shows_process K (pr_pid p) V" and "finite (dom (fds E))"
    and "pr_maps p = Some (map (with_image (v_image V)) (anon_regions (v_entries V)))"
    and "fds E (pagemap_fd p) = Some (proc_path (pr_pid p) ''pagemap'')"
  shows "\<exists>fd E'. proc_parse_pagemap K p E = Returns (p\<lparr>pr_maps := Some (process_view kc V)\<rparr>, E') \<and>
    fd \<notin> dom (fds E) \<and> fds E' = (fds E)(fd \<mapsto> ''/proc/kpageflags'') \<and>
    err E' = err E @ view_swaps V \<and> traced E' = traced E \<and> watch E' = watch E \<and> ticks E' = ticks E"
proof -
  let ?mrs = "map (with_image (v_image V)) (anon_regions (v_entries V))"
  let ?fd1 = "k_open K ''/proc/kpageflags'' (dom (fds E))"
  let ?fd2 = "k_open K ''/proc/kpagecount'' (insert ?fd1 (dom (fds E)))"
  have "finite (insert ?fd1 (dom (fds E)))" using assms(3) by simp
  then have fd: "0 \<le> ?fd1" "?fd1 \<notin> dom (fds E)" "0 \<le> ?fd2" "?fd2 \<notin> insert ?fd1 (dom (fds E))"
    using assms(1,3) unfolding kernel_ok_def by blast+
  obtain kf where kf: "serves K ''/proc/kpageflags'' kf" "serves K ''/proc/kpagecount'' kc"
    using assms(1) unfolding kernel_ok_def by blast
  have pm: "serves K (proc_path (pr_pid p) ''pagemap'') (v_pagemap V)"
    using assms(2) by (simp add: shows_process_def)
  have "countable_region (with_image img mr)" if "mr \<in> set (anon_regions (v_entries V))" for img mr
  proof -
    have "page_total (with_image img mr) = page_total mr" by (simp add: with_image_def page_total_def)
    then show ?thesis
      using shown_regions [OF assms(2) that]
      by (simp add: countable_region_def whole_pages_def) (simp add: with_image_def page_aligned_def)
  qed
  then have ok: "\<forall>mr \<in> set ?mrs. countable_region mr" by auto
  have swaps: "region_swaps (v_pagemap V) (with_image img mr) = region_swaps (v_pagemap V) mr" for img mr
    by (simp add: region_swaps_def with_image_def page_total_def)
  have view: "map (with_counts (v_pagemap V) kc) ?mrs = process_view kc V"
    by (simp add: process_view_def region_view_def comp_def)
  note parsed = proc_parse_pagemap_counts [OF assms(4,5) pm kf refl fd(2,1) refl fd(4,3) ok, unfolded view]
  show ?thesis
    by (intro exI [of _ ?fd1] exI conjI, rule parsed, rule fd(2)) (simp_all add: view_swaps_def swaps comp_def)
qed

text \<open>A process that was read: its regions, and the descriptor it still holds.\<close>

definition process_read :: "(nat \<Rightarrow> u64) \<Rightarrow> proc_view \<Rightarrow> 'f process \<Rightarrow> bool" where
  "process_read kc V p \<longleftrightarrow> pr_maps p = Some (process_view kc V) \<and> 0 \<le> pagemap_fd p"

lemma read_process_view:
  fixes K :: "'f kernel"
  assumes "kernel_ok K kc" and "shows_process K pid V" and "finite (dom (fds E))" and "watch_ok K E"
    and "ptrace_ok ptrace" and "may_attach ptrace pid" and "tracee_of (traced E) pid = Untraced"
  shows "\<exists>p fd E'. read_process K ptrace (proc_init pid) E = Returns (p, E') \<and> process_read kc V p \<and>
    pagemap_fd p \<notin> dom (fds E) \<and> fd \<notin> dom (fds E) \<and> fd \<noteq> pagemap_fd p \<and>
    fds E' = (fds E)(pagemap_fd p \<mapsto> proc_path pid ''pagemap'', fd \<mapsto> ''/proc/kpageflags'') \<and>
    err E' = err E @ view_swaps V \<and> traced E' = traced E @ visit pid \<and>
    watch E' = watch (timed K E) \<and> ticks E' = ticks E + 2"
proof -
  let ?E0 = "E\<lparr>traced := traced E @ [(Attach, pid, 0)]\<rparr>"
  have pid: "pr_pid (proc_init pid :: 'f process) = pid" by (simp add: proc_init_def)
  have w: "watch_ok K ?E0" using assms(4) by (simp add: watch_ok_def)
  obtain q :: "'f process" and fd where q: "proc_do K (proc_init pid) ?E0
      = Returns (q, timed K (?E0\<lparr>fds := (fds E)(fd \<mapsto> proc_path pid ''pagemap'')\<rparr>))"
    "0 \<le> fd" "fd \<notin> dom (fds E)" "pagemap_fd q = fd" "pr_pid q = pid"
    "pr_maps q = Some (map (with_image (v_image V)) (anon_regions (v_entries V)))"
    using proc_do_view [of K kc "proc_init pid" V ?E0] assms(1-3) w unfolding pid by force
  let ?E = "timed K (?E0\<lparr>fds := (fds E)(fd \<mapsto> proc_path pid ''pagemap'')\<rparr>)"
  have "shows_process K (pr_pid q) V" "finite (dom (fds ?E))" "fds ?E (pagemap_fd q) = Some (proc_path (pr_pid q) ''pagemap'')"
    using assms(2,3) q(4,5) by simp_all
  from proc_parse_view [OF assms(1) this(1,2) q(6) this(3)] obtain fd2 E' where E':
    "proc_parse_pagemap K q ?E = Returns (q\<lparr>pr_maps := Some (process_view kc V)\<rparr>, E')" "fd2 \<notin> dom (fds ?E)"
    "fds E' = (fds ?E)(fd2 \<mapsto> ''/proc/kpageflags'')" "err E' = err ?E @ view_swaps V" "traced E' = traced ?E" "watch E' = watch ?E" "ticks E' = ticks ?E" by blast
  let ?q = "q\<lparr>pr_maps := Some (process_view kc V)\<rparr>"
  have "read_process K ptrace (proc_init pid) E = Returns (?q, proc_detach ptrace ?q E')"
    using proc_attach_granted [of ptrace "proc_init pid :: 'f process" E] assms(6,7) q(1) E'(1)
    by (simp add: read_process_def pid)
  moreover have "proc_detach ptrace ?q E' = E'\<lparr>traced := traced E @ visit pid\<rparr>"
    using visit_detach [OF assms(5), of E' "traced E" ?q] E'(5) q(5) by simp
  ultimately show ?thesis
    using q(2-5) E'(2-7)
    by (intro exI [of _ ?q] exI [of _ fd2] exI [of _ "E'\<lparr>traced := traced E @ visit pid\<rparr>"])
      (simp add: process_read_def timed_def del: fun_upd_apply)
qed

section \<open>The shape of what is read\<close>

text \<open>
  The tables of a process after reading, whatever the memory stream delivered: anonymous regions of
  whole pages, one element more than pages, hashes in a prefix of the array, counts where the
  pagemap has a frame, and a spare element that nobody wrote.
\<close>

definition region_typed :: "(nat \<Rightarrow> u64) \<Rightarrow> mem_reg \<Rightarrow> bool" where
  "region_typed pm mr \<longleftrightarrow> mr_is_anon mr \<and> 0 < page_total mr \<and> whole_pages mr \<and>
     length (mr_pages mr) = page_total mr + 1 \<and> mr_pages mr ! page_total mr = fresh_page \<and>
     (\<exists>k \<le> page_total mr. \<forall>j < page_total mr. (pg_hash (mr_pages mr ! j) \<noteq> None) = (j < k)) \<and>
     (\<forall>j < page_total mr. (pg_share (mr_pages mr ! j) \<noteq> None) =
       (pagemap_pfn (pm (unat (page_addr mr j) div pageSize)) \<noteq> 0))"

lemma counted_read_typed:
  assumes "region_read K mr mr'" and "whole_pages mr" and "mr_is_anon mr" and "0 < page_total mr"
  shows "countable_region mr'" and "region_typed pm (with_counts pm kc mr')"
proof -
  obtain g n where n: "page_aligned mr n" "mr' = mr\<lparr>mr_pages := hashed (whole (reads K n g)) (n + 1)\<rparr>"
    using assms(1) by (auto simp: region_read_def)
  let ?bs = "whole (reads K n g)"
  have tot: "page_total mr = n" "page_total mr' = n" using page_total_aligned [OF n(1)] n(2) by (simp_all add: page_total_def)
  have len: "length ?bs \<le> n" using length_whole [of "reads K n g"] by simp
  have same: "mr_start mr' = mr_start mr" "mr_end mr' = mr_end mr" "pathname mr' = pathname mr" using n(2) by simp_all
  have pages: "length (mr_pages mr') = n + 1" using len by (simp add: n(2) length_hashed)
  have al: "page_aligned mr' n" "unat (mr_start mr') mod pageSize = 0"
    using assms(2) n(1) same by (simp_all add: page_aligned_def whole_pages_def)
  show "countable_region mr'" using al pages by (simp add: countable_region_def tot(2))
  let ?r = "with_counts pm kc mr'"
  have r: "page_total ?r = n" "mr_start ?r = mr_start mr" "mr_end ?r = mr_end mr" "pathname ?r = pathname mr"
    "length (mr_pages ?r) = n + 1"
    using same pages tot by (simp_all add: with_counts_def page_total_def)
  have wp: "whole_pages ?r" using assms(2) tot(1) r by (simp add: whole_pages_def page_aligned_def)
  have at: "mr_pages ?r ! j = (if j < n \<and> pagemap_pfn (pm (unat (page_addr mr j) div pageSize)) \<noteq> 0
      then (mr_pages mr' ! j)\<lparr>pg_share := Some (to_int (kc (unat (pagemap_pfn (pm (unat (page_addr mr j) div pageSize))))))\<rparr>
      else mr_pages mr' ! j)" if "j < n + 1" for j
    using that pages page_number [OF assms(2), of j] tot same by (cases "j < n") (simp_all add: with_counts_def counted_def del: upt_Suc)
  have old: "pg_hash (mr_pages mr' ! j) \<noteq> None \<longleftrightarrow> j < length ?bs" "pg_share (mr_pages mr' ! j) = None"
    if "j < n + 1" for j
    using that hashed_nth [where bs = ?bs and n = "n + 1"] by (cases "j < length ?bs"; simp add: n(2) fresh_page_def)+
  have "mr_pages mr' ! n = fresh_page" using hashed_nth(2) [of ?bs n "n + 1"] len by (simp add: n(2))
  moreover have "\<exists>k \<le> n. \<forall>j < n. (pg_hash (mr_pages ?r ! j) \<noteq> None) = (j < k)"
    using len old(1) by (intro exI [of _ "length ?bs"]) (simp add: at)
  moreover have "page_addr ?r j = page_addr mr j" for j by (simp add: page_addr_def r(2))
  ultimately show "region_typed pm ?r"
    using wp r assms(3,4) tot(1) old(2) by (simp add: region_typed_def at mr_is_anon_def)
qed

lemma read_process_shape:
  fixes K :: "'f kernel"
  assumes "kernel_ok K kc" and "k_maps K pid = Some (concat (map show_entry es))" and "k_mem K pid = Some f"
    and "serves K (proc_path pid ''pagemap'') pm" and "entries_ok es"
    and "\<forall>e \<in> set es. unat (e_start e) mod pageSize = 0" and "finite (dom (fds E))" and "0 \<le> ptrace (traced E) Attach pid"
    and "watch_ok K E"
  shows "\<exists>p E' ms. read_process K ptrace (proc_init pid) E = Returns (p, E') \<and> pr_maps p = Some ms \<and>
    length ms = length (anon_regions es) \<and> (\<forall>mr \<in> set ms. region_typed pm mr)"
proof -
  let ?E = "E\<lparr>traced := traced E @ [(Attach, pid, ptrace (traced E) Attach pid)]\<rparr>" and ?path = "proc_path pid ''pagemap''"
  have pid: "pr_pid (proc_init pid :: 'f process) = pid" by (simp add: proc_init_def)
  have op: "0 \<le> k_open K name used" "k_open K name used \<notin> used" if "finite used" for name used
    using assms(1) that unfolding kernel_ok_def by blast+
  obtain kf where K: "\<forall>n. k_malloc K n" "serves K ''/proc/kpageflags'' kf" "serves K ''/proc/kpagecount'' kc" "clock_ok K"
    using assms(1) unfolding kernel_ok_def by blast
  have w: "watch_ok K ?E" using assms(9) by (simp add: watch_ok_def)
  obtain q :: "'f process" and mrs out where q: "proc_do K (proc_init pid) ?E
      = Returns (q, timed K (say out (?E\<lparr>fds := (fds E)(pagemap_fd q \<mapsto> ?path)\<rparr>)))"
    "pr_maps q = Some mrs" "list_all2 (region_read K) (anon_regions es) mrs"
    using proc_do_regions [of K "proc_init pid" es f ?E] assms(2,3,5,7) op(1) K(1,4) w unfolding pid by fastforce
  let ?E1 = "timed K (say out (?E\<lparr>fds := (fds E)(pagemap_fd q \<mapsto> ?path)\<rparr>))"
  have reg: "whole_pages mr \<and> mr_is_anon mr \<and> 0 < page_total mr" if mr: "mr \<in> set (anon_regions es)" for mr
  proof -
    have "page_aligned mr (page_total mr)" using anon_regions_aligned [OF assms(5) mr] .
    with mr assms(6) show ?thesis by (auto simp: anon_regions_def whole_pages_def region_of_def)
  qed
  have typed: "countable_region mr' \<and> region_typed pm (with_counts pm kc mr')" if mr: "mr' \<in> set mrs" for mr'
  proof -
    obtain mr where m: "mr \<in> set (anon_regions es)" "region_read K mr mr'"
      using q(3) mr by (metis list_all2_conv_all_nth in_set_conv_nth)
    have "whole_pages mr" "mr_is_anon mr" "0 < page_total mr" using reg [OF m(1)] by simp_all
    from counted_read_typed [OF m(2) this] show ?thesis by simp
  qed
  have fin: "finite (dom (fds ?E1))" using assms(7) by simp
  let ?fd1 = "k_open K ''/proc/kpageflags'' (dom (fds ?E1))"
  have fin1: "finite (insert ?fd1 (dom (fds ?E1)))" using fin by simp
  have parsed: "\<exists>E2. proc_parse_pagemap K q ?E1 = Returns (q\<lparr>pr_maps := Some (map (with_counts pm kc) mrs)\<rparr>, E2)"
    by (rule exI, rule proc_parse_pagemap_counts [OF q(2) _ assms(4) K(2,3) refl op(2,1) [OF fin] refl op(2,1) [OF fin1]])
      (use typed in simp_all)
  have "length mrs = length (anon_regions es)" using q(3) by (simp add: list_all2_lengthD)
  with parsed typed q(1) assms(8) show ?thesis
    by (auto simp: read_process_def proc_attach_def request_def Let_def pid)
qed

end
