(* ===== verification/Mains.thy ===== *)
theory Mains
  imports Process_View Setcmp_Total Cmp Memdump
begin

text \<open>
  The three programs from their arguments to their output: the loops of the \<open>main\<close> functions that
  read all processes, and the descriptors they leave.
\<close>

section \<open>Arguments\<close>

lemma atoi_digits: "scan_digits 10 0 (print_base 10 n) = (n, [])"
proof -
  have "\<forall>d \<in> set (digits 10 n). d < 10" using digits_less [of 10] by simp
  from scan_digits_map [OF _ this, of 0 "[]"] show ?thesis
    by (simp add: print_base_def foldl_digits)
qed

lemma print_base_plain:
  "skip_space (print_base 10 n) = print_base 10 n" "scan_sign (print_base 10 n) = (False, print_base 10 n)"
  using digit_string_plain [OF digit_string_padded [of 10 0 n], of "[]"] by (simp_all add: print_padded_def)

lemma atoi_fmt_d:
  assumes "INT_MIN \<le> i" and "i \<le> INT_MAX"
  shows "atoi (fmt_d i) = Returns i"
proof (cases "i < 0")
  case True
  then have "skip_space (fmt_d i) = fmt_d i" by (simp add: fmt_d_def skip_space_def is_space_def)
  with True assms show ?thesis by (simp add: atoi_def fmt_d_def atoi_digits)
next
  case False
  with assms show ?thesis by (simp add: atoi_def fmt_d_def print_base_plain atoi_digits)
qed

section \<open>Descriptors\<close>

text \<open>
  \<open>held F0 fs L F\<close>: from the descriptors \<open>F0\<close> on, the pagemap files \<open>fs\<close> and, for the frame flags,
  \<open>L\<close> were opened.
\<close>

definition flag_files :: "int set \<Rightarrow> (int \<rightharpoonup> string)" where
  "flag_files L = (\<lambda>fd. if fd \<in> L then Some ''/proc/kpageflags'' else None)"

definition held :: "(int \<rightharpoonup> string) \<Rightarrow> int list \<Rightarrow> int set \<Rightarrow> (int \<rightharpoonup> string) \<Rightarrow> bool" where
  "held F0 fs L F \<longleftrightarrow> finite L \<and> distinct fs \<and> L \<inter> dom F0 = {} \<and> set fs \<inter> (dom F0 \<union> L) = {} \<and>
     dom F = dom F0 \<union> L \<union> set fs \<and> F |` (- set fs) = F0 ++ flag_files L"

lemma held_start: "held F [] {} F"
  by (auto simp: held_def flag_files_def map_add_def)

lemma held_finite: "held F0 fs L F \<Longrightarrow> finite (dom F0) \<Longrightarrow> finite (dom F)"
  by (simp add: held_def)

lemma held_pagemap:
  assumes "held F0 fs L F" and "fd \<notin> dom F"
  shows "held F0 (fs @ [fd]) L (F(fd \<mapsto> name))"
proof -
  have "F(fd \<mapsto> name) |` (- set (fs @ [fd])) = F |` (- set fs)"
    using assms(2) by (auto simp: restrict_map_def fun_eq_iff domIff)
  then show ?thesis using assms by (auto simp: held_def)
qed

lemma held_flags:
  assumes "held F0 fs L F" and "fd \<notin> dom F"
  shows "held F0 fs (insert fd L) (F(fd \<mapsto> ''/proc/kpageflags''))" "fd \<notin> L"
proof -
  have fd: "fd \<notin> dom F0" "fd \<notin> L" "fd \<notin> set fs" using assms by (auto simp: held_def)
  have "F(fd \<mapsto> ''/proc/kpageflags'') |` (- set fs) = (F |` (- set fs))(fd \<mapsto> ''/proc/kpageflags'')"
    using fd(3) by (auto simp: restrict_map_def fun_eq_iff)
  also have "\<dots> = F0 ++ flag_files (insert fd L)"
    using assms(1) fd(1) by (auto simp: held_def flag_files_def map_add_def fun_eq_iff)
  finally show "held F0 fs (insert fd L) (F(fd \<mapsto> ''/proc/kpageflags''))"
    using assms fd by (auto simp: held_def)
  show "fd \<notin> L" by (rule fd)
qed

lemma held_closed_both:
  assumes "held F0 [a, b] L F"
  shows "F(a := None, b := None) = F0 ++ flag_files L"
proof -
  have "F(a := None, b := None) = F |` (- set [a, b])" by (auto simp: restrict_map_def fun_eq_iff)
  then show ?thesis using assms by (simp only: held_def)
qed

text \<open>\<open>proc_del\<close> closes the pagemap file of a process that was read.\<close>

lemma proc_del_read:
  assumes "process_read kc V p" and "view_ok V"
  shows "proc_del p E = Returns (close_fd (pagemap_fd p) E)"
proof -
  have "length (process_view kc V) < 2 ^ 31"
    using assms(2) length_anon_regions [of "v_entries V"] by (simp add: view_ok_def process_view_def)
  then show ?thesis
    using assms(1) proc_mr_num_maps [of p "process_view kc V"] by (simp add: process_read_def proc_del_def)
qed

lemma proc_del_all:
  assumes "\<forall>p \<in> set ps. \<exists>V. process_read kc V p \<and> view_ok V"
  shows "for_all ps proc_del E = Returns (E\<lparr>fds := fds E |` (- set (map pagemap_fd ps))\<rparr>)"
  using assms
proof (induction ps arbitrary: E)
  case (Cons p ps)
  obtain V where "process_read kc V p" "view_ok V" using Cons.prems by auto
  then have del: "proc_del p E = Returns (close_fd (pagemap_fd p) E)" by (rule proc_del_read)
  have "fds (close_fd (pagemap_fd p) E) |` (- set (map pagemap_fd ps)) = fds E |` (- set (map pagemap_fd (p # ps)))"
    by (auto simp: close_fd_def restrict_map_def fun_eq_iff)
  then show ?case
    using Cons.IH [of "close_fd (pagemap_fd p) E"] Cons.prems
    by (simp only: del for_all.simps continue.simps) (simp add: close_fd_def)
qed (simp add: restrict_map_def)

section \<open>Reading all processes\<close>

definition pid_ok :: "'f kernel \<Rightarrow> ptrace_fun \<Rightarrow> (int \<Rightarrow> proc_view) \<Rightarrow> int \<Rightarrow> bool" where
  "pid_ok K ptrace V pid \<longleftrightarrow> INT_MIN \<le> pid \<and> pid \<le> INT_MAX \<and> may_attach ptrace pid \<and>
     shows_process K pid (V pid) \<and> view_ok (V pid)"

text \<open>Different processes none of which is traced yet.\<close>

definition all_untraced :: "env \<Rightarrow> int list \<Rightarrow> bool" where
  "all_untraced E pids \<longleftrightarrow> distinct pids \<and> (\<forall>pid \<in> set pids. tracee_of (traced E) pid = Untraced)"

lemma read_all:
  fixes K :: "'f kernel"
  assumes "kernel_ok K kc" and "\<forall>pid \<in> set pids. pid_ok K ptrace V pid" and "finite (dom (fds E))" and "watch_ok K E"
    and "ptrace_ok ptrace" and "all_untraced E pids"
  shows "\<exists>procs E' L. for_all (map proc_init pids) (\<lambda>p (procs, E).
      continue (read_process K ptrace p E) (\<lambda>(p, E). Returns (procs @ [p], E))) ([], E) = Returns (procs, E') \<and>
    list_all2 (\<lambda>pid p. process_read kc (V pid) (p :: 'f process)) pids procs \<and>
    held (fds E) (map pagemap_fd procs) L (fds E') \<and> card L = length pids \<and>
    err E' = err E @ concat (map (\<lambda>pid. view_swaps (V pid)) pids) \<and>
    traced E' = traced E @ concat (map visit pids) \<and> watch_ok K E'"
proof -
  let ?body = "\<lambda>pid (procs, E). continue (read_process K ptrace (proc_init pid) E) (\<lambda>(p, E). Returns (procs @ [p], E))"
  let ?I = "\<lambda>done (r :: 'f process list \<times> env). list_all2 (\<lambda>pid p. process_read kc (V pid) p) done (fst r) \<and>
    (\<exists>L. held (fds E) (map pagemap_fd (fst r)) L (fds (snd r)) \<and> card L = length done) \<and>
    err (snd r) = err E @ concat (map (\<lambda>pid. view_swaps (V pid)) done) \<and>
    traced (snd r) = traced E @ concat (map visit done) \<and> watch_ok K (snd r)"
  have "\<exists>r. for_all pids ?body ([], E) = Returns r \<and> ?I pids r"
  proof (rule for_all_invariant [where I = ?I])
    show "?I [] ([], E)" using held_start [of "fds E"] assms(4) by (auto intro: exI [of _ "{}"])
    fix as pid bs and r :: "'f process list \<times> env"
    assume split: "pids = as @ pid # bs" and I: "?I as r"
    obtain ps E1 where r: "r = (ps, E1)" by (cases r)
    obtain L where L: "held (fds E) (map pagemap_fd ps) L (fds E1)" "card L = length as" "watch_ok K E1" using I r by auto
    have ok: "shows_process K pid (V pid)" "may_attach ptrace pid" using assms(2) split by (auto simp: pid_ok_def)
    have "traced E1 = traced E @ concat (map visit as)" using I r by simp
    then have free: "tracee_of (traced E1) pid = Untraced"
      using visits_other [of pid as "traced E"] assms(6) split by (simp add: all_untraced_def)
    obtain p :: "'f process" and fd E2 where p: "read_process K ptrace (proc_init pid) E1 = Returns (p, E2)"
      "process_read kc (V pid) p" "pagemap_fd p \<notin> dom (fds E1)" "fd \<notin> dom (fds E1)" "fd \<noteq> pagemap_fd p"
      "fds E2 = (fds E1)(pagemap_fd p \<mapsto> proc_path pid ''pagemap'', fd \<mapsto> ''/proc/kpageflags'')"
      "err E2 = err E1 @ view_swaps (V pid)" "traced E2 = traced E1 @ visit pid"
      "watch E2 = watch (timed K E1)" "ticks E2 = ticks E1 + 2"
      using read_process_view [OF assms(1) ok(1) held_finite [OF L(1) assms(3)] L(3) assms(5) ok(2) free] by blast
    have h: "held (fds E) (map pagemap_fd (ps @ [p])) (insert fd L) (fds E2)" "fd \<notin> L"
      using held_flags [OF held_pagemap [OF L(1) p(3)], of fd "proc_path pid ''pagemap''"] p(4,5,6) by simp_all
    have card: "card (insert fd L) = length (as @ [pid])" using L h(2) by (simp add: held_def)
    have "clock_ok K" using assms(1) by (simp add: kernel_ok_def)
    then have "watch_ok K E2"
      using watch_ok_timed [OF _ L(3)] watch_ok_cong [of E2 "timed K E1" K] p(9,10) by simp
    with card h(1) p(1,2,7,8) I r show "\<exists>t. ?body pid r = Returns t \<and> ?I (as @ [pid]) t"
      by (auto intro!: list_all2_appendI)
  qed
  then obtain procs E' where "for_all pids ?body ([], E) = Returns (procs, E')" "?I pids (procs, E')" by auto
  then show ?thesis by (auto simp: for_all_map)
qed

section \<open>The reports of \<open>setcmp\<close>\<close>

text \<open>
  What \<open>setcmp\<close> prints, from the keys of the pages of every process that are not zero (\<open>Ns\<close>) and
  of those that are not shared either (\<open>Cs\<close>).
\<close>

definition setcmp_report :: "u32 list list \<Rightarrow> u32 list list \<Rightarrow> string" where
  "setcmp_report Ns Cs =
     ''intra proc dup'' @ [newline] @
     concat (map (\<lambda>i. fmt_d (int (length (Ns ! i)) - int (card (set (Cs ! i)))) @ [newline]) [0..<length Ns]) @
     [newline] @
     ''inter proc dup'' @ [newline] @
     concat (map (\<lambda>i. fmt_d (int (length (filter
         (\<lambda>k. \<exists>j < length Ns. j \<noteq> i \<and> k \<in> set (Ns ! j)) (Cs ! i)))) @ '' '' @ [newline]) [0..<length Ns]) @
     [newline] @
     ''total dup'' @ [newline] @
     concat (map (\<lambda>i. fmt_d (int (card {k \<in> set (Cs ! i). \<exists>j < length Ns. j \<noteq> i \<and> k \<in> set (Cs ! j)})) @ '' '' @
         fmt_d (int (length (Ns ! i))) @ '' '' @ [newline]) [0..<length Ns]) @
     [newline]"

lemma elsewhere_map: "elsewhere (map (\<lambda>p. set (f p)) ps) i
    = (\<lambda>k. \<exists>j < length (map f ps). j \<noteq> i \<and> k \<in> set (map f ps ! j))"
  by (auto simp: elsewhere_def fun_eq_iff)

lemma report_lines:
  "concat (map (\<lambda>i. fmt_d (intra_dup (procs ! i)) @ [newline]) [0..<length procs])
    = concat (map (\<lambda>i. fmt_d (int (length (map (process_keys nonzero) procs ! i)) -
        int (card (set (map (process_keys candidate) procs ! i)))) @ [newline]) [0..<length procs])"
  "concat (map (\<lambda>i. fmt_d (inter_dup procs i) @ '' '' @ [newline]) [0..<length procs])
    = concat (map (\<lambda>i. fmt_d (int (length (filter (\<lambda>k. \<exists>j < length (map (process_keys nonzero) procs). j \<noteq> i \<and>
        k \<in> set (map (process_keys nonzero) procs ! j)) (map (process_keys candidate) procs ! i)))) @ '' '' @ [newline])
      [0..<length procs])"
  "concat (map (\<lambda>i. fmt_d (total_dup procs i) @ '' '' @
        fmt_d (int (length (process_keys nonzero (procs ! i)))) @ '' '' @ [newline]) [0..<length procs])
    = concat (map (\<lambda>i. fmt_d (int (card {k \<in> set (map (process_keys candidate) procs ! i).
        \<exists>j < length (map (process_keys candidate) procs). j \<noteq> i \<and> k \<in> set (map (process_keys candidate) procs ! j)})) @ '' '' @
        fmt_d (int (length (map (process_keys nonzero) procs ! i))) @ '' '' @ [newline]) [0..<length procs])"
  by (intro arg_cong [where f = concat] map_cong refl,
      simp add: intra_dup_def inter_dup_def nonzero_sets_def found_number_def elsewhere_map
        total_dup_def candidate_sets_def del: length_map)+

text \<open>The blocks for the sets of the three reports.\<close>

definition report_blocks ::
  "(nat \<Rightarrow> ptr \<times> ptr) \<Rightarrow> (nat \<Rightarrow> ptr) \<Rightarrow> (nat \<Rightarrow> ptr \<times> ptr) \<Rightarrow> nat \<Rightarrow> (ptr \<rightharpoonup> u32 multiset) \<Rightarrow> bool" where
  "report_blocks b1 b2 b3 n C \<longleftrightarrow> (\<forall>i < n. blocks_ok [fst (b1 i), snd (b1 i)] C) \<and>
     blocks_ok (map b2 [0..<n]) C \<and> blocks_ok (pair_blocks b3 n) C"

context data_malloc
begin

lemma reports:
  assumes "models H C D" and "report_blocks b1 b2 b3 (length procs) C" and "length procs \<le> MAX_PID"
    and "\<forall>p \<in> set procs. process_fits p \<and> process_keys candidate p \<noteq> []"
    and "\<And>t1 t2 t3. t1 @ [newline] @ t2 @ [newline] @ t3 @ [newline]
        = setcmp_report (map (process_keys nonzero) procs) (map (process_keys candidate) procs) \<Longrightarrow>
      ends_in {- 1} Q (rest t1 t2 t3)"
  shows "ends_in {- 1} Q (continue (print_intra_simi md b1 procs H) (\<lambda>(H, t1).
    continue (print_inter_simi md b2 procs H) (\<lambda>(H, t2).
    continue (print_total_dup md b3 procs H) (\<lambda>(H, t3). rest t1 t2 t3))))"
proof -
  have fits: "\<forall>p \<in> set procs. process_fits p" using assms(4) by blast
  have b: "\<forall>i < length procs. blocks_ok [fst (b1 i), snd (b1 i)] C"
    "blocks_ok (map b2 [0..<length procs]) C" "blocks_ok (pair_blocks b3 (length procs)) C"
    using assms(2) by (simp_all add: report_blocks_def)
  show ?thesis
  proof (rule ends_in_continue_pair [OF intra [OF assms(1) b(1) fits]], elim conjE,
      rule ends_in_continue_pair [OF inter [OF _ b(2) assms(3) fits]], assumption, elim conjE,
      rule ends_in_continue_pair [OF total [OF _ b(3) assms(3,4)]], assumption, elim conjE)
    fix t1 t2 t3
    assume "t1 = (''intra proc dup'' @ [newline]) @ concat (map (\<lambda>i. fmt_d (intra_dup (procs ! i)) @ [newline]) [0..<length procs])"
      "t2 = (''inter proc dup'' @ [newline]) @ concat (map (\<lambda>i. fmt_d (inter_dup procs i) @ '' '' @ [newline]) [0..<length procs])"
      "t3 = (''total dup'' @ [newline]) @ concat (map (\<lambda>i. fmt_d (total_dup procs i) @ '' '' @
        fmt_d (int (length (process_keys nonzero (procs ! i)))) @ '' '' @ [newline]) [0..<length procs])"
    then have "t1 @ [newline] @ t2 @ [newline] @ t3 @ [newline]
        = setcmp_report (map (process_keys nonzero) procs) (map (process_keys candidate) procs)"
      unfolding setcmp_report_def report_lines length_map append_assoc by (simp only: append_assoc)
    then show "ends_in {- 1} Q (rest t1 t2 t3)" by (rule assms(5))
  qed
qed

end

section \<open>The report of \<open>cmp\<close>\<close>

text \<open>The keys of one region, and what \<open>cmp\<close> records for a pair of regions.\<close>

definition own_region_keys :: "(nat \<Rightarrow> u64) \<Rightarrow> proc_view \<Rightarrow> mem_reg \<Rightarrow> u32 list" where
  "own_region_keys kc V mr = map (hash_at V) (filter (own_at kc V) (region_addrs mr))"

definition view_redund :: "(nat \<Rightarrow> u64) \<Rightarrow> proc_view \<Rightarrow> proc_view \<Rightarrow> mem_reg \<times> mem_reg \<Rightarrow> redund" where
  "view_redund kc V1 V2 = (\<lambda>(m1, m2). \<lparr>rd_dup = int (length (filter
     (\<lambda>k. k \<in> set (own_region_keys kc V2 m2)) (own_region_keys kc V1 m1))), rd_m1 = m1, rd_m2 = m2\<rparr>)"

definition view_redunds :: "(nat \<Rightarrow> u64) \<Rightarrow> proc_view \<Rightarrow> proc_view \<Rightarrow> redund list" where
  "view_redunds kc V1 V2 = map (view_redund kc V1 V2)
     (List.product (anon_regions (v_entries V1)) (anon_regions (v_entries V2)))"

lemma mset_eq_map:
  "mset rs = mset (map f xs) \<Longrightarrow> \<exists>ys. mset ys = mset xs \<and> rs = map f ys"
proof (induction rs arbitrary: xs)
  case (Cons r rs)
  then have "r \<in> set (map f xs)" by (metis list.set_intros(1) set_mset_mset)
  then obtain as x bs where x: "xs = as @ x # bs" "r = f x" by (auto dest: split_list)
  then have "mset rs = mset (map f (as @ bs))" using Cons.prems by simp
  from Cons.IH [OF this] x obtain ys where "mset ys = mset (as @ bs)" "rs = map f ys" by blast
  with x show ?case by (intro exI [of _ "x # ys"]) simp
qed simp

lemma shown_keys:
  assumes "shows_process K pid V" and "view_ok V" and "mr \<in> set (anon_regions (v_entries V))"
  shows "region_keys candidate (region_view kc V mr) = own_region_keys kc V mr"
    and "region_ok counted_page (region_view kc V mr)"
proof -
  have "\<forall>va \<in> set (region_addrs mr). lit_at V va \<longrightarrow> frame_at V va \<noteq> 0"
    using assms(2,3) by (auto simp: view_ok_def view_addrs_def)
  then show "region_keys candidate (region_view kc V mr) = own_region_keys kc V mr"
    "region_ok counted_page (region_view kc V mr)"
    using region_view_keys [OF shown_regions [OF assms(1,3)]] by (simp_all add: own_region_keys_def)
qed

lemma read_regions_fit:
  fixes p :: "'f process"
  assumes "shows_process K pid V" and "view_ok V" and "pr_maps p = Some (process_view kc V)"
  shows "regions_fit p"
proof -
  have "int (length (own_region_keys kc V mr)) \<le> INT_MAX" if mr: "mr \<in> set (anon_regions (v_entries V))" for mr
  proof -
    have "length (own_region_keys kc V mr) \<le> length (region_addrs mr)"
      by (simp add: own_region_keys_def)
    also have "\<dots> \<le> length (view_addrs V)"
      unfolding view_addrs_def length_concat using mr by (intro member_le_sum_list) auto
    finally show ?thesis using assms(2) by (simp add: view_ok_def)
  qed
  moreover have "process_ok counted_page p"
    using process_view_keys(1) [OF assms] by (simp add: process_fits_def)
  ultimately show ?thesis
    using shown_keys(1) [OF assms(1,2)] by (simp add: regions_fit_def assms(3) process_view_def list_all_iff)
qed

text \<open>The pairs \<open>cmp\<close> sorts, and their lines, are those of the regions as the maps file has them.\<close>

definition seen_redund :: "(nat \<Rightarrow> u64) \<Rightarrow> proc_view \<Rightarrow> proc_view \<Rightarrow> redund \<Rightarrow> redund" where
  "seen_redund kc V1 V2 r = r\<lparr>rd_m1 := region_view kc V1 (rd_m1 r), rd_m2 := region_view kc V2 (rd_m2 r)\<rparr>"

lemma seen_redund_simps:
  "rd_dup (seen_redund kc V1 V2 r) = rd_dup r" "redund_line (seen_redund kc V1 V2 r) = redund_line r"
  by (simp_all add: seen_redund_def redund_line_def mr_page_num_def mr_get_name_def mr_get_start_def)

lemma redunds_of_views:
  assumes "shows_process K1 pid1 V1" and "view_ok V1" and "shows_process K2 pid2 V2" and "view_ok V2"
  shows "redunds_of (process_view kc V1) (process_view kc V2)
    = map (seen_redund kc V1 V2) (view_redunds kc V1 V2)"
proof -
  have "redund_of (region_view kc V1 m1) (region_view kc V2 m2)
      = seen_redund kc V1 V2 (view_redund kc V1 V2 (m1, m2))"
    if "m1 \<in> set (anon_regions (v_entries V1))" "m2 \<in> set (anon_regions (v_entries V2))" for m1 m2
    using shown_keys(1) [OF assms(1,2) that(1)] shown_keys(1) [OF assms(3,4) that(2)]
    by (simp add: redund_of_def region_dup_def seen_redund_def view_redund_def)
  then show ?thesis
    by (simp add: redunds_of_def process_view_def view_redunds_def product_concat_map map_concat comp_def
        cong: map_cong)
qed

text \<open>The lines are those of a sorted list of the records of the views.\<close>

lemma sorted_redunds_of_views:
  assumes "shows_process K1 pid1 V1" and "view_ok V1" and "shows_process K2 pid2 V2" and "view_ok V2"
    and "sorts_redunds qsort"
  shows "\<exists>rs. mset rs = mset (view_redunds kc V1 V2) \<and> sorted (map rd_dup rs) \<and>
    concat (map redund_line (filter (\<lambda>r. rd_dup r \<noteq> 0) (qsort (redunds_of (process_view kc V1) (process_view kc V2)))))
      = concat (map redund_line (filter (\<lambda>r. rd_dup r \<noteq> 0) rs))"
proof -
  let ?rs = "qsort (redunds_of (process_view kc V1) (process_view kc V2))"
  have sorts: "mset ?rs = mset (map (seen_redund kc V1 V2) (view_redunds kc V1 V2))" "sorted (map rd_dup ?rs)"
    using assms(5) redunds_of_views [OF assms(1-4)] by (simp_all add: sorts_redunds_def comp_redunds_def sorted_map)
  then obtain rs where rs: "mset rs = mset (view_redunds kc V1 V2)" "?rs = map (seen_redund kc V1 V2) rs"
    using mset_eq_map by blast
  then show ?thesis using sorts(2) by (auto simp: filter_map comp_def seen_redund_simps)
qed

section \<open>The pages \<open>memdump\<close> prints\<close>

text \<open>A loop that is undefined at the first element that fails a test.\<close>

lemma for_all_collect_if:
  "(\<And>b rs. b \<in> set bs \<Longrightarrow> body b rs = (if P b then Returns (rs @ f b) else Undefined)) \<Longrightarrow>
   for_all bs body rs = (if list_all P bs then Returns (rs @ concat (map f bs)) else Undefined)"
  by (induction bs arbitrary: rs) simp_all

text \<open>The line of a page, and the lines of a region under its header.\<close>

definition view_line :: "(nat \<Rightarrow> u64) \<Rightarrow> proc_view \<Rightarrow> u64 \<Rightarrow> string" where
  "view_line kc V va =
     (if share_at kc V va = 0 then []
      else fmt_d (share_at kc V va) @ ''  '' @ fmt_lx_padded 12 va @ '': '' @
        print_padded 8 16 (unat (hash_at V va)) @ [newline])"

definition region_text :: "(nat \<Rightarrow> u64) \<Rightarrow> proc_view \<Rightarrow> mem_reg \<Rightarrow> string" where
  "region_text kc V mr =
     fmt_lx_padded 12 (mr_start mr) @ ''-'' @ fmt_lx_padded 12 (mr_end mr) @ '' '' @ [CHR 0x09] @ '' '' @
     pathname mr @ [newline] @ concat (map (view_line kc V) (region_addrs mr))"

definition all_present :: "proc_view \<Rightarrow> mem_reg \<Rightarrow> bool" where
  "all_present V mr \<longleftrightarrow> list_all (\<lambda>va. frame_at V va \<noteq> 0) (region_addrs mr)"

lemma mem_print_view:
  assumes "whole_pages mr"
  shows "mem_print_pages (region_view kc V mr) out =
    (if all_present V mr then Returns (out @ concat (map (view_line kc V) (region_addrs mr))) else Undefined)"
proof -
  let ?mr = "region_view kc V mr" and ?n = "page_total mr"
  note pages = pages_of_region_view [OF assms, of kc V]
  have len: "?n \<le> length (mr_pages ?mr)" by (simp add: region_view_def with_counts_def with_image_def)
  have "unat (mr_start ?mr) + pageSize * ?n = unat (mr_end ?mr)"
    using assms by (simp add: whole_pages_def page_aligned_def)
  from print_pages_loop_eq [OF this, of 0 "mr_pages ?mr" out] len
  have eq: "mem_print_pages ?mr out = (if list_all printable (pages_of ?mr)
     then Returns (out @ concat (map (\<lambda>j. page_line (page_addr mr j) (mr_pages ?mr ! j)) [0..<?n])) else Undefined)"
    by (simp add: mem_print_pages_def pages_of_def page_addr_def)
  have ok: "list_all printable (pages_of ?mr) \<longleftrightarrow> all_present V mr"
    by (auto simp: pages all_present_def list_all_iff printable_def)
  have line: "page_line (page_addr mr j) (mr_pages ?mr ! j) = view_line kc V (page_addr mr j)"
    if "all_present V mr" "j < ?n" for j
  proof -
    have "mr_pages ?mr ! j = pages_of ?mr ! j" using that(2) by (simp add: pages_of_def)
    moreover have "frame_at V (page_addr mr j) \<noteq> 0"
      using that by (simp add: all_present_def list_all_iff region_addrs_def)
    ultimately show ?thesis
      using that(2) by (simp add: pages region_addrs_def page_line_def view_line_def)
  qed
  have "concat (map (\<lambda>j. page_line (page_addr mr j) (mr_pages ?mr ! j)) [0..<?n])
      = concat (map (view_line kc V) (region_addrs mr))" if "all_present V mr"
    unfolding region_addrs_def map_map by (intro arg_cong [where f = concat] map_cong) (use line that in auto)
  then show ?thesis by (simp add: eq ok)
qed

lemma proc_print_view:
  assumes "shows_process K pid V" and "view_ok V" and "pr_maps p = Some (process_view kc V)"
  shows "proc_print_pages p = (if list_all (all_present V) (anon_regions (v_entries V))
    then Returns (concat (map (region_text kc V) (anon_regions (v_entries V)))) else Undefined)"
proof -
  let ?ms = "anon_regions (v_entries V)"
  have "length (process_view kc V) < 2 ^ 31"
    using assms(2) length_anon_regions [of "v_entries V"] by (simp add: view_ok_def process_view_def)
  note num = proc_mr_num_maps [OF assms(3) this]
  let ?body = "\<lambda>mr out. mem_print_pages mr (out @ fmt_lx_padded 12 (mr_start mr) @ ''-'' @
    fmt_lx_padded 12 (mr_end mr) @ '' '' @ [CHR 0x09] @ '' '' @ pathname mr @ [newline])"
  have "proc_print_pages p = for_all ?ms (\<lambda>mr. ?body (region_view kc V mr)) []"
    using for_all_regions [OF assms(3), of ?body "[]"]
    by (simp add: proc_print_pages_def num for_all_upto) (simp add: process_view_def for_all_map)
  also have "\<dots> = (if list_all (all_present V) ?ms then Returns ([] @ concat (map (region_text kc V) ?ms)) else Undefined)"
    using shown_regions [OF assms(1)] by (intro for_all_collect_if) (simp add: mem_print_view region_text_def)
  finally show ?thesis by simp
qed

section \<open>Two processes at a time\<close>

text \<open>\<open>cmp\<close> reads both memories before it counts either.\<close>

lemma read_both:
  fixes p1 p2 :: "'f process"
  assumes "kernel_ok K kc" and "shows_process K (pr_pid p1) V1" and "shows_process K (pr_pid p2) V2" and "finite (dom (fds E))"
    and "watch_ok K E"
  shows "\<exists>q1 q2 r1 r2 E1 E2 E3 E' L. proc_do K p1 E = Returns (q1, E1) \<and> proc_do K p2 E1 = Returns (q2, E2) \<and>
    proc_parse_pagemap K q1 E2 = Returns (r1, E3) \<and> proc_parse_pagemap K q2 E3 = Returns (r2, E') \<and>
    process_read kc V1 r1 \<and> process_read kc V2 r2 \<and> pr_pid r1 = pr_pid p1 \<and> pr_pid r2 = pr_pid p2 \<and>
    held (fds E) (map pagemap_fd [r1, r2]) L (fds E') \<and> card L = 2 \<and>
    err E' = err E @ view_swaps V1 @ view_swaps V2 \<and> traced E' = traced E \<and>
    t_total (watch E') = t_total (watch E) + spent K (ticks E) + spent K (ticks E + 2)"
proof -
  have clock: "clock_ok K" using assms(1) by (simp add: kernel_ok_def)
  obtain q1 fd1 where q1: "proc_do K p1 E = Returns (q1, timed K (E\<lparr>fds := (fds E)(fd1 \<mapsto> proc_path (pr_pid p1) ''pagemap'')\<rparr>))"
    "0 \<le> fd1" "fd1 \<notin> dom (fds E)" "pagemap_fd q1 = fd1" "pr_pid q1 = pr_pid p1"
    "pr_maps q1 = Some (map (with_image (v_image V1)) (anon_regions (v_entries V1)))"
    using proc_do_view [OF assms(1,2,4,5)] by blast
  let ?E1 = "timed K (E\<lparr>fds := (fds E)(fd1 \<mapsto> proc_path (pr_pid p1) ''pagemap'')\<rparr>)"
  have "watch_ok K (E\<lparr>fds := F\<rparr>)" for F using assms(5) by (simp add: watch_ok_def)
  note w1 = watch_ok_timed [OF clock this]
  have h1: "held (fds E) [fd1] {} (fds ?E1)" using held_pagemap [OF held_start q1(3)] by simp
  obtain q2 fd2 where q2: "proc_do K p2 ?E1 = Returns (q2, timed K (?E1\<lparr>fds := (fds ?E1)(fd2 \<mapsto> proc_path (pr_pid p2) ''pagemap'')\<rparr>))"
    "0 \<le> fd2" "fd2 \<notin> dom (fds ?E1)" "pagemap_fd q2 = fd2" "pr_pid q2 = pr_pid p2"
    "pr_maps q2 = Some (map (with_image (v_image V2)) (anon_regions (v_entries V2)))"
    using proc_do_view [OF assms(1,3) held_finite [OF h1 assms(4)] w1] by blast
  let ?E2 = "timed K (?E1\<lparr>fds := (fds ?E1)(fd2 \<mapsto> proc_path (pr_pid p2) ''pagemap'')\<rparr>)"
  have h2: "held (fds E) [fd1, fd2] {} (fds ?E2)" using held_pagemap [OF h1 q2(3)] by simp
  have f1: "fds ?E2 (pagemap_fd q1) = Some (proc_path (pr_pid q1) ''pagemap'')" using q1(4,5) q2(3) by auto
  obtain g1 E3 where E3: "proc_parse_pagemap K q1 ?E2 = Returns (q1\<lparr>pr_maps := Some (process_view kc V1)\<rparr>, E3)"
    "g1 \<notin> dom (fds ?E2)" "fds E3 = (fds ?E2)(g1 \<mapsto> ''/proc/kpageflags'')" "err E3 = err ?E2 @ view_swaps V1" "traced E3 = traced ?E2"
    "watch E3 = watch ?E2"
    using proc_parse_view [OF assms(1) assms(2) [folded q1(5)] held_finite [OF h2 assms(4)] q1(6) f1] by blast
  have h3: "held (fds E) [fd1, fd2] {g1} (fds E3)" using held_flags [OF h2 E3(2)] E3(3) by simp
  have f2: "fds E3 (pagemap_fd q2) = Some (proc_path (pr_pid q2) ''pagemap'')" using q2(4,5) E3(2,3) by auto
  obtain g2 E' where E': "proc_parse_pagemap K q2 E3 = Returns (q2\<lparr>pr_maps := Some (process_view kc V2)\<rparr>, E')"
    "g2 \<notin> dom (fds E3)" "fds E' = (fds E3)(g2 \<mapsto> ''/proc/kpageflags'')" "err E' = err E3 @ view_swaps V2" "traced E' = traced E3"
    "watch E' = watch E3"
    using proc_parse_view [OF assms(1) assms(3) [folded q2(5)] held_finite [OF h3 assms(4)] q2(6) f2] by blast
  have h4: "held (fds E) [fd1, fd2] {g2, g1} (fds E')" "g2 \<noteq> g1" using held_flags [OF h3 E'(2)] E'(3) by simp_all
  let ?r1 = "q1\<lparr>pr_maps := Some (process_view kc V1)\<rparr>" and ?r2 = "q2\<lparr>pr_maps := Some (process_view kc V2)\<rparr>"
  have r: "process_read kc V1 ?r1" "process_read kc V2 ?r2" "pr_pid ?r1 = pr_pid p1" "pr_pid ?r2 = pr_pid p2" "card {g2, g1} = 2"
    using q1(2,4,5) q2(2,4,5) h4(2) by (simp_all add: process_read_def)
  moreover have "held (fds E) (map pagemap_fd [?r1, ?r2]) {g2, g1} (fds E')" using h4(1) q1(4) q2(4) by simp
  moreover have "err E' = err E @ view_swaps V1 @ view_swaps V2" "traced E' = traced E"
    "t_total (watch E') = t_total (watch E) + spent K (ticks E) + spent K (ticks E + 2)"
    using E3(4-6) E'(4-6) by simp_all
  ultimately show ?thesis using q1(1) q2(1) E3(1) E'(1) by blast
qed

end
