(* ===== verification/Mains_Spec.thy ===== *)
theory Mains_Spec
  imports Mains Tools_Spec
begin

text \<open>
  The programs from the command line to the output: what they print as a function of the memory,
  the pagemaps and the frame counts the kernel shows, and what they leave behind.
\<close>

section \<open>\<open>setcmp\<close>\<close>

lemma parse_args:
  assumes "\<forall>pid \<in> set pids. INT_MIN \<le> pid \<and> pid \<le> INT_MAX"
  shows "for_all (map fmt_d pids) (\<lambda>arg procs. continue (atoi arg) (\<lambda>pid. Returns (procs @ [proc_init pid]))) []
    = Returns (map proc_init pids)"
  unfolding for_all_map
  by (subst for_all_collect [where f = "\<lambda>pid. [proc_init pid]"]) (use assms in \<open>auto simp: atoi_fmt_d\<close>)

lemma read_keys:
  fixes procs :: "'f process list"
  assumes "list_all2 (\<lambda>pid p. process_read kc (V pid) p) pids procs" and "\<forall>pid \<in> set pids. pid_ok K ptrace V pid"
  shows "\<forall>p \<in> set procs. process_fits p \<and> (\<exists>V. process_read kc V p \<and> view_ok V)"
    and "map (process_keys nonzero) procs = map (\<lambda>pid. lit_keys (V pid)) pids"
    and "map (process_keys candidate) procs = map (\<lambda>pid. own_keys kc (V pid)) pids"
  using assms
  by (induction rule: list_all2_induct)
    (auto simp: pid_ok_def process_read_def dest: process_view_keys intro: process_view_keys)

text \<open>\<open>setcmp\<close> up to the point where all processes have been read.\<close>

lemma setcmp_after_reading:
  fixes K :: "'f kernel"
  assumes "kernel_ok K kc" and "2 \<le> length pids" and "length pids + 1 < MAX_PID"
    and ok: "\<forall>pid \<in> set pids. pid_ok K ptrace V pid" and "finite (dom (fds E))" and "watch_ok K E"
    and "ptrace_ok ptrace" and "all_untraced E pids"
  obtains procs :: "'f process list" and E1 L where
    "setcmp_main K ptrace md b1 b2 b3 (name # map fmt_d pids) E H =
      continue (print_intra_simi md b1 procs H) (\<lambda>(H, t1). continue (print_inter_simi md b2 procs H) (\<lambda>(H, t2).
      continue (print_total_dup md b3 procs H) (\<lambda>(H, t3).
      continue (for_all procs proc_del (say (t1 @ [newline] @ t2 @ [newline] @ t3 @ [newline]) E1)) (\<lambda>E. Returns (0, E)))))"
    and "length procs = length pids" and "\<forall>p \<in> set procs. process_fits p \<and> (\<exists>V. process_read kc V p \<and> view_ok V)"
    and "map (process_keys nonzero) procs = map (\<lambda>pid. lit_keys (V pid)) pids"
    and "map (process_keys candidate) procs = map (\<lambda>pid. own_keys kc (V pid)) pids"
    and "held (fds E) (map pagemap_fd procs) L (fds E1)" and "card L = length pids"
    and "err E1 = err E @ concat (map (\<lambda>pid. view_swaps (V pid)) pids)"
    and "traced E1 = traced E @ concat (map visit pids)"
proof -
  have "\<forall>pid \<in> set pids. INT_MIN \<le> pid \<and> pid \<le> INT_MAX" using ok by (simp add: pid_ok_def)
  note args = parse_args [OF this]
  obtain procs :: "'f process list" and E1 L where read: "for_all (map proc_init pids) (\<lambda>p (procs, E).
      continue (read_process K ptrace p E) (\<lambda>(p, E). Returns (procs @ [p], E))) ([], E) = Returns (procs, E1)"
    and procs: "list_all2 (\<lambda>pid p. process_read kc (V pid) p) pids procs"
    and L: "held (fds E) (map pagemap_fd procs) L (fds E1)" "card L = length pids"
    and E1: "err E1 = err E @ concat (map (\<lambda>pid. view_swaps (V pid)) pids)"
      "traced E1 = traced E @ concat (map visit pids)"
    using read_all [OF assms(1) ok assms(5-8)] by blast
  have "length procs = length pids" using procs by (simp add: list_all2_lengthD)
  with read_keys [OF procs ok] L E1 show thesis
    using assms(2,3) by (intro that [of procs E1 L]) (simp_all add: setcmp_main_def args read)
qed


text \<open>
  A kernel that shows one and the same process under every id: two pages, the first with one byte
  that is not zero and a frame that is mapped once.
\<close>

definition sample_view :: proc_view where
  "sample_view = \<lparr>v_entries = [sample_entry], v_image = sample_image, v_pagemap = (\<lambda>i. 0x8000000000000005)\<rparr>"

definition sample_word :: "string \<Rightarrow> u64" where
  "sample_word name = (if name = ''/proc/kpagecount'' then 1 else 0x8000000000000005)"

definition tool_kernel :: "u64 kernel" where
  "tool_kernel = image_kernel\<lparr>k_open := (\<lambda>name used. 1 + Max (insert 2 used)),
     k_pread := (\<lambda>name n off. (int n, replicate (n div 8) (sample_word name)))\<rparr>"

lemma tool_kernel_serves: "serves tool_kernel name (\<lambda>i. sample_word name)"
proof -
  have "map (\<lambda>i. x) [off..<off + n] = replicate n (x :: u64)" for off n x
    by (simp add: map_replicate_const)
  then show ?thesis by (auto simp: serves_def tool_kernel_def)
qed

lemma tool_watch_ok: "watch_ok tool_kernel sample_env" and tool_clock_ok: "clock_ok tool_kernel"
  using image_clock by (simp_all add: watch_ok_def clock_ok_def tool_kernel_def)

lemma tool_kernel_ok: "kernel_ok tool_kernel (\<lambda>i. 1)"
proof -
  have "0 \<le> 1 + Max (insert 2 used) \<and> 1 + Max (insert 2 used) \<notin> used" if "finite used" for used :: "int set"
  proof -
    have "2 \<le> Max (insert 2 used)" "\<And>x. x \<in> used \<Longrightarrow> x \<le> Max (insert 2 used)" using that by (auto intro: Max_ge)
    then show ?thesis by force
  qed
  moreover have "serves tool_kernel ''/proc/kpagecount'' (\<lambda>i. 1)"
    using tool_kernel_serves [of "''/proc/kpagecount''"] by (simp add: sample_word_def)
  ultimately show ?thesis
    using tool_kernel_serves tool_clock_ok unfolding kernel_ok_def
    by (auto simp: tool_kernel_def image_kernel_def full_kernel_def sample_kernel_def)
qed

lemma sample_view_shown: "shows_process tool_kernel pid sample_view"
proof -
  have "proc_path pid ''pagemap'' \<noteq> ''/proc/kpagecount''"
  proof -
    have "last (proc_path pid ''pagemap'') = CHR ''p''" by (simp add: proc_path_def)
    then show ?thesis by auto
  qed
  then have "serves tool_kernel (proc_path pid ''pagemap'') (\<lambda>i. 0x8000000000000005)"
    using tool_kernel_serves [of "proc_path pid ''pagemap''"] by (simp add: sample_word_def)
  moreover have "serves_memory tool_kernel f sample_image" for f
    using image_kernel_serves [of f] by (simp add: serves_memory_def tool_kernel_def)
  moreover have "entries_ok [sample_entry]" using sample_entry_ok sample_aligned by (auto simp: entries_ok_def)
  ultimately show ?thesis
    by (auto simp: shows_process_def sample_view_def)
      (simp_all add: tool_kernel_def image_kernel_def full_kernel_def sample_entry_def pageSize_def)
qed

lemma sample_dom: "finite (dom (fds sample_env))" "err sample_env = []" "traced sample_env = []"
  by (simp_all add: sample_env_def)

definition sample_hash :: u32 where
  "sample_hash = page_hash (sample_image 4096)"

lemma sample_image_hash: "sample_hash \<noteq> 0" "page_hash (sample_image 8192) = 0"
proof -
  have "hash_round 0 1 \<noteq> 0" by code_simp
  then show "sample_hash \<noteq> 0"
    using hash_loop_inj [of "replicate 4095 0" "hash_round 0 1" 0]
    by (simp add: sample_hash_def sample_image_def page_hash_zero_iff hash_loop_zeros)
  have "(8192 :: u64) \<noteq> 4096" by simp
  then have "sample_image 8192 = replicate (Suc 4095) 0" by (simp only: sample_image_def replicate_Suc if_False)
  then show "page_hash (sample_image 8192) = 0" by (simp only: page_hash_zero_iff hash_loop_zeros)
qed

lemma sample_anon: "anon_regions [sample_entry] = [region_of sample_entry]" "page_total (region_of sample_entry) = 2"
proof -
  show "page_total (region_of sample_entry) = 2"
    by (simp add: region_of_def sample_entry_def page_total_def pageSize_def)
  then show "anon_regions [sample_entry] = [region_of sample_entry]"
    by (simp add: anon_regions_def) (simp add: region_of_def sample_entry_def mr_is_anon_def made_name_def)
qed

lemma sample_frame: "frame_at sample_view va \<noteq> 0"
proof -
  have "pagemap_pfn 0x8000000000000005 \<noteq> 0" by code_simp
  then show ?thesis by (simp add: frame_at_def sample_view_def)
qed

lemma sample_view_keys:
  "view_ok sample_view" "lit_keys sample_view = [sample_hash]" "own_keys (\<lambda>i. 1) sample_view = [sample_hash]"
proof -
  have addrs: "view_addrs sample_view = [4096, 8192]"
    by (simp add: view_addrs_def sample_view_def sample_anon region_addrs_def upt_rec page_addr_def pageSize_def)
      (simp add: region_of_def sample_entry_def)
  have hash: "hash_at sample_view 4096 = sample_hash" "hash_at sample_view 8192 = 0"
    using sample_image_hash(2) by (simp_all add: hash_at_def sample_view_def sample_hash_def)
  have "to_int 1 = 1" using to_int_small [of 1] by simp
  then have own: "share_at (\<lambda>i. 1) sample_view va = 1" for va
    by (simp add: share_at_def)
  show "view_ok sample_view"
    using sample_frame by (simp add: view_ok_def addrs INT_MAX_def) (simp add: sample_view_def)
  show "lit_keys sample_view = [sample_hash]" "own_keys (\<lambda>i. 1) sample_view = [sample_hash]"
    using sample_image_hash(1) by (simp_all add: lit_keys_def own_keys_def addrs lit_at_def own_at_def hash own)
qed

lemma sample_swaps: "view_swaps sample_view = []"
proof -
  have "(0x8000000000000005 :: u64) AND PM_SWAP = 0" by code_simp
  then show ?thesis
    by (simp add: view_swaps_def region_swaps_def swap_texts_def swap_text_def sample_view_def)
qed

lemma sample_pid_ok: "INT_MIN \<le> pid \<and> pid \<le> INT_MAX \<Longrightarrow> pid_ok tool_kernel (granting (\<lambda>p. True)) (\<lambda>p. sample_view) pid"
  by (simp add: pid_ok_def sample_view_shown sample_view_keys granting_attach)

lemma sample_untraced: "distinct pids \<Longrightarrow> all_untraced sample_env pids"
  by (simp add: all_untraced_def sample_env_def tracee_of_def)

lemma sample_report:
  "setcmp_report [[k], [k]] [[k], [k]] =
     ''intra proc dup'' @ [newline] @ ''0'' @ [newline] @ ''0'' @ [newline] @ [newline] @
     ''inter proc dup'' @ [newline] @ ''1 '' @ [newline] @ ''1 '' @ [newline] @ [newline] @
     ''total dup'' @ [newline] @ ''1 1 '' @ [newline] @ ''1 1 '' @ [newline] @ [newline]"
proof -
  have other: "\<exists>j < Suc (Suc 0). j \<noteq> i \<and> k' \<in> set ([[k], [k]] ! j) \<longleftrightarrow> True" if "i < 2" "k' = k" for i k'
    using that by (auto simp: less_2_cases_iff intro: exI [of _ "1 - i"])
  have "{k' \<in> {k}. \<exists>j < Suc (Suc 0). j \<noteq> i \<and> k' \<in> set ([[k], [k]] ! j)} = {k}"
    "filter (\<lambda>k'. \<exists>j < Suc (Suc 0). j \<noteq> i \<and> k' \<in> set ([[k], [k]] ! j)) [k] = [k]" if "i < 2" for i
    using that by (auto simp: less_2_cases_iff intro: exI [of _ "1 - i"])
  from this [of 0] this [of 1] show ?thesis
    by (simp add: setcmp_report_def upt_rec fmt_d_eval)
qed


section \<open>\<open>cmp\<close>\<close>

text \<open>\<open>cmp\<close> up to the point where both processes have been read.\<close>

lemma cmp_after_reading:
  fixes K :: "'f kernel"
  assumes "kernel_ok K kc" and "pid_ok K ptrace V pid1" and "pid_ok K ptrace V pid2" and "finite (dom (fds E))"
    and "watch_ok K E" and "ptrace_ok ptrace" and new: "all_untraced E [pid1, pid2]"
  obtains r1 r2 :: "'f process" and E4 L where
    "cmp_main K ptrace md granted qsort blk1 blk2 [name, fmt_d pid1, fmt_d pid2] E H =
      continue (print_simi md granted qsort blk1 blk2 r1 r2 H) (\<lambda>(H, out).
      continue (proc_del r1 (say out E4)) (\<lambda>E. continue (proc_del r2 E) (\<lambda>E. Returns (0, mem_time_report E))))"
    and "process_read kc (V pid1) r1" and "process_read kc (V pid2) r2"
    and "held (fds E) (map pagemap_fd [r1, r2]) L (fds E4)" and "card L = 2"
    and "err E4 = err E @ view_swaps (V pid1) @ view_swaps (V pid2) @ ''pid1 = '' @ fmt_d pid1 @ '', pid2 = '' @ fmt_d pid2 @ [newline]"
    and "traced E4 = traced E @ [(Attach, pid1, 0), (Attach, pid2, 0), (Cont, pid1, 0), (Detach, pid1, - 1),
        (Cont, pid2, 0), (Detach, pid2, - 1)]"
    and "t_total (watch E4) = t_total (watch E) + spent K (ticks E) + spent K (ticks E + 2)"
proof -
  let ?E0 = "E\<lparr>traced := traced E @ [(Attach, pid1, 0), (Attach, pid2, 0)]\<rparr>"
  let ?p1 = "proc_init pid1 :: 'f process" and ?p2 = "proc_init pid2 :: 'f process"
  have pid: "pr_pid ?p1 = pid1" "pr_pid ?p2 = pid2" by (simp_all add: proc_init_def)
  have start: "atoi (fmt_d pid1) = Returns pid1" "atoi (fmt_d pid2) = Returns pid2"
    "proc_attach ptrace ?p1 E = Returns (0, E\<lparr>traced := traced E @ [(Attach, pid1, 0)]\<rparr>)"
    "proc_attach ptrace ?p2 (E\<lparr>traced := traced E @ [(Attach, pid1, 0)]\<rparr>) = Returns (0, ?E0)"
    using assms(2,3) new by (simp_all add: pid_ok_def atoi_fmt_d proc_attach_granted pid all_untraced_def tracee_of_append)
  have w: "watch_ok K ?E0" using assms(5) by (simp add: watch_ok_def)
  obtain q1 q2 r1 r2 :: "'f process" and E1 E2 E3 E4 L where steps: "proc_do K ?p1 ?E0 = Returns (q1, E1)" "proc_do K ?p2 E1 = Returns (q2, E2)"
    "proc_parse_pagemap K q1 E2 = Returns (r1, E3)" "proc_parse_pagemap K q2 E3 = Returns (r2, E4)"
    and r: "process_read kc (V pid1) r1" "process_read kc (V pid2) r2" "pr_pid r1 = pid1" "pr_pid r2 = pid2"
    and L: "held (fds E) (map pagemap_fd [r1, r2]) L (fds E4)" "card L = 2"
    and E4: "err E4 = err E @ view_swaps (V pid1) @ view_swaps (V pid2)" "traced E4 = traced ?E0"
      "t_total (watch E4) = t_total (watch E) + spent K (ticks E) + spent K (ticks E + 2)"
    using read_both [of K kc ?p1 "V pid1" ?p2 "V pid2" ?E0] assms(1-4) w unfolding pid by (auto simp: pid_ok_def)
  let ?T = "traced E @ [(Attach, pid1, 0), (Attach, pid2, 0), (Cont, pid1, 0), (Detach, pid1, - 1), (Cont, pid2, 0), (Detach, pid2, - 1)]"
  let ?E5 = "say (''pid1 = '' @ fmt_d pid1 @ '', pid2 = '' @ fmt_d pid2 @ [newline]) E4"
  have let_go: "proc_detach ptrace r2 (proc_detach ptrace r1 E') = E'\<lparr>traced := ?T\<rparr>" if "traced E' = traced ?E0" for E'
    using new that by (simp add: proc_detach_eq [OF assms(6)] r(3,4) all_untraced_def tracee_of_append)
  have later: "(say out E')\<lparr>traced := h\<rparr> = say out (E'\<lparr>traced := h\<rparr>)" for out E' h by (simp add: say_def)
  show thesis
    by (rule that [of r1 r2 "?E5\<lparr>traced := ?T\<rparr>" L]) (use r(1,2) L E4 in \<open>simp_all add: cmp_main_def start steps let_go later\<close>)
qed


lemma sample_product: "view_redunds (\<lambda>i. 1) sample_view sample_view
    = [\<lparr>rd_dup = 1, rd_m1 = region_of sample_entry, rd_m2 = region_of sample_entry\<rparr>]"
proof -
  have "own_region_keys (\<lambda>i. 1) sample_view (region_of sample_entry) = [sample_hash]"
    using sample_view_keys(3)
    by (simp add: own_keys_def own_region_keys_def view_addrs_def sample_anon sample_view_def)
  then show ?thesis
    by (simp add: view_redunds_def view_redund_def) (simp add: sample_view_def sample_anon)
qed

lemma sample_spent: "t_total (watch sample_env) = 0" "ticks sample_env = 0"
  "spent tool_kernel 0 = 250" "spent tool_kernel (Suc (Suc 0)) = 250"
  by (simp_all add: sample_env_def tool_kernel_def image_kernel_def full_kernel_def sample_kernel_def spent_def)

lemma sample_time: "time_line 250 = ''read_mem time : 0.000250 s'' @ [newline]"
  "time_line 500 = ''read_mem time : 0.000500 s'' @ [newline]"
proof -
  have "replicate 3 CHR ''0'' = ''000''" by (simp add: numeral_3_eq_3)
  then show "time_line 250 = ''read_mem time : 0.000250 s'' @ [newline]"
    "time_line 500 = ''read_mem time : 0.000500 s'' @ [newline]"
    by (simp_all add: time_line_def fmt_seconds_def CLOCKS_PER_SEC_def print_padded_def fmt_d_eval)
qed


section \<open>\<open>memdump\<close>\<close>

text \<open>
  C5: \<open>memdump\<close> on a process id attaches, reads and lets go, and prints every anonymous region with
  a line for each of its pages that some page table refers to, with the count, the address and
  the hash, and at last the time the reading took; that is, if every page of every such region is
  present. A single page without a frame makes the whole run undefined.
\<close>

theorem memdump_main_correct:
  fixes K :: "'f kernel"
  assumes "kernel_ok K kc" and "pid_ok K ptrace V pid" and "finite (dom (fds E))" and "watch_ok K E"
    and "ptrace_ok ptrace" and "tracee_of (traced E) pid = Untraced"
  shows "if list_all (all_present (V pid)) (anon_regions (v_entries (V pid)))
    then \<exists>E' fd. memdump_main K ptrace [name, fmt_d pid] E = Returns (0, [], E') \<and>
      err E' = err E @ view_swaps (V pid) @
        concat (map (region_text kc (V pid)) (anon_regions (v_entries (V pid)))) @ time_line (t_total (watch E) + spent K (ticks E)) \<and>
      traced E' = traced E @ visit pid \<and>
      fd \<notin> dom (fds E) \<and> fds E' = (fds E)(fd \<mapsto> ''/proc/kpageflags'')
    else memdump_main K ptrace [name, fmt_d pid] E = Undefined"
proof -
  have ok: "shows_process K pid (V pid)" "view_ok (V pid)" "may_attach ptrace pid" "atoi (fmt_d pid) = Returns pid"
    using assms(2) by (simp_all add: pid_ok_def atoi_fmt_d)
  obtain p :: "'f process" and fd E1 where p: "read_process K ptrace (proc_init pid) E = Returns (p, E1)"
    "process_read kc (V pid) p" "pagemap_fd p \<notin> dom (fds E)" "fd \<notin> dom (fds E)" "fd \<noteq> pagemap_fd p"
    "fds E1 = (fds E)(pagemap_fd p \<mapsto> proc_path pid ''pagemap'', fd \<mapsto> ''/proc/kpageflags'')"
    "err E1 = err E @ view_swaps (V pid)" "traced E1 = traced E @ visit pid"
    "watch E1 = watch (timed K E)"
    using read_process_view [OF assms(1) ok(1) assms(3,4,5) ok(3) assms(6)] by blast
  have "pr_maps p = Some (process_view kc (V pid))" using p(2) by (simp add: process_read_def)
  note print = proc_print_view [OF ok(1,2) this]
  have "(fds E1)(pagemap_fd p := None) = (fds E)(fd \<mapsto> ''/proc/kpageflags'')"
    using p(3,5) by (auto simp: p(6) fun_eq_iff)
  then show ?thesis
    using p(4,7-9) proc_del_read [OF p(2) ok(2)]
    by (auto simp: memdump_main_def mem_time_report_def say_def ok(4) p(1) print close_fd_def simp del: fun_upd_apply)
qed

theorem memdump_main_correct_witness:
  "\<exists>E'. memdump_main tool_kernel (granting (\<lambda>p. True)) [''memdump'', ''7''] sample_env
      = Returns (0, [], E') \<and>
    err E' = region_text (\<lambda>i. 1) sample_view (region_of sample_entry) @ ''read_mem time : 0.000250 s'' @ [newline] \<and>
    traced E' = [(Attach, 7, 0), (Cont, 7, 0), (Detach, 7, - 1)]"
proof -
  have "fmt_d 7 = ''7''" by (simp add: fmt_d_eval)
  moreover have "anon_regions (v_entries sample_view) = [region_of sample_entry]"
    by (simp add: sample_view_def sample_anon)
  moreover have "all_present sample_view (region_of sample_entry)"
    by (simp add: all_present_def list_all_iff sample_frame)
  ultimately show ?thesis
    using memdump_main_correct [OF tool_kernel_ok sample_pid_ok _ _ granting_ok, of 7 sample_env "''memdump''"] sample_untraced [of "[7]"]
    by (auto simp: all_untraced_def INT_MIN_def INT_MAX_def visit_def sample_dom tool_watch_ok sample_swaps sample_spent sample_time)
qed

text \<open>
  C39: The other modes: \<open>memdump <pid> -m\<close> prints how many of the regions with at least one page are
  anonymous and how many there are; \<open>memdump <pid> -n\<close> prints for every anonymous region its number
  of pages, how many do not hash to zero, and its name; any other third argument gets the usage.
  Neither mode attaches to the process, and \<open>-n\<close> leaves its pagemap file open.
\<close>

theorem memdump_options_correct:
  fixes K :: "'f kernel"
  assumes "INT_MIN \<le> pid" and "pid \<le> INT_MAX" and "length es < 2 ^ 31"
    and "k_maps K pid = Some (concat (map show_entry es))" and "k_mem K pid = Some f" and "serves_memory K f img"
    and "\<forall>e \<in> set es. entry_ok e \<and> (\<exists>n. page_aligned (region_of e) n)" and "\<forall>n. k_malloc K n"
    and "0 \<le> k_open K (proc_path pid ''pagemap'') (dom (fds E))" and "clock_ok K" and "watch_ok K E"
  shows "memdump_main K ptrace [name, fmt_d pid, ''-m''] E =
      (let ms = filter (keep_region False 0) (map region_of es) in
       Returns (0, [], say (fmt_d (int (length (filter mr_is_anon ms))) @ '' '' @ fmt_d (int (length ms)) @ [newline]) E)) \<and>
    (\<exists>E'. memdump_main K ptrace [name, fmt_d pid, ''-n''] E = Returns (0, [], E') \<and>
      err E' = err E @ concat (map (\<lambda>mr. fmt_d (int (page_total mr)) @ '' '' @
        fmt_d (int (card {j. j < page_total mr \<and> page_hash (img (page_addr mr j)) \<noteq> 0})) @ '' '' @
        pathname mr @ [newline]) (filter (\<lambda>mr. mr_is_anon mr \<and> 0 < page_total mr) (map region_of es))) \<and>
      traced E' = traced E \<and>
      fds E' = (fds E)(k_open K (proc_path pid ''pagemap'') (dom (fds E)) \<mapsto> proc_path pid ''pagemap'')) \<and>
    (opt \<notin> {''-m'', ''-n''} \<longrightarrow> memdump_main K ptrace [name, arg, opt] E = Returns (0, memdump_usage name, E))"
proof -
  have ok: "entries_ok es" "\<forall>e \<in> set es. entry_ok e" using assms(7) by (auto simp: entries_ok_def)
  have small: "int (length es) \<le> INT_MAX" using assms(3) by (simp add: INT_MAX_def)
  show ?thesis
    using maps_stat_entries [OF assms(4) ok(2) assms(8) small] nonzero_stat_image [OF assms(4,5,9) ok(1) assms(8,3,10,11,6)]
      atoi_fmt_d [OF assms(1,2)]
    by (auto simp: memdump_main_def Let_def anon_regions_def say_def)
qed

theorem memdump_options_correct_witness:
  "memdump_main image_kernel (granting (\<lambda>p. True)) [''memdump'', ''7'', ''-m''] sample_env = Returns (0, [], say (''1 1'' @ [newline]) sample_env) \<and>
   memdump_main image_kernel (granting (\<lambda>p. True)) [''memdump'', ''7'', ''-x''] sample_env = Returns (0, memdump_usage ''memdump'', sample_env)"
proof -
  have keep: "filter (keep_region False 0) (map region_of [sample_entry]) = [region_of sample_entry]"
    using mr_page_num_exact [of "region_of sample_entry"] sample_anon(2) by (simp add: keep_region_def)
  have anon: "filter mr_is_anon [region_of sample_entry] = [region_of sample_entry]"
    by (simp add: region_of_def sample_entry_def mr_is_anon_def made_name_def)
  have seven: "fmt_d 7 = ''7''" "fmt_d 1 = ''1''" by (simp_all add: fmt_d_eval)
  have "\<forall>e \<in> set [sample_entry]. entry_ok e \<and> (\<exists>n. page_aligned (region_of e) n)"
    using sample_entry_ok sample_aligned by auto
  from memdump_options_correct [OF _ _ _ _ _ image_kernel_serves this _ _ image_clock, of 7 0 "granting (\<lambda>p. True)" "''memdump''" "''-x''" "''7''",
      unfolded keep Let_def anon seven]
  show ?thesis
    by (simp add: INT_MIN_def INT_MAX_def image_kernel_def full_kernel_def sample_kernel_def seven)
qed

section \<open>The tables\<close>

text \<open>
  C28: Whatever the memory stream delivers, reading a process whose other files are in order returns,
  and its tables are well formed: every region is anonymous, of whole pages and at least one,
  with an array of one element more; the hashes fill a prefix of it, the counts are there
  exactly for the pages with a frame, and the spare element was never written.
\<close>

theorem read_process_typed:
  fixes K :: "'f kernel"
  assumes "kernel_ok K kc" and "k_maps K pid = Some (concat (map show_entry es))" and "k_mem K pid = Some f"
    and "serves K (proc_path pid ''pagemap'') pm" and "entries_ok es"
    and "\<forall>e \<in> set es. unat (e_start e) mod pageSize = 0" and "finite (dom (fds E))" and "0 \<le> ptrace (traced E) Attach pid"
    and "watch_ok K E"
  shows "\<exists>p E' ms. read_process K ptrace (proc_init pid) E = Returns (p, E') \<and> pr_maps p = Some ms \<and>
    length ms = length (anon_regions es) \<and> (\<forall>mr \<in> set ms. region_typed pm mr)"
  using assms by (rule read_process_shape [where ptrace = ptrace])

text \<open>A stream whose reads always fall short.\<close>

theorem read_process_typed_witness:
  "\<exists>p E' ms. read_process (tool_kernel\<lparr>k_fread := (\<lambda>f. ([], f))\<rparr>) (granting (\<lambda>p. True)) (proc_init 7) sample_env = Returns (p, E') \<and>
    pr_maps p = Some ms \<and> length ms = 1 \<and> (\<forall>mr \<in> set ms. region_typed (\<lambda>i. sample_word (proc_path 7 ''pagemap'')) mr)"
proof -
  let ?K = "tool_kernel\<lparr>k_fread := (\<lambda>f. ([], f))\<rparr>"
  have "kernel_ok ?K (\<lambda>i. 1)" "watch_ok ?K sample_env"
    using tool_kernel_ok tool_watch_ok by (simp_all add: kernel_ok_def serves_def clock_ok_def watch_ok_def)
  moreover have "serves ?K name (\<lambda>i. sample_word name)" for name
    using tool_kernel_serves [of name] by (simp add: serves_def)
  moreover have "entries_ok [sample_entry]" using sample_entry_ok sample_aligned by (auto simp: entries_ok_def)
  ultimately show ?thesis
    using read_process_typed [of ?K "\<lambda>i. 1" 7 "[sample_entry]" 0 "\<lambda>i. sample_word (proc_path 7 ''pagemap'')" sample_env "granting (\<lambda>p. True)"]
    by (simp add: sample_anon sample_dom tracee_of_def)
      (simp add: tool_kernel_def image_kernel_def full_kernel_def sample_kernel_def sample_entry_def pageSize_def)
qed

end
