(* ===== verification/Failures.thy ===== *)
theory Failures
  imports Mains_Spec
begin

text \<open>
  The runs that end early: processes that cannot be traced or read, process ids given twice, and
  wrong numbers of arguments.
\<close>

section \<open>Processes that cannot be read\<close>

definition unreadable :: "'f kernel \<Rightarrow> ptrace_fun \<Rightarrow> int \<Rightarrow> bool" where
  "unreadable K ptrace pid \<longleftrightarrow> refuses ptrace pid \<or> k_maps K pid = None \<or> k_mem K pid = None"

lemma proc_do_closed:
  assumes "k_maps K (pr_pid p) = None \<or> k_mem K (pr_pid p) = None"
  shows "proc_do K p E = Exits EXIT_FAILURE"
  using assms by (cases "k_maps K (pr_pid p)") (auto simp: proc_do_def open_proc_files_def open_proc_file_def)

lemma proc_attach_cases:
  obtains "proc_attach ptrace p E = Exits EXIT_FAILURE" | E' where "proc_attach ptrace p E = Returns (0, E')"
  by (cases "ptrace (traced E) Attach (pr_pid p) < 0") (simp_all add: proc_attach_def request_def Let_def)

lemma read_process_fails:
  assumes "unreadable K ptrace pid \<or> ptrace (traced E) Attach pid < 0"
  shows "read_process K ptrace (proc_init pid :: 'f process) E = Exits EXIT_FAILURE"
proof -
  let ?p = "proc_init pid :: 'f process"
  have p: "pr_pid ?p = pid" by (simp add: proc_init_def)
  show ?thesis
  proof (cases "ptrace (traced E) Attach pid < 0")
    case True
    then show ?thesis using proc_attach_refused [of ptrace E ?p] by (simp add: read_process_def p)
  next
    case False
    then have "k_maps K pid = None \<or> k_mem K pid = None"
      using assms by (auto simp: unreadable_def refuses_def)
    then have "proc_do K ?p E' = Exits EXIT_FAILURE" for E' by (intro proc_do_closed) (simp add: p)
    then show ?thesis by (cases rule: proc_attach_cases [of ptrace ?p E]) (simp_all add: read_process_def)
  qed
qed

section \<open>\<open>setcmp\<close>\<close>



text \<open>
  C7: \<open>setcmp\<close> never ends normally when the pages of one of its processes are all zero or shared:
  the reports before the last are computed, then \<open>print_total_dup\<close> dereferences what \<open>set_first\<close>
  makes of an empty set.
\<close>

theorem setcmp_main_crashes:
  fixes K :: "'f kernel"
  assumes "malloc_ok md" and "models H C D" and "kernel_ok K kc"
    and "2 \<le> length pids" and "length pids + 1 < MAX_PID"
    and "\<forall>pid \<in> set pids. pid_ok K ptrace V pid" and "pid \<in> set pids" and "own_keys kc (V pid) = []"
    and "report_blocks b1 b2 b3 (length pids) C" and "finite (dom (fds E))" and "watch_ok K E"
    and "ptrace_ok ptrace" and "all_untraced E pids"
  shows "setcmp_main K ptrace md b1 b2 b3 (name # map fmt_d pids) E H \<noteq> Returns r"
proof
  assume run: "setcmp_main K ptrace md b1 b2 b3 (name # map fmt_d pids) E H = Returns r"
  obtain procs :: "'f process list" and E1 where
    steps: "setcmp_main K ptrace md b1 b2 b3 (name # map fmt_d pids) E H =
      continue (print_intra_simi md b1 procs H) (\<lambda>(H, t1). continue (print_inter_simi md b2 procs H) (\<lambda>(H, t2).
      continue (print_total_dup md b3 procs H) (\<lambda>(H, t3).
      continue (for_all procs proc_del (say (t1 @ [newline] @ t2 @ [newline] @ t3 @ [newline]) E1)) (\<lambda>E. Returns (0, E)))))"
    and len: "length procs = length pids"
    and fit: "\<forall>p \<in> set procs. process_fits p \<and> (\<exists>V. process_read kc V p \<and> view_ok V)"
    and keys: "map (process_keys candidate) procs = map (\<lambda>pid. own_keys kc (V pid)) pids"
    by (rule setcmp_after_reading [OF assms(3-6,10-13)])
  obtain i where i: "i < length pids" "pids ! i = pid" using assms(7) by (auto simp: in_set_conv_nth)
  then have none: "process_keys candidate (procs ! i) = []"
    using arg_cong [OF keys, of "\<lambda>l. l ! i"] len assms(8) by simp
  have fits: "\<forall>p \<in> set procs. process_fits p" using fit by blast
  have b: "\<forall>i < length procs. blocks_ok [fst (b1 i), snd (b1 i)] C"
    "blocks_ok (map b2 [0..<length procs]) C" "blocks_ok (pair_blocks b3 (length procs)) C" "length procs \<le> MAX_PID"
    using assms(5,9) len by (simp_all add: report_blocks_def)
  obtain H1 t1 H2 t2 r3 where reports: "print_intra_simi md b1 procs H = Returns (H1, t1)"
    "print_inter_simi md b2 procs H1 = Returns (H2, t2)" "print_total_dup md b3 procs H2 = Returns r3"
    using run unfolding steps by (auto simp: continue_eq_Returns)
  note M = data_malloc.intro [OF assms(1)]
  have "models H1 C D" using data_malloc.intra [OF M assms(2) b(1) fits] by (simp add: reports(1))
  then have "models H2 C D" using data_malloc.inter [OF M _ b(2,4) fits] reports(2) by fastforce
  from data_malloc.total_undefined [OF M this b(3,4) fits _ _ none, where r = r3] reports(3) show False
    using i(1) len assms(4) by simp
qed

text \<open>Processes whose memory reads as zero pages.\<close>

definition zero_kernel :: "u64 kernel" where
  "zero_kernel = tool_kernel\<lparr>k_fread := (\<lambda>f. (replicate pageSize 0, f + of_nat pageSize))\<rparr>"

definition zero_view :: proc_view where
  "zero_view = sample_view\<lparr>v_image := (\<lambda>a. replicate pageSize 0)\<rparr>"

lemma zero_view_shown: "kernel_ok zero_kernel (\<lambda>i. 1)" "shows_process zero_kernel pid zero_view" "watch_ok zero_kernel E = watch_ok tool_kernel E"
proof -
  have same: "serves zero_kernel fl g = serves tool_kernel fl g" "clock_ok zero_kernel = clock_ok tool_kernel"
    "k_open zero_kernel = k_open tool_kernel" "k_malloc zero_kernel = k_malloc tool_kernel" for fl g
    by (simp_all add: serves_def clock_ok_def zero_kernel_def)
  show "kernel_ok zero_kernel (\<lambda>i. 1)"
    using tool_kernel_ok unfolding kernel_ok_def same .
  have "serves_memory zero_kernel f (\<lambda>a. replicate pageSize 0)" for f
    unfolding serves_memory_def
    by (intro conjI exI [of _ "\<lambda>a. a"])
      (simp_all add: zero_kernel_def tool_kernel_def image_kernel_def full_kernel_def sample_kernel_def)
  then show "shows_process zero_kernel pid zero_view"
    using sample_view_shown [of pid] unfolding shows_process_def same by (auto simp: zero_kernel_def zero_view_def)
  show "watch_ok zero_kernel E = watch_ok tool_kernel E" by (simp add: watch_ok_def zero_kernel_def)
qed

lemma zero_view_keys: "view_ok zero_view" "own_keys kc zero_view = []"
proof -
  have "page_hash (replicate pageSize 0) = 0" using zero_page_hash_eq by (simp add: zero_page_hash_def)
  then have dark: "\<not> lit_at zero_view va" for va by (simp add: lit_at_def hash_at_def zero_view_def)
  have "view_addrs zero_view = view_addrs sample_view" "v_entries zero_view = v_entries sample_view"
    by (simp_all add: view_addrs_def zero_view_def)
  then show "view_ok zero_view" using sample_view_keys(1) dark by (simp add: view_ok_def)
  show "own_keys kc zero_view = []" by (simp add: own_keys_def own_at_def dark)
qed

theorem setcmp_main_crashes_witness:
  "setcmp_main zero_kernel (granting (\<lambda>p. True)) pool_alloc sample_blocks (\<lambda>i. if i = 0 then 64 else 128) sample_blocks
    [''setcmp'', ''7'', ''8''] sample_env empty_heap \<noteq> Returns (0, sample_env)"
proof -
  have args: "''setcmp'' # map fmt_d [7, 8] = [''setcmp'', ''7'', ''8'']" by (simp add: fmt_d_eval)
  have "report_blocks sample_blocks (\<lambda>i. if i = 0 then 64 else 128) sample_blocks 2 (Map.empty :: ptr \<rightharpoonup> u32 multiset)"
    using sample_blocks_ok by (auto simp: report_blocks_def upt_rec) (auto simp: blocks_ok_def sample_blocks_def)
  moreover have "pid_ok zero_kernel (granting (\<lambda>p. True)) (\<lambda>p. zero_view) pid" if "pid = 7 \<or> pid = 8" for pid
    using that by (auto simp: pid_ok_def INT_MIN_def INT_MAX_def granting_attach zero_view_shown zero_view_keys)
  ultimately show ?thesis
    using setcmp_main_crashes [OF pool.malloc models_empty zero_view_shown(1), of "[7, 8]" "granting (\<lambda>p. True)" "\<lambda>p. zero_view" 7
        sample_blocks "\<lambda>i. if i = 0 then 64 else 128" sample_blocks sample_env "''setcmp''", unfolded args]
    by (simp add: MAX_PID_def zero_view_keys zero_view_shown sample_untraced sample_dom tool_watch_ok granting_ok numeral_2_eq_2)
qed

section \<open>\<open>cmp\<close> and \<open>memdump\<close>\<close>



section \<open>Wrong numbers of arguments\<close>

text \<open>\<open>setcmp\<close> and \<open>cmp\<close> print how they are called and return -1; nothing else changes.\<close>

lemma setcmp_main_usage:
  "length args < 2 \<or> MAX_PID \<le> length args + 1 \<Longrightarrow>
   setcmp_main K ptrace md b1 b2 b3 (name # args) E H = Returns (- 1, say (name @ '' <pid> <pid> ...  <pid>'' @ [newline]) E)"
  by (auto simp: setcmp_main_def)

lemma cmp_main_usage:
  "length args \<noteq> 2 \<Longrightarrow>
   cmp_main K ptrace md granted qsort blk1 blk2 (name # args) E H = Returns (- 1, say (name @ '' <pid> <pid>'' @ [newline]) E)"
  by (auto simp: cmp_main_def split: list.split)

end
