(* ===== verification/Napp.thy ===== *)
theory Napp
  imports Mains
begin

text \<open>
  \<open>testnapp.c\<close>, the process the tools are tried on: it fills four blocks of memory, each with a letter
  of its own, and sleeps. What the tools see of it follows.
\<close>

section \<open>Definitions\<close>

definition BUF_SIZE :: nat where
  "BUF_SIZE = 4096 * 100"

type_synonym memory = "u64 \<Rightarrow> u8"

text \<open>The bytes of a block; addresses wrap.\<close>

definition in_block :: "ptr \<Rightarrow> nat \<Rightarrow> u64 \<Rightarrow> bool" where
  "in_block p n a \<longleftrightarrow> unat (a - p) < n"

definition memset :: "ptr \<Rightarrow> u8 \<Rightarrow> nat \<Rightarrow> memory \<Rightarrow> memory" where
  "memset p c n M = (\<lambda>a. if in_block p n a then c else M a)"

text \<open>
  \<open>g_buf\<close> is the global buffer. \<open>malloc\<close> and \<open>mmap\<close> return the address of a block of a size; neither
  result is tested, so the null pointer and \<open>MAP_FAILED\<close> are written to.
\<close>

definition do_something :: "ptr \<Rightarrow> (nat \<Rightarrow> ptr) \<Rightarrow> (nat \<Rightarrow> ptr) \<Rightarrow> ptr \<Rightarrow> memory \<Rightarrow> memory outcome" where
  "do_something g_buf malloc mmap l_buf M =
     (let M = memset g_buf 0x31 BUF_SIZE M;
          buf = malloc (BUF_SIZE * 2)
      in if buf = NULL then Undefined
         else
           let M = memset buf 0x32 (BUF_SIZE * 2) M;
               M = memset l_buf 0x33 (BUF_SIZE * 3) M;
               m_buf = mmap (BUF_SIZE * 4)
           in if m_buf = - 1 then Undefined else Returns (memset m_buf 0x34 (BUF_SIZE * 4) M))"

definition napp_line :: "int \<Rightarrow> string" where
  "napp_line pid = ''pid = '' @ fmt_d pid @ '', test native app is running'' @ [newline]"

text \<open>\<open>main\<close>: the status, the memory while it sleeps, and what it prints.\<close>

definition napp_main ::
  "int \<Rightarrow> ptr \<Rightarrow> (nat \<Rightarrow> ptr) \<Rightarrow> (nat \<Rightarrow> ptr) \<Rightarrow> ptr \<Rightarrow> memory \<Rightarrow> (int \<times> memory \<times> string) outcome" where
  "napp_main pid g_buf malloc mmap l_buf M =
     continue (do_something g_buf malloc mmap l_buf M) (\<lambda>M.
     continue (for_all [0..<100] (\<lambda>i out. Returns (out @ napp_line pid)) []) (\<lambda>out. Returns (0, M, out)))"

section \<open>The memory\<close>

text \<open>The four blocks with their letters.\<close>

definition napp_blocks :: "ptr \<Rightarrow> (nat \<Rightarrow> ptr) \<Rightarrow> (nat \<Rightarrow> ptr) \<Rightarrow> ptr \<Rightarrow> (ptr \<times> nat \<times> u8) list" where
  "napp_blocks g_buf malloc mmap l_buf =
     [(g_buf, BUF_SIZE, 0x31), (malloc (BUF_SIZE * 2), BUF_SIZE * 2, 0x32), (l_buf, BUF_SIZE * 3, 0x33),
      (mmap (BUF_SIZE * 4), BUF_SIZE * 4, 0x34)]"

definition blocks_apart :: "(ptr \<times> nat \<times> u8) list \<Rightarrow> bool" where
  "blocks_apart bs \<longleftrightarrow> sorted_wrt (\<lambda>(p, n, _) (q, m, _). \<forall>a. \<not> (in_block p n a \<and> in_block q m a)) bs"

lemma in_block_range:
  assumes "unat p + n \<le> 2 ^ 64"
  shows "in_block p n a \<longleftrightarrow> unat p \<le> unat a \<and> unat a < unat p + n"
proof (cases "p \<le> a")
  case True
  then show ?thesis by (auto simp: in_block_def unat_sub word_le_nat_alt)
next
  case False
  then have "unat a < unat p" by (simp add: word_le_nat_alt)
  moreover then have "unat (a - p) = unat a + 2 ^ 64 - unat p" by (simp add: unat_sub_if')
  ultimately show ?thesis using assms by (auto simp: in_block_def)
qed

text \<open>Filling one block after the other; blocks that are apart keep their letters.\<close>

definition fill :: "(ptr \<times> nat \<times> u8) list \<Rightarrow> memory \<Rightarrow> memory" where
  "fill bs M = fold (\<lambda>(p, n, c). memset p c n) bs M"

lemma fill_outside: "\<forall>(p, n, c) \<in> set bs. \<not> in_block p n a \<Longrightarrow> fill bs M a = M a"
  by (induction bs arbitrary: M) (auto simp: fill_def memset_def)

lemma fill_inside:
  "blocks_apart bs \<Longrightarrow> (p, n, c) \<in> set bs \<Longrightarrow> in_block p n a \<Longrightarrow> fill bs M a = c"
proof (induction bs arbitrary: M)
  case (Cons b bs)
  obtain q m d where b: "b = (q, m, d)" by (cases b)
  have step: "fill (b # bs) M = fill bs (memset q d m M)" by (simp add: fill_def b)
  show ?case
  proof (cases "(p, n, c) \<in> set bs")
    case True
    then show ?thesis using Cons.IH [of "memset q d m M"] Cons.prems step by (simp add: blocks_apart_def)
  next
    case False
    then have "(p, n, c) = b" using Cons.prems(2) by simp
    moreover then have "\<forall>(p', n', c') \<in> set bs. \<not> in_block p' n' a"
      using Cons.prems(1,3) by (auto simp: blocks_apart_def)
    ultimately show ?thesis
      using fill_outside [of bs a "memset q d m M"] Cons.prems(3) step b by (simp add: memset_def)
  qed
qed simp

lemma napp_main_fills:
  assumes "malloc (BUF_SIZE * 2) \<noteq> NULL" and "mmap (BUF_SIZE * 4) \<noteq> - 1"
  shows "napp_main pid g_buf malloc mmap l_buf M =
    Returns (0, fill (napp_blocks g_buf malloc mmap l_buf) M, concat (replicate 100 (napp_line pid)))"
proof -
  have "for_all [0..<100] (\<lambda>i out. Returns (out @ napp_line pid)) [] = Returns ([] @ concat (map (\<lambda>i. napp_line pid) [0..<100]))"
    by (rule for_all_collect) simp
  then show ?thesis
    using assms by (simp add: napp_main_def do_something_def napp_blocks_def fill_def Let_def map_replicate_const)
qed

section \<open>What the tools see\<close>

text \<open>The page at an address.\<close>

definition page_bytes :: "memory \<Rightarrow> u64 \<Rightarrow> u8 list" where
  "page_bytes M a = map (\<lambda>i. M (a + of_nat i)) [0..<pageSize]"

definition page_in :: "(ptr \<times> nat \<times> u8) \<Rightarrow> u64 \<Rightarrow> bool" where
  "page_in b a = (case b of (p, n, c) \<Rightarrow> unat (a - p) + pageSize \<le> n)"

lemma page_in_bytes:
  assumes "page_in (p, n, c) a" and "i < pageSize" and "n < 2 ^ 63"
  shows "in_block p n (a + of_nat i)"
proof -
  have "unat (a - p) + i < 2 ^ 64" using assms by (simp add: page_in_def)
  moreover have "unat (of_nat i :: u64) = i" using assms(2) by (intro unat_small) (simp add: pageSize_def)
  ultimately have "unat ((a - p) + of_nat i) = unat (a - p) + i"
    using unat_add_lem [of "a - p" "of_nat i"] by simp
  moreover have "a + of_nat i - p = (a - p) + of_nat i" by simp
  ultimately show ?thesis using assms(1,2) by (simp only: in_block_def) (simp add: page_in_def)
qed

lemma page_of_block:
  assumes "blocks_apart bs" and "(p, n, c) \<in> set bs" and "page_in (p, n, c) a" and "n < 2 ^ 63"
  shows "page_bytes (fill bs M) a = replicate pageSize c"
proof -
  have "fill bs M (a + of_nat i) = c" if "i < pageSize" for i
    using page_in_bytes [OF assms(3) that assms(4)] by (rule fill_inside [OF assms(1,2)])
  then show ?thesis by (intro nth_equalityI) (simp_all add: page_bytes_def)
qed

text \<open>
  C40: \<open>testnapp\<close> prints its process id a hundred times over a memory of four blocks that are filled
  with four letters. To a tool that reads it while it sleeps, and whose regions lie in these
  blocks, its pages have at most four different hashes, so that \<open>setcmp\<close> finds all but four of
  them to be duplicates.
\<close>

theorem testnapp_duplicates:
  assumes "malloc (BUF_SIZE * 2) \<noteq> NULL" and "mmap (BUF_SIZE * 4) \<noteq> - 1"
    and "blocks_apart (napp_blocks g_buf malloc mmap l_buf)"
  shows "\<exists>M'. napp_main pid g_buf malloc mmap l_buf M = Returns (0, M', concat (replicate 100 (napp_line pid))) \<and>
    (\<forall>V kc. v_image V = page_bytes M' \<and>
        (\<forall>va \<in> set (view_addrs V). \<exists>b \<in> set (napp_blocks g_buf malloc mmap l_buf). page_in b va) \<longrightarrow>
      set (lit_keys V) \<subseteq> (\<lambda>c. page_hash (replicate pageSize c)) ` {0x31, 0x32, 0x33, 0x34} \<and>
      card (set (own_keys kc V)) \<le> 4)"
proof -
  let ?bs = "napp_blocks g_buf malloc mmap l_buf" and ?hashes = "(\<lambda>c. page_hash (replicate pageSize c)) ` {0x31, 0x32, 0x33, 0x34 :: u8}"
  let ?M = "fill ?bs M"
  have size: "n < 2 ^ 63" "c \<in> {0x31, 0x32, 0x33, 0x34}" if "(p, n, c) \<in> set ?bs" for p n c
    using that by (auto simp: napp_blocks_def BUF_SIZE_def)
  have hash: "hash_at V va \<in> ?hashes"
    if "v_image V = page_bytes ?M" "b \<in> set ?bs" "page_in b va" for V b va
  proof -
    obtain p n c where b: "b = (p, n, c)" by (cases b)
    with page_of_block [OF assms(3) _ _ size(1)] that have "hash_at V va = page_hash (replicate pageSize c)"
      by (simp add: hash_at_def)
    then show ?thesis using size(2) that(2) b by blast
  qed
  have keys: "set (lit_keys V) \<subseteq> ?hashes" "card (set (own_keys kc V)) \<le> 4"
    if "v_image V = page_bytes ?M" "\<forall>va \<in> set (view_addrs V). \<exists>b \<in> set ?bs. page_in b va" for V kc
  proof -
    show "set (lit_keys V) \<subseteq> ?hashes" using hash that by (fastforce simp: lit_keys_def)
    have "set (own_keys kc V) \<subseteq> ?hashes" using hash that by (fastforce simp: own_keys_def)
    then have "card (set (own_keys kc V)) \<le> card ?hashes" by (intro card_mono) simp_all
    also have "\<dots> \<le> card {0x31, 0x32, 0x33, 0x34 :: u8}" by (rule card_image_le) simp
    also have "\<dots> \<le> 4" by simp
    finally show "card (set (own_keys kc V)) \<le> 4" .
  qed
  show ?thesis
    using napp_main_fills [of malloc mmap pid g_buf l_buf M] assms(1,2) keys by (intro exI [of _ ?M]) blast
qed

text \<open>Two pages of the block from \<open>mmap\<close>.\<close>

definition napp_entry :: maps_entry where
  "napp_entry = sample_entry\<lparr>e_start := 0x800000, e_end := 0x802000\<rparr>"

lemma napp_addrs: "view_addrs \<lparr>v_entries = [napp_entry], v_image = img, v_pagemap = pm\<rparr> = [0x800000, 0x801000]"
proof -
  let ?mr = "region_of napp_entry"
  have mr: "mr_start ?mr = 0x800000" "mr_end ?mr = 0x802000" "mr_is_anon ?mr"
    by (simp_all add: napp_entry_def region_of_def sample_entry_def mr_is_anon_def made_name_def)
  then have tot: "page_total ?mr = 2" by (simp add: page_total_def pageSize_def)
  then show ?thesis
    by (simp add: view_addrs_def anon_regions_def mr(3) region_addrs_def upt_rec page_addr_def mr(1) pageSize_def)
qed

theorem testnapp_duplicates_witness:
  "\<exists>M'. napp_main 7 0x100000 (\<lambda>n. 0x200000) (\<lambda>n. 0x800000) 0x400000 (\<lambda>a. 0)
      = Returns (0, M', concat (replicate 100 (napp_line 7))) \<and>
    card (set (own_keys (\<lambda>i. 1) \<lparr>v_entries = [napp_entry], v_image = page_bytes M', v_pagemap = (\<lambda>i. 0)\<rparr>)) \<le> 4"
proof -
  let ?bs = "napp_blocks 0x100000 (\<lambda>n. 0x200000) (\<lambda>n. 0x800000) 0x400000"
  have bs: "?bs = [(0x100000, 409600, 0x31), (0x200000, 819200, 0x32), (0x400000, 1228800, 0x33), (0x800000, 1638400, 0x34)]"
    by (simp add: napp_blocks_def BUF_SIZE_def)
  have "blocks_apart ?bs" by (auto simp: blocks_apart_def bs in_block_range)
  moreover have "(0x800000, 1638400, 0x34) \<in> set ?bs" "page_in (0x800000, 1638400, 0x34) 0x800000"
    "page_in (0x800000, 1638400, 0x34) 0x801000"
    by (simp_all add: bs page_in_def pageSize_def)
  then have "\<forall>va \<in> {0x800000, 0x801000}. \<exists>b \<in> set ?bs. page_in b va" by blast
  ultimately show ?thesis
    using testnapp_duplicates [of "\<lambda>n. 0x200000" "\<lambda>n. 0x800000" "0x100000" "0x400000" 7 "\<lambda>a. 0"]
    by (fastforce simp: napp_addrs)
qed

end
