(* ===== verification/Simi_Test.thy ===== *)
theory Simi_Test
  imports Setcmp_Spec Simi_Spec
begin

text \<open>
  The driver \<open>simi_test.c\<close>: two arrays are put into sets, the sets are printed and compared; then a
  set is walked. Its lines for \<open>stdout\<close> and \<open>stderr\<close> are two texts, since \<open>stdout\<close> is buffered.
\<close>

section \<open>Definitions\<close>

text \<open>
  \<open>%lf\<close> of a quotient of two counts: six decimals, the nearest. The doubles of such small numbers
  are exact enough for all quotients that are not half way between two decimals.
\<close>

definition fmt_ratio :: "int \<times> int \<Rightarrow> string" where
  "fmt_ratio = (\<lambda>(y, n).
     if n = 0 then ''-nan''
     else let millionths = (2 * 1000000 * y + n) div (2 * n)
          in fmt_d (millionths div 1000000) @ ''.'' @
             (let ds = fmt_d (millionths mod 1000000) in replicate (6 - length ds) (CHR ''0'') @ ds))"

definition add_all :: "(heap \<Rightarrow> ptr \<times> rb_node) \<Rightarrow> ptr \<Rightarrow> int list \<Rightarrow> heap \<Rightarrow> heap outcome" where
  "add_all md s vs H = for_all vs (\<lambda>v H.
     continue (new_data md (word_of_int v) H) (\<lambda>(d, H). defined (set_add s d H))) H"

text \<open>The second half of \<open>_test\<close>: both sets are printed, compared and freed.\<close>

definition test_report :: "ptr \<Rightarrow> ptr \<Rightarrow> heap \<Rightarrow> (heap \<times> string \<times> string) outcome" where
  "test_report a b H =
     continue (defined (set_print a H)) (\<lambda>text_a.
     continue (defined (set_print b H)) (\<lambda>text_b.
     continue (defined (set_jaccard a b H)) (\<lambda>simi.
     continue (defined (set_found_in a b H)) (\<lambda>comm.
     continue (defined (set_free a H)) (\<lambda>H.
     continue (defined (set_free b H)) (\<lambda>H.
     Returns (H, '' ===== test ======'' @ [newline] @ ''a:b: a b simi  = '' @ fmt_ratio simi @ ''  '' @ [newline] @
       '' a b comm  = '' @ fmt_d comm @ ''  '' @ [newline], text_a @ text_b)))))))"

text \<open>\<open>_test\<close>; \<open>blk_a\<close> and \<open>blk_b\<close> are the blocks for the two sets.\<close>

definition test_sets ::
  "(heap \<Rightarrow> ptr \<times> rb_node) \<Rightarrow> ptr \<Rightarrow> ptr \<Rightarrow> int list \<Rightarrow> int list \<Rightarrow> heap \<Rightarrow> (heap \<times> string \<times> string) outcome" where
  "test_sets md blk_a blk_b d_a d_b H =
     continue (defined (set_init blk_a H)) (\<lambda>(a, H).
     continue (defined (set_init blk_b H)) (\<lambda>(b, H).
     continue (add_all md a d_a H) (\<lambda>H.
     continue (add_all md b d_b H) (\<lambda>H.
     test_report a b H))))"

text \<open>\<open>do data_print(d); while (d = set_next(d), d);\<close>\<close>

partial_function (option) print_loop :: "heap \<Rightarrow> ptr \<Rightarrow> string \<Rightarrow> string option" where
  "print_loop H d out = do {
     txt \<leftarrow> data_print d H;
     d \<leftarrow> set_next d H;
     if d \<noteq> NULL then print_loop H d (out @ txt) else Some (out @ txt) }"

text \<open>The walk at the end of \<open>main\<close>; its set is not freed.\<close>

definition test_walk :: "(heap \<Rightarrow> ptr \<times> rb_node) \<Rightarrow> ptr \<Rightarrow> int list \<Rightarrow> heap \<Rightarrow> (heap \<times> string) outcome" where
  "test_walk md blk c H =
     continue (defined (set_init blk H)) (\<lambda>(s, H).
     continue (add_all md s c H) (\<lambda>H.
     continue (defined (set_first s H)) (\<lambda>d.
     continue (defined (print_loop H d [])) (\<lambda>err. Returns (H, err)))))"

definition simi_test_main ::
  "(heap \<Rightarrow> ptr \<times> rb_node) \<Rightarrow> (nat \<Rightarrow> ptr) \<Rightarrow> heap \<Rightarrow> (heap \<times> string \<times> string) outcome" where
  "simi_test_main md blk H =
     continue (test_sets md (blk 0) (blk 1) [1, 2, 3, 4, 5] [2, 3, 4, 5, 6] H) (\<lambda>(H, out1, err1).
     continue (test_sets md (blk 2) (blk 3) [1, 2, 2] [2, 2] H) (\<lambda>(H, out2, err2).
     continue (test_walk md (blk 4) [1, 2, 3] H) (\<lambda>(H, err3).
     Returns (H, out1 @ out2, err1 @ err2 @ err3))))"

section \<open>What it prints\<close>

definition set_text :: "u32 multiset \<Rightarrow> string" where
  "set_text M = ''{ '' @ concat (map (\<lambda>v. fmt_u v @ '' '') (sorted_list_of_multiset M)) @ '' }\<newline>''"

lemma sorted_keys: "mset ks = M \<Longrightarrow> sorted ks \<Longrightarrow> sorted_list_of_multiset M = ks"
  by (auto simp: sorted_list_of_multiset_mset sorted_sort_id)

lemma models_print:
  assumes "models H C D" and "C s = Some M"
  shows "set_print s H = Some (set_text M)"
proof -
  obtain F where F: "forest H F C" using assms(1) unfolding models_def by blast
  obtain T where T: "holds H s T" "content H T = M" using forestD [OF F assms(2)] .
  then have at: "tree_at H s T" by (simp add: holds_def)
  then have "sorted_list_of_multiset M = keys (vals H) T"
    using tree_atD(4) [OF at] T(2) by (intro sorted_keys) (simp_all add: content_def)
  then show ?thesis using set_print_at [OF at] by (simp add: set_text_def)
qed

lemma models_jaccard:
  assumes "models H C D" and "C a = Some M" and "C b = Some N" and "int (size M) + int (size N) \<le> INT_MAX"
  shows "set_jaccard a b H = Some (int (size (filter_mset (\<lambda>k. k \<in># N) M)),
    int (size M) + int (size (filter_mset (\<lambda>k. k \<notin># M) N)))"
proof -
  obtain F where F: "forest H F C" using assms(1) unfolding models_def by blast
  obtain T where T: "holds H a T" "content H T = M" using forestD [OF F assms(2)] .
  obtain U where U: "holds H b U" "content H U = N" using forestD [OF F assms(3)] .
  show ?thesis
    using set_jaccard_content [OF T(1) U(1)] assms(4) T(2) U(2) size_content [of H T] size_content [of H U] by simp
qed

lemma print_loop_walk:
  assumes "list_all2 (is_datum H) bs ks" and "NULL \<notin> set ds" and "is_datum H d k" and "ds = as @ d # bs"
    and "\<And>as d bs. ds = as @ d # bs \<Longrightarrow> set_next d H = Some (first_or_null bs)"
  shows "print_loop H d out = Some (out @ concat (map fmt_u (k # ks)))"
  using assms(1,3,4)
proof (induction bs arbitrary: as d k ks out)
  case Nil
  then show ?case
    using assms(5) [OF Nil.prems(3)] by (subst print_loop.simps) (simp add: data_print_def get_v_def is_datum_def)
next
  case (Cons e bs)
  obtain k' ks' where ks: "ks = k' # ks'" "is_datum H e k'" "list_all2 (is_datum H) bs ks'"
    using Cons.prems(1) by (cases ks) auto
  have "e \<noteq> NULL" using assms(2) Cons.prems(3) by auto
  then show ?case
    using Cons.IH [OF ks(3,2), of "as @ [d]" "out @ fmt_u k"] assms(5) [OF Cons.prems(3)] Cons.prems(2,3) ks(1)
    by (subst print_loop.simps) (simp add: data_print_def get_v_def is_datum_def)
qed

lemma models_walk_print:
  assumes "models H C D" and "C s = Some M" and "M \<noteq> {#}"
  shows "\<exists>d. set_first s H = Some d \<and> print_loop H d [] = Some (concat (map fmt_u (sorted_list_of_multiset M)))"
proof -
  obtain ds ks where ds: "list_all2 (is_datum H) ds ks" "mset ks = M" "sorted ks" "NULL \<notin> set ds"
    "set_first s H = Some (first_or_null ds)"
    "\<forall>as d bs. ds = as @ d # bs \<longrightarrow> set_next d H = Some (first_or_null bs)"
    using models_sorted_elements [OF assms] by (elim exE conjE) (rule that)
  have "ks \<noteq> []" using ds(2) assms(3) by auto
  then obtain k ks' where k: "ks = k # ks'" by (cases ks) simp_all
  obtain d ds' where split: "ds = d # ds'" "ks = k # ks'" "is_datum H d k" "list_all2 (is_datum H) ds' ks'"
    using ds(1) k unfolding k list_all2_Cons2 by blast
  have "print_loop H d [] = Some (concat (map fmt_u (k # ks')))"
    using print_loop_walk [OF split(4) ds(4) split(3), of "[]" "[]"] ds(6) [rule_format] split(1) by simp
  then show ?thesis using ds(5) split(1,2) sorted_keys [OF ds(2,3)] by simp
qed

text \<open>What \<open>_test\<close> prints for two multisets of keys, on either stream.\<close>

definition shared_keys :: "u32 multiset \<Rightarrow> u32 multiset \<Rightarrow> int" where
  "shared_keys A B = int (size (filter_mset (\<lambda>k. k \<in># B) A))"

definition union_keys :: "u32 multiset \<Rightarrow> u32 multiset \<Rightarrow> int" where
  "union_keys A B = int (size A) + int (size (filter_mset (\<lambda>k. k \<notin># A) B))"

definition report_text :: "u32 multiset \<Rightarrow> u32 multiset \<Rightarrow> string" where
  "report_text A B = '' ===== test ======'' @ [newline] @
     ''a:b: a b simi  = '' @ fmt_ratio (shared_keys A B, union_keys A B) @ ''  '' @ [newline] @
     '' a b comm  = '' @ fmt_d (shared_keys A B) @ ''  '' @ [newline]"

lemma test_report_sets:
  assumes "models H C D" and "C a = Some A" and "C b = Some B" and "a \<noteq> b"
    and "int (size A) + int (size B) \<le> INT_MAX"
  shows "\<exists>H'. test_report a b H = Returns (H', report_text A B, set_text A @ set_text B) \<and>
    models H' (C(a := None, b := None)) D"
proof -
  have a: "int (size A) \<le> INT_MAX" using assms(5) by simp
  obtain H1 where H1: "set_free a H = Some H1" "models H1 (C(a := None)) D"
    using models_free [OF assms(1,2)] by blast
  obtain H2 where "set_free b H1 = Some H2" "models H2 (C(a := None, b := None)) D"
    using models_free [OF H1(2), of b B] assms(3,4) by auto
  with H1(1) show ?thesis
    using models_print [OF assms(1,2)] models_print [OF assms(1,3)] models_jaccard [OF assms(1-3,5)]
      models_found_in [OF assms(1-3) a]
    by (simp add: test_report_def report_text_def shared_keys_def union_keys_def)
qed

context data_malloc
begin

lemma add_all_keys:
  assumes "models H C D" and "C s = Some {#}" and "int (length vs) \<le> INT_MAX"
  shows "ends_in {- 1} (\<lambda>H'. models H' (C(s \<mapsto> mset (map word_of_int vs))) D) (add_all md s vs H)"
  using simi.push_list [OF assms(1,2), of "map word_of_int vs"] assms(3) by (simp add: add_all_def for_all_map)

lemma test_sets_report:
  assumes "models H C D" and "blocks_ok [a, b] C" and "int (length xs + length ys) \<le> INT_MAX"
  defines "A \<equiv> mset (map word_of_int xs) :: u32 multiset" and "B \<equiv> mset (map word_of_int ys) :: u32 multiset"
  shows "ends_in {- 1} (\<lambda>(H', out, err). models H' C D \<and> out = report_text A B \<and> err = set_text A @ set_text B)
    (test_sets md a b xs ys H)" (is "ends_in _ ?Q _")
proof -
  have ab: "a \<noteq> NULL" "b \<noteq> NULL" "a \<notin> dom C" "b \<notin> dom C" "a \<noteq> b"
    using assms(2) by (auto simp: blocks_ok_def)
  obtain H1 where H1: "set_init a H = Some (a, H1)" "models H1 (C(a \<mapsto> {#})) D"
    using models_create [OF assms(1) ab(1,3)] by blast
  obtain H2 where H2: "set_init b H1 = Some (b, H2)" "models H2 (C(a \<mapsto> {#}, b \<mapsto> {#})) D"
    using models_create [OF H1(2) ab(2)] ab(4,5) by auto
  have "int (size A) + int (size B) \<le> INT_MAX" using assms(3) by (simp add: A_def B_def)
  note report = test_report_sets [OF _ _ _ ab(5) this]
  have same: "C(a \<mapsto> A, b \<mapsto> B, a := None, b := None) = C" using ab by (auto simp: fun_eq_iff domIff)
  have small: "int (length xs) \<le> INT_MAX" "int (length ys) \<le> INT_MAX" using assms(3) by simp_all
  have second: "ends_in {- 1} ?Q (continue (add_all md b ys H3) (test_report a b))"
    if H3: "models H3 (C(a \<mapsto> A, b \<mapsto> {#})) D" for H3
  proof (rule ends_in_continue [OF add_all_keys [OF H3 _ small(2)]], simp, fold B_def)
    fix H4 assume "models H4 (C(a \<mapsto> A, b \<mapsto> {#}, b \<mapsto> B)) D"
    then have H4: "models H4 (C(a \<mapsto> A, b \<mapsto> B)) D" by simp
    from report [OF H4] same ab(5) show "ends_in {- 1} ?Q (test_report a b H4)" by (auto simp del: fun_upd_apply) (auto)
  qed
  have "ends_in {- 1} ?Q (continue (add_all md a xs H2) (\<lambda>H. continue (add_all md b ys H) (test_report a b)))"
  proof (rule ends_in_continue [OF add_all_keys [OF H2(2) _ small(1)]], fold A_def)
    show "(C(a \<mapsto> {#}, b \<mapsto> {#})) a = Some {#}" using ab(5) by simp
    fix H3 assume "models H3 (C(a \<mapsto> {#}, b \<mapsto> {#}, a \<mapsto> A)) D"
    then show "ends_in {- 1} ?Q (continue (add_all md b ys H3) (test_report a b))"
      using ab(5) by (intro second) (simp add: fun_upd_twist)
  qed
  then show ?thesis by (simp add: test_sets_def H1(1) H2(1))
qed

lemma test_walk_text:
  assumes "models H C D" and "s \<noteq> NULL" and "s \<notin> dom C" and "vs \<noteq> []" and "int (length vs) \<le> INT_MAX"
  defines "M \<equiv> mset (map word_of_int vs) :: u32 multiset"
  shows "ends_in {- 1} (\<lambda>(H', err). models H' (C(s \<mapsto> M)) D \<and> err = concat (map fmt_u (sorted_list_of_multiset M)))
    (test_walk md s vs H)" (is "ends_in _ ?Q _")
proof -
  obtain H1 where H1: "set_init s H = Some (s, H1)" "models H1 (C(s \<mapsto> {#})) D"
    using models_create [OF assms(1-3)] by blast
  have "M \<noteq> {#}" using assms(4) by (simp add: M_def)
  have "ends_in {- 1} ?Q (continue (add_all md s vs H1) (\<lambda>H. continue (defined (set_first s H)) (\<lambda>d.
     continue (defined (print_loop H d [])) (\<lambda>err. Returns (H, err)))))"
  proof (rule ends_in_continue [OF add_all_keys [OF H1(2) _ assms(5)]], simp, fold M_def)
    fix H2 assume "models H2 (C(s \<mapsto> {#}, s \<mapsto> M)) D"
    then have m: "models H2 (C(s \<mapsto> M)) D" by simp
    have "(C(s \<mapsto> M)) s = Some M" by simp
    from models_walk_print [OF m this \<open>M \<noteq> {#}\<close>] m
    show "ends_in {- 1} ?Q (continue (defined (set_first s H2)) (\<lambda>d.
       continue (defined (print_loop H2 d [])) (\<lambda>err. Returns (H2, err))))"
      by auto
  qed
  then show ?thesis by (simp add: test_walk_def H1(1))
qed

end


text \<open>The texts for the arrays of \<open>main\<close>.\<close>

lemma sample_ratios: "fmt_ratio (2, 3) = ''0.666667''" "fmt_ratio (4, 6) = ''0.666667''"
  unfolding fmt_ratio_def Let_def prod.case
  by (simp, simp add: fmt_d_eval)+

lemma sample_digits: "fmt_d 2 = ''2''" "fmt_d 4 = ''4''"
  by (simp_all add: fmt_d_eval)

lemma sample_keys_text: "fmt_u (1 :: u32) = ''1''" "fmt_u (2 :: u32) = ''2''" "fmt_u (3 :: u32) = ''3''"
  by (simp_all add: fmt_u_eval)

lemma sample_sets:
  "set_text (mset [1, 2, 3, 4, 5]) = ''{ 1 2 3 4 5  }'' @ [newline]"
  "set_text (mset [2, 3, 4, 5, 6]) = ''{ 2 3 4 5 6  }'' @ [newline]"
  "set_text (mset [1, 2, 2]) = ''{ 1 2 2  }'' @ [newline]" "set_text (mset [2, 2]) = ''{ 2 2  }'' @ [newline]"
  unfolding set_text_def sorted_list_of_multiset_mset
  by (simp_all add: fmt_u_eval newline_def)


text \<open>
  The driver itself prints these lines, whatever the allocator, and leaves its last set allocated.
\<close>

theorem simi_test_main_prints:
  assumes "malloc_ok md" and "models H C D" and "blocks_ok (map blk [0..<5]) C"
  shows "ends_in {- 1} (\<lambda>(H', out, err). models H' (C(blk 4 \<mapsto> {#1, 2, 3#})) D \<and>
      err = ''{ 1 2 3 4 5  }'' @ [newline] @ ''{ 2 3 4 5 6  }'' @ [newline] @
        ''{ 1 2 2  }'' @ [newline] @ ''{ 2 2  }'' @ [newline] @ ''123'' \<and>
      out = '' ===== test ======'' @ [newline] @ ''a:b: a b simi  = 0.666667  '' @ [newline] @
        '' a b comm  = 4  '' @ [newline] @
        '' ===== test ======'' @ [newline] @ ''a:b: a b simi  = 0.666667  '' @ [newline] @
        '' a b comm  = 2  '' @ [newline])
    (simi_test_main md blk H)" (is "ends_in _ ?Q _")
proof -
  have dm: "data_malloc md" using assms(1) by (rule data_malloc.intro)
  have "[0..<5] = [0, 1, 2, 3, 4 :: nat]" by (simp add: upt_rec)
  then have blk: "blocks_ok [blk 0, blk 1] C" "blocks_ok [blk 2, blk 3] C" "blk 4 \<noteq> NULL" "blk 4 \<notin> dom C"
    using assms(3) by (auto simp: blocks_ok_def)
  note run = data_malloc.test_sets_report [OF dm] and walk = data_malloc.test_walk_text [OF dm]
  have texts: "report_text (mset [1, 2, 3, 4, 5]) (mset [2, 3, 4, 5, 6]) = '' ===== test ======'' @ [newline] @
      ''a:b: a b simi  = 0.666667  '' @ [newline] @ '' a b comm  = 4  '' @ [newline]"
    "report_text (mset [1, 2, 2]) (mset [2, 2]) = '' ===== test ======'' @ [newline] @
      ''a:b: a b simi  = 0.666667  '' @ [newline] @ '' a b comm  = 2  '' @ [newline]"
    by (simp_all add: report_text_def shared_keys_def union_keys_def sample_ratios sample_digits)
  show ?thesis unfolding simi_test_main_def
    by (rule ends_in_continue [OF run [OF assms(2) blk(1)]], simp add: INT_MAX_def, clarify,
        rule ends_in_continue [OF run [OF _ blk(2)]], assumption, simp add: INT_MAX_def, clarify,
        rule ends_in_continue [OF walk [OF _ blk(3,4)]], assumption, simp_all add: INT_MAX_def)
      (auto simp: texts [unfolded mset.simps] sample_sets [unfolded mset.simps] sample_keys_text)
qed

end
