(* ===== verification/Rb_Test.thy ===== *)
theory Rb_Test
  imports Simi
begin

text \<open>
  The driver \<open>rbtree_test.c\<close>: a tree of ints, filled from an array, searched, changed in place, and
  erased from the root. Its \<open>struct data\<close> has the node eight bytes behind the number, as the one of
  \<open>simi.c\<close>, and its two descents are the same loops, for ints.
\<close>

section \<open>Definitions\<close>

text \<open>The numbers by the address of their \<open>struct data\<close>, and the nodes with the global root.\<close>

record number_tree =
  numbers :: "ptr \<rightharpoonup> int"
  the_tree :: rb_state

definition test_search_data :: "int \<Rightarrow> number_tree \<Rightarrow> ptr option" where
  "test_search_data n S = search_loop (root_node (the_tree S)) n (numbers S) (the_tree S)"

definition test_insert_data :: "ptr \<Rightarrow> number_tree \<Rightarrow> number_tree option" where
  "test_insert_data d S = do {
     value \<leftarrow> get_v d (numbers S);
     (lk, parent) \<leftarrow> insert_loop RootLink NULL value (numbers S) (the_tree S);
     t \<leftarrow> rb_insert (node_of d) parent lk (the_tree S);
     Some (S\<lparr>the_tree := t\<rparr>) }"

text \<open>\<open>insert_int\<close>, given the block \<open>malloc\<close> returned, whose node holds anything; null is not tested.\<close>

definition insert_int :: "ptr \<Rightarrow> rb_node \<Rightarrow> int \<Rightarrow> number_tree \<Rightarrow> number_tree option" where
  "insert_int d junk value S =
     (if d = NULL then None
      else test_insert_data d (S\<lparr>numbers := (numbers S)(d \<mapsto> value),
        the_tree := (the_tree S)\<lparr>mem := (mem (the_tree S))(node_of d \<mapsto> junk)\<rparr>\<rparr>))"

text \<open>The loop \<open>for (p = rb_first(&the_root); p; p = rb_next(p))\<close> that prints the numbers.\<close>

definition print_numbers :: "number_tree \<Rightarrow> string option" where
  "print_numbers S = do {
     p \<leftarrow> rb_first (the_tree S);
     out \<leftarrow> for_each (\<lambda>p. rb_next p (the_tree S))
       (\<lambda>p out. do { n \<leftarrow> get_v (rb_entry p) (numbers S); Some (out @ fmt_d n @ '' '') }) p [];
     Some (''after :\<newline>'' @ out @ ''\<newline>'') }"

text \<open>\<open>while (the_root.rb_node != NULL)\<close>: the root is erased and its block freed.\<close>

partial_function (option) erase_all :: "number_tree \<Rightarrow> number_tree option" where
  "erase_all S =
     (let p = root_node (the_tree S); d = rb_entry p in
      if p = NULL then Some S
      else do {
        t \<leftarrow> rb_erase p (the_tree S);
        (if numbers S d = None then None
         else erase_all (S\<lparr>numbers := (numbers S)(d := None), the_tree := t\<lparr>mem := (mem t)(p := None)\<rparr>\<rparr>)) })"

definition test_array :: "int list" where
  "test_array = [13, 4, 5, 6, 778, 8, 89, 9, 0, 77, 54, 24, 3, 43, 5]"

text \<open>The loop that inserts the array: the \<open>i\<close>-th call of \<open>malloc\<close> returns \<open>blk i\<close>.\<close>

definition insert_all :: "(nat \<Rightarrow> ptr \<times> rb_node) \<Rightarrow> int list \<Rightarrow> number_tree \<Rightarrow> number_tree option" where
  "insert_all blk vs S = fold_opt (\<lambda>i S. insert_int (fst (blk i)) (snd (blk i)) (vs ! i) S) [0..<length vs] S"

definition rbtree_test_main :: "(nat \<Rightarrow> ptr \<times> rb_node) \<Rightarrow> number_tree \<Rightarrow> (number_tree \<times> string) option" where
  "rbtree_test_main blk S = do {
     S \<leftarrow> insert_all blk test_array S;
     sorted_text \<leftarrow> print_numbers S;
     d \<leftarrow> test_search_data 77 S;
     S \<leftarrow> (if d = NULL then None else Some (S\<lparr>numbers := (numbers S)(d \<mapsto> 78)\<rparr>));
     changed_text \<leftarrow> print_numbers S;
     S \<leftarrow> erase_all S;
     empty_text \<leftarrow> print_numbers S;
     Some (S, ''data : ['' @ concat (map (\<lambda>n. fmt_d n @ '' '') test_array) @ '']\<newline>'' @
       sorted_text @ changed_text @ empty_text) }"

section \<open>A tree of numbers\<close>

definition number_tree_at :: "number_tree \<Rightarrow> ptree \<Rightarrow> bool" where
  "number_tree_at S T \<longleftrightarrow> nodes_of NULL T \<subseteq>\<^sub>m mem (the_tree S) \<and> root_node (the_tree S) = ptr_of T \<and>
     wf T \<and> rbt T \<and> keyed (numbers S) T"

lemma the_tree_st: "number_tree_at S T \<Longrightarrow> the_tree S = st (mem (the_tree S)) T"
  by (simp add: number_tree_at_def st_absorb)

lemma number_treeD:
  assumes "number_tree_at S T"
  shows "wf T" "rbt T" "keyed (numbers S) T" "nodes_of NULL T \<subseteq>\<^sub>m mem (the_tree S)"
    "n \<in> set (addrs T) \<Longrightarrow> has_key (numbers S) n" "sorted (keys (numbers S) T)"
  using assms by (simp_all add: number_tree_at_def keyed_def)

text \<open>A new block: its node aligned and in no tree.\<close>

definition new_block :: "ptr \<Rightarrow> ptree \<Rightarrow> bool" where
  "new_block d T \<longleftrightarrow> d \<noteq> NULL \<and> okp (node_of d) \<and> node_of d \<notin> set (addrs T)"

lemma keys_upd: "rb_entry n \<noteq> d \<Longrightarrow> key (vs(d \<mapsto> v)) n = key vs n"
  by (simp add: key_def)

lemma keyed_upd:
  assumes "keyed vs T" and "node_of d \<notin> set (addrs T)"
  shows "keyed (vs(d \<mapsto> v)) T" "keys (vs(d \<mapsto> v)) T = keys vs T"
proof -
  have ne: "rb_entry n \<noteq> d" if "n \<in> set (addrs T)" for n using assms(2) that by auto
  then show "keys (vs(d \<mapsto> v)) T = keys vs T" by (simp add: keys_def key_def)
  with ne show "keyed (vs(d \<mapsto> v)) T" using assms(1) by (auto simp: keyed_def has_key_def)
qed

lemma insert_int_at:
  assumes "number_tree_at S T" and "new_block d T"
  shows "\<exists>S' T'. insert_int d junk v S = Some S' \<and> number_tree_at S' T' \<and>
    set (addrs T') = insert (node_of d) (set (addrs T)) \<and> mset (keys (numbers S') T') = add_mset v (mset (keys (numbers S) T)) \<and>
    numbers S' = (numbers S)(d \<mapsto> v) \<and> dom (mem (the_tree S')) = insert (node_of d) (dom (mem (the_tree S)) \<union> set (addrs T))"
proof -
  let ?n = "node_of d" and ?vs = "(numbers S)(d \<mapsto> v)" and ?m = "(mem (the_tree S))(node_of d \<mapsto> junk)"
  have d: "d \<noteq> NULL" "okp ?n" "?n \<notin> set (addrs T)" using assms(2) by (simp_all add: new_block_def)
  note T = number_treeD [OF assms(1)]
  note vs = keyed_upd [OF T(3) d(3), of v]
  have "nodes_of NULL T x = ?m x" if "x \<in> dom (nodes_of NULL T)" for x
    using that T(4) d(3) by (cases "x = ?n") (simp_all add: map_le_def)
  then have "nodes_of NULL T \<subseteq>\<^sub>m ?m" by (simp add: map_le_def)
  then have st: "(the_tree S)\<lparr>mem := ?m\<rparr> = st ?m T"
    using assms(1) by (simp add: number_tree_at_def st_absorb)
  have k: "has_key ?vs ?n" "key ?vs ?n = v" using d(1) by (simp_all add: has_key_def key_def)
  obtain lk parent T' as bs where T': "insert_loop RootLink NULL v ?vs (st ?m T) = Some (lk, parent)"
    "rb_insert ?n parent lk (st ?m T) = Some (st ?m T')" "wf T'" "rbt T'" "keyed ?vs T'"
    "addrs T = as @ bs" "addrs T' = as @ ?n # bs"
    using insert_keyed [where h = ?m, OF T(1,2) vs(1) k(1) d(2,3)] k(2) by auto
  let ?S = "S\<lparr>numbers := ?vs, the_tree := st ?m T'\<rparr>"
  have "insert_int d junk v S = Some ?S"
    using d(1) T'(1,2) by (simp add: insert_int_def test_insert_data_def get_v_def st)
  moreover have "number_tree_at ?S T'" using T'(3-5) by (simp add: number_tree_at_def st_def)
  moreover have "mset (keys ?vs T') = add_mset v (mset (keys ?vs T))"
    using k(2) T'(6,7) by (simp add: keys_def)
  then have "mset (keys ?vs T') = add_mset v (mset (keys (numbers S) T))" unfolding vs(2) .
  moreover have "dom (mem (st ?m T')) = insert ?n (dom (mem (the_tree S)) \<union> set (addrs T))"
    using T'(6,7) by (auto simp: st_def)
  ultimately show ?thesis using T'(6,7) by (intro exI [of _ ?S] exI [of _ T']) auto
qed

text \<open>The root is erased until none is left: all blocks of the tree are freed.\<close>

lemma erase_all_at:
  "number_tree_at S T \<Longrightarrow> \<exists>m. erase_all S = Some \<lparr>numbers = numbers S |` (- rb_entry ` set (addrs T)),
      the_tree = \<lparr>mem = m, root_node = NULL\<rparr>\<rparr> \<and> dom m = dom (mem (the_tree S)) - set (addrs T)"
proof (induction "length (addrs T)" arbitrary: S T)
  case 0
  then have "T = Leaf" by simp
  with 0(2) show ?case
    by (subst erase_all.simps) (simp add: number_tree_at_def restrict_map_def Let_def, cases S, cases "the_tree S", simp)
next
  case (Suc n)
  obtain c l a r where T: "T = Node c l a r" using Suc.hyps by (cases T) auto
  note D = number_treeD [OF Suc.prems]
  let ?m = "mem (the_tree S)"
  obtain j T' where T': "rb_erase a (st ?m T) = Some (st (?m(a \<mapsto> j)) T')" "addrs T' = addrs l @ addrs r"
    "wf T'" "rbt T'" "keyed ((numbers S)(rb_entry a := None)) T'"
    "nodes_of NULL T' \<subseteq>\<^sub>m ((?m(a \<mapsto> j)) ++ nodes_of NULL T')(a := None)"
    using erase_root_keyed [OF D(1-3) T, of ?m] by blast
  let ?S = "S\<lparr>numbers := (numbers S)(rb_entry a := None),
    the_tree := (st (?m(a \<mapsto> j)) T')\<lparr>mem := ((?m(a \<mapsto> j)) ++ nodes_of NULL T')(a := None)\<rparr>\<rparr>"
  have a: "a \<noteq> NULL" "numbers S (rb_entry a) \<noteq> None" "a \<notin> set (addrs T')"
    using D(1) D(5) [of a] T T'(2) by (auto simp: wf_def wf_addrs_def okp_def has_key_def)
  have root: "root_node (the_tree S) = a" using Suc.prems by (simp add: number_tree_at_def T)
  have "erase_all S = erase_all ?S"
    using a(1,2) T'(1) the_tree_st [OF Suc.prems] root
    by (subst erase_all.simps) (auto simp: Let_def st_def)
  moreover have "number_tree_at ?S T'" using T'(3-6) by (simp add: number_tree_at_def st_def)
  moreover have "n = length (addrs T')" using Suc.hyps(2) T'(2) T by simp
  ultimately obtain m where m: "erase_all S = Some \<lparr>numbers = numbers ?S |` (- rb_entry ` set (addrs T')),
      the_tree = \<lparr>mem = m, root_node = NULL\<rparr>\<rparr>" "dom m = dom (mem (the_tree ?S)) - set (addrs T')"
    using Suc.hyps(1) by metis
  have "numbers ?S |` (- rb_entry ` set (addrs T')) = numbers S |` (- rb_entry ` set (addrs T))"
    using T'(2) T by (auto simp: restrict_map_def fun_eq_iff)
  moreover have "dom (mem (the_tree ?S)) - set (addrs T') = dom ?m - set (addrs T)"
    using T'(2) T by auto
  ultimately show ?case using m by simp
qed

section \<open>The loops\<close>

text \<open>Blocks for a run of \<open>insert_int\<close>.\<close>

definition blocks_for :: "(nat \<Rightarrow> ptr \<times> rb_node) \<Rightarrow> nat \<Rightarrow> bool" where
  "blocks_for blk n \<longleftrightarrow> inj_on (\<lambda>i. fst (blk i)) {..<n} \<and> (\<forall>i < n. fst (blk i) \<noteq> NULL \<and> okp (node_of (fst (blk i))))"

lemma node_of_inject [simp]: "node_of d = node_of e \<longleftrightarrow> d = e"
  by (simp add: node_of_def)

definition no_numbers :: number_tree where
  "no_numbers = \<lparr>numbers = Map.empty, the_tree = \<lparr>mem = Map.empty, root_node = NULL\<rparr>\<rparr>"

text \<open>All that is allocated is in the tree.\<close>

definition all_in :: "number_tree \<Rightarrow> ptree \<Rightarrow> bool" where
  "all_in S T \<longleftrightarrow> dom (numbers S) = rb_entry ` set (addrs T) \<and> dom (mem (the_tree S)) = set (addrs T)"

lemma insert_all_at:
  assumes "blocks_for blk (length vs)"
  shows "\<exists>S T. insert_all blk vs no_numbers = Some S \<and> number_tree_at S T \<and> all_in S T \<and> keys (numbers S) T = sort vs"
proof -
  let ?ins = "\<lambda>i S. insert_int (fst (blk i)) (snd (blk i)) (vs ! i) S"
  have "\<exists>S T. fold_opt ?ins [0..<n] no_numbers = Some S \<and> number_tree_at S T \<and> all_in S T \<and>
      set (addrs T) = node_of ` (\<lambda>i. fst (blk i)) ` {..<n} \<and> mset (keys (numbers S) T) = mset (take n vs)"
    if "n \<le> length vs" for n
    using that
  proof (induction n)
    case 0
    have "number_tree_at no_numbers Leaf"
      by (simp add: number_tree_at_def no_numbers_def wf_def wf_addrs_def keyed_def keys_def rbt_def)
    then show ?case by (intro exI [of _ no_numbers] exI [of _ Leaf]) (simp add: all_in_def no_numbers_def keys_def)
  next
    case (Suc n)
    obtain S T where S: "fold_opt ?ins [0..<n] no_numbers = Some S" "number_tree_at S T" "all_in S T"
      "set (addrs T) = node_of ` (\<lambda>i. fst (blk i)) ` {..<n}" "mset (keys (numbers S) T) = mset (take n vs)"
      using Suc by auto
    have "fst (blk n) \<noteq> fst (blk i)" if "i < n" for i
      using assms Suc.prems that unfolding blocks_for_def inj_on_def by (metis Suc_le_lessD lessThan_iff less_trans nat_neq_iff)
    then have "new_block (fst (blk n)) T"
      using assms Suc.prems S(4) by (auto simp: new_block_def blocks_for_def)
    from insert_int_at [OF S(2) this, of "snd (blk n)" "vs ! n"] obtain S' T' where S': "?ins n S = Some S'"
      "number_tree_at S' T'" "set (addrs T') = insert (node_of (fst (blk n))) (set (addrs T))"
      "mset (keys (numbers S') T') = add_mset (vs ! n) (mset (keys (numbers S) T))" "numbers S' = (numbers S)(fst (blk n) \<mapsto> vs ! n)"
      "dom (mem (the_tree S')) = insert (node_of (fst (blk n))) (dom (mem (the_tree S)) \<union> set (addrs T))" by auto
    have "fold_opt ?ins [0..<Suc n] no_numbers = Some S'" using S(1) S'(1) by (simp add: fold_opt_append)
    moreover have "all_in S' T'" using S(3) S'(3,5,6) by (auto simp: all_in_def)
    moreover have "mset (keys (numbers S') T') = mset (take (Suc n) vs)"
      using S(5) S'(4) Suc.prems by (simp add: take_Suc_conv_app_nth)
    ultimately show ?case using S(4) S'(2,3) by (intro exI [of _ S'] exI [of _ T']) (auto simp: lessThan_Suc)
  qed
  from this [of "length vs"] obtain S T where S: "insert_all blk vs no_numbers = Some S" "number_tree_at S T" "all_in S T"
    "mset (keys (numbers S) T) = mset vs"
    by (auto simp: insert_all_def)
  have "keys (numbers S) T = sort vs"
    using number_treeD(6) [OF S(2)] S(4) by (intro properties_for_sort [symmetric]) simp_all
  with S show ?thesis by blast
qed

definition numbers_text :: "int list \<Rightarrow> string" where
  "numbers_text vs = ''after :\<newline>'' @ concat (map (\<lambda>n. fmt_d n @ '' '') vs) @ ''\<newline>''"

lemma print_numbers_at:
  assumes "number_tree_at S T"
  shows "print_numbers S = Some (numbers_text (keys (numbers S) T))"
proof -
  let ?body = "\<lambda>p out. do { n \<leftarrow> get_v (rb_entry p) (numbers S); Some (out @ fmt_d n @ '' '') }"
  have "fold_opt ?body as out = Some (out @ concat (map (\<lambda>n. fmt_d n @ '' '') (map (key (numbers S)) as)))"
    if "\<forall>n \<in> set as. has_key (numbers S) n" for as out
    using that by (induction as arbitrary: out) (simp_all add: get_v_rb_entry)
  then have "fold_opt ?body (addrs T) [] = Some (concat (map (\<lambda>n. fmt_d n @ '' '') (keys (numbers S) T)))"
    using number_treeD(5) [OF assms] by (simp add: keys_def)
  then show ?thesis
    using rb_for_each_then [OF number_treeD(1) [OF assms], of "mem (the_tree S)" ?body "[]"] the_tree_st [OF assms]
    by (simp add: print_numbers_def numbers_text_def)
qed

lemma test_search_at:
  assumes "number_tree_at S T"
  shows "(\<exists>n \<in> set (addrs T). key (numbers S) n = v \<and> test_search_data v S = Some (rb_entry n) \<and> rb_entry n \<noteq> NULL)
    \<or> v \<notin> set (keys (numbers S) T) \<and> test_search_data v S = Some NULL"
proof -
  have "root_node (the_tree S) = ptr_of T" using assms by (simp add: number_tree_at_def)
  then show ?thesis
    using search_loop_st [of "[]" T "numbers S" v "mem (the_tree S)"] the_tree_st [OF assms] number_treeD [OF assms]
    by (auto simp: test_search_data_def keys_def has_key_def)
qed

lemma erase_all_frees:
  assumes "number_tree_at S T" and "all_in S T"
  shows "erase_all S = Some no_numbers"
proof -
  obtain m where m: "erase_all S = Some \<lparr>numbers = numbers S |` (- rb_entry ` set (addrs T)),
      the_tree = \<lparr>mem = m, root_node = NULL\<rparr>\<rparr>" "dom m = dom (mem (the_tree S)) - set (addrs T)"
    using erase_all_at [OF assms(1)] by blast
  have "numbers S |` (- rb_entry ` set (addrs T)) = Map.empty"
    using assms(2) by (auto simp: all_in_def restrict_map_def fun_eq_iff domIff)
  moreover have "m = Map.empty" using m(2) assms(2) by (simp add: all_in_def)
  ultimately show ?thesis using m(1) by (simp add: no_numbers_def)
qed

text \<open>A number that occurs once may be changed in place, as long as the order stays.\<close>

lemma change_number:
  assumes "number_tree_at S T" and "n \<in> set (addrs T)" and "key (numbers S) n = k"
    and "length (filter (\<lambda>x. x = k) (keys (numbers S) T)) = 1"
    and "sorted (map (\<lambda>x. if x = k then k' else x) (keys (numbers S) T))"
  defines "S' \<equiv> S\<lparr>numbers := (numbers S)(rb_entry n \<mapsto> k')\<rparr>"
  shows "number_tree_at S' T" "keys (numbers S') T = map (\<lambda>x. if x = k then k' else x) (keys (numbers S) T)"
proof -
  obtain m where m: "filter (\<lambda>a. key (numbers S) a = k) (addrs T) = [m]"
    using assms(4) by (auto simp: keys_def filter_map comp_def length_Suc_conv)
  have "a = m" if "a \<in> set (addrs T)" "key (numbers S) a = k" for a
  proof -
    have "a \<in> set (filter (\<lambda>a. key (numbers S) a = k) (addrs T))" using that by simp
    then show ?thesis unfolding m by simp
  qed
  then have one: "a = n" if "a \<in> set (addrs T)" "key (numbers S) a = k" for a
    using assms(2,3) that by blast
  have "key (numbers S') a = (if key (numbers S) a = k then k' else key (numbers S) a)" if a: "a \<in> set (addrs T)" for a
  proof -
    have "key (numbers S) a = k \<longleftrightarrow> a = n" using one [OF a] assms(3) by blast
    then show ?thesis by (simp add: S'_def key_def)
  qed
  then show ks: "keys (numbers S') T = map (\<lambda>x. if x = k then k' else x) (keys (numbers S) T)"
    by (simp add: keys_def)
  have "has_key (numbers S') a" if "a \<in> set (addrs T)" for a
    using number_treeD(5) [OF assms(1) that] by (auto simp: S'_def has_key_def)
  then show "number_tree_at S' T"
    using assms(1,5) ks by (simp add: number_tree_at_def keyed_def S'_def)
qed

section \<open>The driver\<close>

text \<open>
  C16: Any ints put into the tree by \<open>insert_int\<close> are printed in ascending order by the loop from
  \<open>rb_first\<close> by \<open>rb_next\<close>, repetitions included; the search finds exactly these; and the loop that
  erases the root until there is none ends and frees every block.
\<close>

theorem rbtree_test_correct:
  assumes "blocks_for blk (length vs)"
  shows "\<exists>S. insert_all blk vs no_numbers = Some S \<and> print_numbers S = Some (numbers_text (sort vs)) \<and>
    (\<forall>n. \<exists>d. test_search_data n S = Some d \<and> (d \<noteq> NULL) = (n \<in> set vs)) \<and> erase_all S = Some no_numbers"
proof -
  obtain S T where S: "insert_all blk vs no_numbers = Some S" "number_tree_at S T" "all_in S T" "keys (numbers S) T = sort vs"
    using insert_all_at [OF assms] by blast
  then have "n \<in> set vs \<longleftrightarrow> n \<in> set (keys (numbers S) T)" for n by simp
  then have "\<exists>d. test_search_data n S = Some d \<and> (d \<noteq> NULL) = (n \<in> set vs)" for n
    using test_search_at [OF S(2), of n] by (auto simp: keys_def)
  then show ?thesis using S print_numbers_at [OF S(2)] erase_all_frees [OF S(2,3)] by auto
qed

definition sample_blocks_for :: "nat \<Rightarrow> ptr \<times> rb_node" where
  "sample_blocks_for i = (64 * of_nat (i + 1), \<lparr>rb_parent_color = 0, rb_right = NULL, rb_left = NULL\<rparr>)"

lemma sample_blocks_for_ok: "blocks_for sample_blocks_for 15"
proof -
  have first15: "[0..<15] = [0, 1, 2, 3, 4, 5, 6, 7, 8, 9, 10, 11, 12, 13, 14 :: nat]" by (simp add: upt_rec)
  have "distinct (map (\<lambda>i. fst (sample_blocks_for i)) [0..<15])"
    unfolding first15 by (simp add: sample_blocks_for_def)
  then have "inj_on (\<lambda>i. fst (sample_blocks_for i)) {..<15}"
    by (simp add: distinct_map lessThan_atLeast0 del: upt_Suc)
  moreover have "list_all (\<lambda>i. fst (sample_blocks_for i) \<noteq> NULL \<and> okp (node_of (fst (sample_blocks_for i)))) [0..<15]"
    unfolding first15 by (simp add: sample_blocks_for_def node_of_def okp_def aligned_def)
  then have "fst (sample_blocks_for i) \<noteq> NULL \<and> okp (node_of (fst (sample_blocks_for i)))" if "i < 15" for i
    using that by (simp add: list_all_iff del: upt_Suc)
  ultimately show ?thesis by (simp add: blocks_for_def)
qed

lemma test_array_facts:
  "length test_array = 15" "sort test_array = [0, 3, 4, 5, 5, 6, 8, 9, 13, 24, 43, 54, 77, 89, 778]"
  by (simp_all add: test_array_def)

theorem rbtree_test_correct_witness:
  "\<exists>S. insert_all sample_blocks_for test_array no_numbers = Some S \<and>
    print_numbers S = Some (numbers_text [0, 3, 4, 5, 5, 6, 8, 9, 13, 24, 43, 54, 77, 89, 778]) \<and> erase_all S = Some no_numbers"
  using rbtree_test_correct [of sample_blocks_for test_array] sample_blocks_for_ok
  unfolding test_array_facts by blast

text \<open>What \<open>main\<close> prints; it ends with nothing allocated.\<close>

theorem rbtree_test_main_prints:
  assumes "blocks_for blk 15"
  shows "rbtree_test_main blk no_numbers = Some (no_numbers,
    ''data : ['' @ concat (map (\<lambda>n. fmt_d n @ '' '') test_array) @ '']\<newline>'' @
    numbers_text [0, 3, 4, 5, 5, 6, 8, 9, 13, 24, 43, 54, 77, 89, 778] @
    numbers_text [0, 3, 4, 5, 5, 6, 8, 9, 13, 24, 43, 54, 78, 89, 778] @ numbers_text [])"
proof -
  obtain S T where S: "insert_all blk test_array no_numbers = Some S" "number_tree_at S T" "all_in S T"
    "keys (numbers S) T = [0, 3, 4, 5, 5, 6, 8, 9, 13, 24, 43, 54, 77, 89, 778]"
    using insert_all_at [of blk test_array] assms unfolding test_array_facts by blast
  obtain n where n: "n \<in> set (addrs T)" "key (numbers S) n = 77" "test_search_data 77 S = Some (rb_entry n)" "rb_entry n \<noteq> NULL"
    using test_search_at [OF S(2), of 77] unfolding S(4) by auto
  let ?S = "S\<lparr>numbers := (numbers S)(rb_entry n \<mapsto> 78)\<rparr>"
  note change = change_number [OF S(2) n(1,2), of 78, unfolded S(4)]
  have S': "number_tree_at ?S T" "keys (numbers ?S) T = [0, 3, 4, 5, 5, 6, 8, 9, 13, 24, 43, 54, 78, 89, 778]"
    using change by simp_all
  have "all_in ?S T" using S(3) n(1) by (auto simp: all_in_def)
  moreover have "print_numbers no_numbers = Some (numbers_text [])"
  proof -
    have "number_tree_at no_numbers Leaf"
      by (simp add: number_tree_at_def no_numbers_def wf_def wf_addrs_def keyed_def keys_def rbt_def)
    from print_numbers_at [OF this] show ?thesis by (simp add: keys_def)
  qed
  ultimately show ?thesis
    using S(1) n(3,4) print_numbers_at [OF S(2)] print_numbers_at [OF S'(1)] erase_all_frees [OF S'(1)]
    by (simp add: rbtree_test_main_def S(4) S'(2) [simplified])
qed

end
