(* ===== verification/Sock.thy ===== *)
theory Sock
  imports Read_Mem
begin

unbundle bit_operations_syntax

text \<open>
  \<open>sock.c\<close>: connecting to a server, and sending a stretch of memory page by page. The result of
  every call of the operating system is a parameter.
\<close>

section \<open>Connecting\<close>

text \<open>The options of \<open>opt.h\<close>, the structure of \<open>sock.h\<close>, and the address that is connected to.\<close>

record option_t =
  o_pid :: int
  o_net :: bool
  o_ip_addr :: string
  o_port :: int

record sock =
  s_fd :: int

type_synonym u16 = "16 word"

record sockaddr_in =
  sin_family :: u16
  sin_port :: u16
  sin_addr :: u32

definition AF_INET :: u16 where
  "AF_INET = 2"

text \<open>The port in network order: the low 16 bits of the \<open>int\<close>, their two bytes swapped on this machine.\<close>

definition htons :: "u16 \<Rightarrow> u16" where
  "htons w = push_bit 8 w OR drop_bit 8 w"

text \<open>
  \<open>open_socket\<close>, given what \<open>socket\<close> returns, \<open>connect\<close> on a descriptor and an address, and
  \<open>inet_addr\<close>: the result, the \<open>struct Sock\<close>, the descriptors that are open afterwards, and what
  was printed to \<open>stderr\<close>.
\<close>

definition open_socket ::
  "int \<Rightarrow> (int \<Rightarrow> sockaddr_in \<Rightarrow> int) \<Rightarrow> (string \<Rightarrow> u32) \<Rightarrow> sock \<Rightarrow> option_t \<Rightarrow> int set \<Rightarrow> int \<times> sock \<times> int set \<times> string" where
  "open_socket serverSocket connect inet_addr sock opt used =
     (if serverSocket = - 1 then (- 1, sock, used, ''Could not create socket'' @ [newline])
      else
        let serverSocketAddress = \<lparr>sin_family = AF_INET, sin_port = htons (word_of_int (o_port opt)),
              sin_addr = inet_addr (o_ip_addr opt)\<rparr>
        in if connect serverSocket serverSocketAddress < 0
           then (- 1, sock, insert serverSocket used, ''Could not connect to server'' @ [newline])
           else (0, sock\<lparr>s_fd := serverSocket\<rparr>, insert serverSocket used, []))"

text \<open>Swapping the bytes twice gives back the port.\<close>

lemma htons_htons: "htons (htons w) = w"
proof (rule bit_word_eqI)
  fix n assume n: "n < LENGTH(16)"
  then show "bit (htons (htons w)) n = bit w n"
    by (auto simp: htons_def bit_or_iff bit_push_bit_iff bit_drop_bit_eq dest: bit_imp_le_length)
qed

text \<open>
  On success the descriptor is the new one, connected to the port and address of the options; a
  failed connection leaks it, and the structure keeps the old one.
\<close>

lemma open_socket_result:
  assumes "new_fd \<noteq> - 1" and "new_fd \<notin> used"
    and "\<And>a. 0 \<le> connect new_fd a \<longleftrightarrow> htons (sin_port a) = port \<and> sin_addr a = inet_addr host"
  shows "open_socket new_fd connect inet_addr sock (\<lparr>o_pid = pid, o_net = net, o_ip_addr = ip, o_port = i\<rparr>) used =
    (if word_of_int i = port \<and> inet_addr ip = inet_addr host then (0, sock\<lparr>s_fd := new_fd\<rparr>, insert new_fd used, [])
     else (- 1, sock, insert new_fd used, ''Could not connect to server'' @ [newline]))"
  using assms(1,2) assms(3) [of "\<lparr>sin_family = AF_INET, sin_port = htons (word_of_int i), sin_addr = inet_addr ip\<rparr>"]
  by (auto simp: open_socket_def Let_def htons_htons not_less)

section \<open>Sending\<close>

text \<open>
  The buffer holds \<open>None\<close> where it was never written. A read overwrites its front with the bytes it
  got, and all of it is handed to \<open>send\<close> or \<open>fwrite\<close>, whose results are ignored. The addresses wrap,
  so the loop need not end.
\<close>

partial_function (option) dump_loop ::
  "'f kernel \<Rightarrow> u64 \<Rightarrow> u64 \<Rightarrow> u8 option list \<Rightarrow> 'f \<Rightarrow> u8 option list \<Rightarrow> (u8 option list \<times> 'f) option" where
  "dump_loop K address stop buf f out =
     (if \<not> address < stop then Some (out, f)
      else
        let (bytes, f') = k_fread K f;
            buf' = map Some bytes @ drop (length bytes) buf
        in dump_loop K (address + of_nat pageSize) stop buf' f' (out @ buf'))"

definition dump_memory_region_send :: "'f kernel \<Rightarrow> u64 \<Rightarrow> u64 \<Rightarrow> 'f \<Rightarrow> (u8 option list \<times> 'f) option" where
  "dump_memory_region_send K start len f =
     dump_loop K start (start + len) (replicate pageSize None) (k_fseeko K start f) []"

text \<open>What a run of reads leaves in the buffer, one after the other.\<close>

fun buffers :: "u8 list list \<Rightarrow> u8 option list \<Rightarrow> u8 option list" where
  "buffers [] buf = []"
| "buffers (bs # bss) buf =
     (let buf' = map Some bs @ drop (length bs) buf in buf' @ buffers bss buf')"

lemma dump_loop_pages:
  assumes "unat address + pageSize * n = unat stop"
  shows "dump_loop K address stop buf f out = Some (out @ buffers (reads K n f) buf, after_reads K n f)"
  using assms
proof (induction n arbitrary: address buf f out)
  case 0
  then have "\<not> address < stop" by (simp add: word_less_nat_alt)
  then show ?case by (subst dump_loop.simps) simp
next
  case (Suc n)
  have lt: "address < stop" using Suc.prems by (simp add: word_less_nat_alt pageSize_def)
  have "unat address + pageSize < 2 ^ 64"
    using Suc.prems unsigned_less [of stop, where ?'a = nat] by (simp add: pageSize_def)
  then have "unat (address + of_nat pageSize) = unat address + pageSize"
    by (simp add: pageSize_def unat_add_lem [THEN iffD1])
  then have "unat (address + of_nat pageSize) + pageSize * n = unat stop"
    using Suc.prems by simp
  with lt Suc.IH show ?case
    by (subst dump_loop.simps) (auto simp: Let_def split: prod.splits)
qed

text \<open>When all reads are whole, exactly the memory goes out, in order.\<close>

lemma buffers_whole:
  assumes "list_all (\<lambda>bs. length bs = length buf) bss"
  shows "buffers bss buf = map Some (concat bss)"
  using assms by (induction bss arbitrary: buf) (simp_all add: Let_def)

lemma dump_memory_buffers:
  assumes "unat start + pageSize * n < 2 ^ 64"
  shows "dump_memory_region_send K start (of_nat (pageSize * n)) f =
    Some (buffers (reads K n (k_fseeko K start f)) (replicate pageSize None), after_reads K n (k_fseeko K start f))"
proof -
  have len: "unat (of_nat (pageSize * n) :: u64) = pageSize * n"
    using assms by (simp add: unsigned_of_nat take_bit_nat_eq_self del: of_nat_mult)
  have "unat start + pageSize * n = unat (start + of_nat (pageSize * n))"
    using unat_add_lem [of start "of_nat (pageSize * n)"] assms by (simp add: len del: of_nat_mult)
  then show ?thesis unfolding dump_memory_region_send_def by (subst dump_loop_pages) simp_all
qed

text \<open>In general, a page that goes out is the bytes just read, and behind them those of the page before.\<close>

lemma length_buffers:
  assumes "\<forall>bs \<in> set bss. length bs \<le> length buf"
  shows "length (buffers bss buf) = length bss * length buf"
  using assms by (induction bss arbitrary: buf) (simp_all add: Let_def)

lemma buffers_nth:
  assumes "\<forall>bs \<in> set bss. length bs \<le> p" and "length buf = p" and "i < length bss" and "j < p"
  shows "buffers bss buf ! (i * p + j) =
    (if j < length (bss ! i) then Some (bss ! i ! j) else if i = 0 then buf ! j else buffers bss buf ! ((i - 1) * p + j))"
  using assms(1-3)
proof (induction bss arbitrary: buf i)
  case (Cons bs bss)
  let ?B = "map Some bs @ drop (length bs) buf"
  have B: "length ?B = p" "\<forall>bs \<in> set bss. length bs \<le> p" using Cons.prems by simp_all
  have step: "buffers (bs # bss) buf = ?B @ buffers bss ?B" by (simp add: Let_def)
  have later: "buffers (bs # bss) buf ! (Suc k * p + j) = buffers bss ?B ! (k * p + j)" for k
    unfolding step using B(1) nth_append_length_plus [of ?B "buffers bss ?B" "k * p + j"]
    by (simp only: mult_Suc add.assoc)
  have front: "buffers (bs # bss) buf ! j = ?B ! j" unfolding step using assms(4) B(1) nth_append [of ?B "buffers bss ?B" j] by (simp only: if_True)
  show ?case
  proof (cases i)
    case 0
    then show ?thesis using front Cons.prems(2) assms(4) by (simp add: nth_append del: buffers.simps)
  next
    case (Suc k)
    then have "buffers (bs # bss) buf ! (i * p + j) = (if j < length (bss ! k) then Some (bss ! k ! j)
        else if k = 0 then ?B ! j else buffers bss ?B ! ((k - 1) * p + j))"
      using Cons.IH [OF B(2,1), of k] Cons.prems(3) later [of k] by (simp del: buffers.simps)
    moreover have "k \<noteq> 0 \<Longrightarrow> buffers bss ?B ! ((k - 1) * p + j) = buffers (bs # bss) buf ! (k * p + j)"
      using later [of "k - 1"] by (simp del: buffers.simps)
    ultimately show ?thesis using Suc front by (simp del: buffers.simps)
  qed
qed simp

text \<open>A read that yields nothing sends the previous page once more.\<close>

lemma short_read_repeats: "length a = pageSize \<Longrightarrow> length buf = pageSize \<Longrightarrow> buffers [a, []] buf = map Some (a @ a)"
  by (simp add: Let_def)

text \<open>
  C38: \<open>dump_memory_region_send\<close> on \<open>n\<close> whole pages sends \<open>n\<close> pages. A byte that was read is sent at
  its place; at the place of one that was not, the byte of the page before goes out again, and in
  the first page a byte that was never written. When all reads are whole, exactly the memory
  goes out.
\<close>

theorem dump_memory_correct:
  assumes "unat start + pageSize * n < 2 ^ 64" and "rs = reads K n (k_fseeko K start f)"
    and "\<forall>bs \<in> set rs. length bs \<le> pageSize"
  shows "\<exists>out. dump_memory_region_send K start (of_nat (pageSize * n)) f = Some (out, after_reads K n (k_fseeko K start f)) \<and>
    length out = n * pageSize \<and>
    (\<forall>i < n. \<forall>j < pageSize. out ! (i * pageSize + j) =
      (if j < length (rs ! i) then Some (rs ! i ! j) else if i = 0 then None else out ! ((i - 1) * pageSize + j))) \<and>
    ((\<forall>bs \<in> set rs. length bs = pageSize) \<longrightarrow> out = map Some (concat rs))"
proof -
  have n: "length rs = n" by (simp add: assms(2) length_reads)
  show ?thesis
    using dump_memory_buffers [OF assms(1), of K f] buffers_nth [OF assms(3), of "replicate pageSize None"]
      length_buffers [of rs "replicate pageSize None"]
      buffers_whole [of "replicate pageSize None" rs]
    by (intro exI [of _ "buffers rs (replicate pageSize None)"]) (simp add: assms(2) [symmetric] assms(3) n list_all_iff)
qed

text \<open>A stream whose second read fails: the first page is sent twice.\<close>

definition failing_kernel :: "nat kernel" where
  "failing_kernel = \<lparr>k_maps = (\<lambda>pid. None), k_mem = (\<lambda>pid. None), k_fseeko = (\<lambda>a f. 0),
     k_fread = (\<lambda>f. (if f = 0 then replicate 4096 7 else [], f + 1)), k_open = (\<lambda>name used. 3),
     k_pread = (\<lambda>name n off. (0, [])), k_malloc = (\<lambda>n. True), k_clock = (\<lambda>n. 0),
     k_strerror = (\<lambda>f. ''Success'')\<rparr>"

theorem dump_memory_correct_witness:
  "\<exists>out. dump_memory_region_send failing_kernel 4096 8192 0 = Some (out, 2) \<and> length out = 8192 \<and>
    out ! 5 = Some 7 \<and> out ! (4096 + 5) = Some 7"
proof -
  let ?rs = "[replicate 4096 7, []] :: u8 list list"
  have rs: "?rs = reads failing_kernel 2 (k_fseeko failing_kernel 4096 0)"
    "after_reads failing_kernel 2 (k_fseeko failing_kernel 4096 0) = 2"
    by (simp_all add: failing_kernel_def numeral_2_eq_2)
  have "unat (4096 :: u64) + pageSize * 2 < 2 ^ 64" "\<forall>bs \<in> set ?rs. length bs \<le> pageSize"
    by (simp_all add: pageSize_def)
  from dump_memory_correct [OF this(1) rs(1) this(2)] obtain out where
    out: "dump_memory_region_send failing_kernel 4096 (of_nat (pageSize * 2)) 0 = Some (out, 2)" "length out = 2 * pageSize"
    "\<And>i j. i < 2 \<Longrightarrow> j < pageSize \<Longrightarrow> out ! (i * pageSize + j) =
      (if j < length (?rs ! i) then Some (?rs ! i ! j) else if i = 0 then None else out ! ((i - 1) * pageSize + j))"
    unfolding rs(2) by blast
  from out(3) [of 0 5] out(3) [of 1 5] out(1,2) show ?thesis
    by (intro exI [of _ out]) (simp add: pageSize_def)
qed

end
